(* ===== verification/Prelude.thy ===== *)
theory Prelude
  imports Main "HOL-Library.Word"
begin

text \<open>
  Shared vocabulary of the mselOS development: the machine types, the status codes of
  \<^verbatim>\<open>include/msel.h\<close>, and the generic list and word lemmas that the component theories use.
  Pointers are natural numbers with \<open>0\<close> for \<^verbatim>\<open>NULL\<close>; a w-bit value whose wrap-around
  matters is a word.
\<close>

unbundle bit_operations_syntax

section \<open>Machine types\<close>

type_synonym u8 = "8 word"
type_synonym u16 = "16 word"
type_synonym u32 = "32 word"
type_synonym u64 = "64 word"
type_synonym addr = nat
type_synonym bytes = "8 word list"

text \<open>Rule collections: \<open>msel_simps\<close> holds the rewrite rules a component offers its
  clients, \<open>msel_invs\<close> the preservation lemmas of its invariant.\<close>

named_theorems msel_simps "rewrite rules of the component models"
named_theorems msel_invs "invariant preservation lemmas of the component models"

section \<open>Status codes\<close>

datatype msel_status =
    MSEL_EUNKNOWN | MSEL_EINVAL | MSEL_ERESOURCE | MSEL_EBUSY | MSEL_EINVSVC
  | MSEL_ENOTIMPL | MSEL_EBADF | MSEL_ENOMEM | MSEL_EEXIST | MSEL_ESUSP
  | MSEL_EAGAIN | MSEL_EPERM | MSEL_OK

section \<open>Lists\<close>

lemma nth_list_update_if:
  "i < length xs \<Longrightarrow> xs[i := v] ! j = (if i = j then v else xs ! j)"
  by (simp add: nth_list_update)

lemma take_Suc_upd:
  "i < length xs \<Longrightarrow> take (Suc i) (xs[i := v]) = take i xs @ [v]"
  by (simp add: take_Suc_conv_app_nth)

lemma drop_Suc_upd:
  "drop (Suc i) (xs[i := v]) = drop (Suc i) xs"
  by (simp add: drop_update_cancel)

lemma list_update_ge:
  "length xs \<le> i \<Longrightarrow> xs[i := v] = xs"
  by (simp add: list_update_beyond)

lemma set_split_list:
  "x \<in> set xs \<Longrightarrow> \<exists>ys zs. xs = ys @ x # zs \<and> x \<notin> set ys"
  by (rule split_list_first)

section \<open>Words\<close>

lemma word_xor_cancel [simp]:
  fixes x y :: "'a::len word"
  shows "(x XOR y) XOR y = x" "(y XOR x) XOR y = x" "y XOR (x XOR y) = x" "y XOR (y XOR x) = x"
  by (simp_all add: bit_eq_iff bit_simps) blast+

section \<open>Buffers\<close>

text \<open>Storing \<open>src\<close> into the buffer \<open>dst\<close> from index \<open>i\<close> on.\<close>

definition blit :: "'a list \<Rightarrow> nat \<Rightarrow> 'a list \<Rightarrow> 'a list" where
  "blit dst i src = take i dst @ src @ drop (i + length src) dst"

lemma length_blit [simp]: "i + length src \<le> length dst \<Longrightarrow> length (blit dst i src) = length dst"
  by (simp add: blit_def)

lemma nth_blit:
  assumes "i + length src \<le> length dst" "k < length dst"
  shows "blit dst i src ! k = (if i \<le> k \<and> k < i + length src then src ! (k - i) else dst ! k)"
  using assms by (auto simp: blit_def nth_append min_def)

lemma blit_full [simp]: "length src = length dst \<Longrightarrow> blit dst 0 src = src"
  by (simp add: blit_def)

lemma take_blit [simp]: "i \<le> length dst \<Longrightarrow> take i (blit dst i src) = take i dst"
  by (simp add: blit_def)

lemma drop_blit:
  assumes "i + length src \<le> length dst"
  shows "drop (i + length src) (blit dst i src) = drop (i + length src) dst"
  using assms by (simp add: blit_def)

text \<open>XOR of two buffers.\<close>

definition xor_bytes :: "bytes \<Rightarrow> bytes \<Rightarrow> bytes" where
  "xor_bytes a b = map2 (XOR) a b"

lemma length_xor_bytes [simp]: "length (xor_bytes a b) = min (length a) (length b)"
  by (simp add: xor_bytes_def)

lemma nth_xor_bytes [simp]: "i < length a \<Longrightarrow> i < length b \<Longrightarrow> xor_bytes a b ! i = a ! i XOR b ! i"
  by (simp add: xor_bytes_def)

lemma xor_bytes_cancel: "length a \<le> length b \<Longrightarrow> xor_bytes (xor_bytes a b) b = a"
  by (rule nth_equalityI) simp_all

lemma xor_bytes_commute: "xor_bytes a b = xor_bytes b a"
  by (rule nth_equalityI) (simp_all add: xor.commute min.commute)

lemma xor_bytes_Cons: "xor_bytes (a # as) (b # bs) = (a XOR b) # xor_bytes as bs"
  by (simp add: xor_bytes_def)

lemma xor_bytes_zeros: "length a \<le> n \<Longrightarrow> xor_bytes a (replicate n 0) = a"
  by (rule nth_equalityI) simp_all

section \<open>Numbers in bytes\<close>

fun le_num :: "bytes \<Rightarrow> nat" where
  "le_num [] = 0"
| "le_num (b # bs) = unat b + 256 * le_num bs"

lemma le_num_append: "le_num (xs @ ys) = le_num xs + 256 ^ length xs * le_num ys"
  by (induction xs) (simp_all add: algebra_simps)

lemma unat_u8_less [simp]: "unat (b :: u8) < 256"
  using unsigned_less [of b] by simp

lemma le_num_zeros: "le_num (replicate n 0) = 0"
  by (induction n) simp_all

lemma le_num_less: "le_num bs < 256 ^ length bs"
proof (induction bs)
  case (Cons b bs)
  have "unat b + 256 * le_num bs < 256 * Suc (le_num bs)" by simp
  also have "\<dots> \<le> 256 * 256 ^ length bs" using Cons by (intro mult_le_mono2) simp
  finally show ?case by simp
qed simp

lemma nat_xor_byte:
  assumes "x < 256" "y < (256 :: nat)"
  shows "(x + 256 * m) XOR (y + 256 * n) = (x XOR y) + 256 * (m XOR n)"
proof -
  have t: "take_bit 8 z = z" "drop_bit 8 z = 0" if "z < 256" for z :: nat
    using that by (simp_all add: take_bit_nat_eq_self drop_bit_eq_div)
  have v: "take_bit 8 (z + 256 * k) = z" "drop_bit 8 (z + 256 * k) = k" if "z < 256" for z k :: nat
    using that by (simp_all add: take_bit_eq_mod drop_bit_eq_div)
  let ?v = "(x + 256 * m) XOR (y + 256 * n)"
  have "?v = push_bit 8 (drop_bit 8 ?v) + take_bit 8 ?v" by (rule bits_ident [symmetric])
  also have "\<dots> = 256 * (m XOR n) + (x XOR y)"
    by (simp only: drop_bit_xor take_bit_xor v [OF assms(1)] v [OF assms(2)] push_bit_eq_mult) simp
  finally show ?thesis by simp
qed

lemma le_num_xor_low:
  assumes "unat (b :: u8) + 256 * m = v"
  shows "unat (b XOR r) + 256 * m = v XOR unat r"
  using nat_xor_byte [of "unat b" "unat r" m 0] assms by (simp add: unsigned_xor_eq)

lemma le_num_xor: "length a = length b \<Longrightarrow> le_num (xor_bytes a b) = le_num a XOR le_num b"
proof (induction a b rule: list_induct2)
  case (Cons x xs y ys)
  then show ?case
    using nat_xor_byte [of "unat x" "unat y" "le_num xs" "le_num ys"] by (simp add: xor_bytes_def unsigned_xor_eq)
qed (simp add: xor_bytes_def)

text \<open>Big-endian numbers.\<close>

definition be_num :: "bytes \<Rightarrow> nat" where
  "be_num bs = le_num (rev bs)"

lemma be_num_Nil [simp]: "be_num [] = 0"
  by (simp add: be_num_def)

lemma be_num_snoc: "be_num (bs @ [b]) = unat b + 256 * be_num bs"
  by (simp add: be_num_def)

lemma be_num_Cons: "be_num (b # bs) = 256 ^ length bs * unat b + be_num bs"
  by (simp add: be_num_def le_num_append)

lemma be_num_less: "be_num bs < 256 ^ length bs"
  using le_num_less [of "rev bs"] by (simp add: be_num_def)

lemma rev_xor_bytes: "length a = length b \<Longrightarrow> rev (xor_bytes a b) = xor_bytes (rev a) (rev b)"
  by (simp add: xor_bytes_def rev_map zip_rev)

lemma be_num_xor: "length a = length b \<Longrightarrow> be_num (xor_bytes a b) = be_num a XOR be_num b"
  by (simp add: be_num_def rev_xor_bytes le_num_xor)

text \<open>The bytes of a word, least significant first, and most significant first.\<close>

definition le_bytes :: "nat \<Rightarrow> 'a :: len word \<Rightarrow> bytes" where
  "le_bytes n v = map (\<lambda>i. ucast (drop_bit (8 * i) v)) [0..<n]"

definition be_bytes :: "nat \<Rightarrow> 'a :: len word \<Rightarrow> bytes" where
  "be_bytes n v = rev (le_bytes n v)"

lemma length_le_bytes [simp]: "length (le_bytes n v) = n" "length (be_bytes n v) = n"
  by (simp_all add: le_bytes_def be_bytes_def)

lemma unat_byte: "unat (ucast (drop_bit (8 * i) v) :: u8) = unat v div 256 ^ i mod 256"
proof -
  have "unat (drop_bit (8 * i) v) = unat v div 256 ^ i"
    unfolding unsigned_drop_bit_eq using drop_bit_eq_div [of "8 * i" "unat v"] by (simp add: take_bit_nat_eq_self power_mult)
  then show ?thesis by (simp add: unsigned_ucast_eq take_bit_eq_mod)
qed

lemma le_num_le_bytes: "le_num (le_bytes n v) = unat v mod 256 ^ n"
proof (induction n)
  case (Suc n)
  have "unat v mod 256 ^ Suc n = unat v mod (256 ^ n * 256)" by (simp add: mult.commute)
  also have "\<dots> = 256 ^ n * (unat v div 256 ^ n mod 256) + unat v mod 256 ^ n" by (rule mod_mult2_eq)
  finally show ?case using Suc by (simp add: le_bytes_def le_num_append unat_byte)
qed (simp add: le_bytes_def)

lemma be_num_be_bytes: "be_num (be_bytes n v) = unat v mod 256 ^ n"
  by (simp add: be_num_def be_bytes_def le_num_le_bytes)

lemma le_num_inject: "length a = length b \<Longrightarrow> le_num a = le_num b \<Longrightarrow> a = b"
proof (induction a b rule: list_induct2)
  case (Cons x xs y ys)
  have "unat x = unat y" "le_num xs = le_num ys"
    using arg_cong [OF Cons.prems, of "\<lambda>n. n mod 256"] arg_cong [OF Cons.prems, of "\<lambda>n. n div 256"] by simp_all
  then show ?case using Cons.IH by (simp add: word_unat_eq_iff)
qed simp

lemma be_num_inject: "length a = length b \<Longrightarrow> be_num a = be_num b \<Longrightarrow> a = b"
  using le_num_inject [of "rev a" "rev b"] by (simp add: be_num_def)

lemma unat_of_bytes:
  assumes "8 * length bs \<le> LENGTH('a)" "m < 256 ^ length bs"
  shows "unat (of_nat m :: 'a :: len word) = m"
proof -
  have "(2 :: nat) ^ (8 * length bs) \<le> 2 ^ LENGTH('a)" using assms(1) by (intro power_increasing) simp_all
  then have "256 ^ length bs \<le> (2 :: nat) ^ LENGTH('a)" by (simp add: power_mult)
  then show ?thesis using assms(2) by (simp add: unsigned_of_nat take_bit_nat_eq_self)
qed

lemma le_bytes_num:
  assumes "8 * length bs \<le> LENGTH('a)"
  shows "le_bytes (length bs) (of_nat (le_num bs) :: 'a :: len word) = bs"
  using unat_of_bytes [OF assms le_num_less] le_num_less [of bs]
  by (intro le_num_inject) (simp_all add: le_num_le_bytes)

lemma be_bytes_num:
  assumes "8 * length bs \<le> LENGTH('a)"
  shows "be_bytes (length bs) (of_nat (be_num bs) :: 'a :: len word) = bs"
  using le_bytes_num [where 'a = 'a, of "rev bs"] assms by (simp add: be_bytes_def be_num_def)

lemma of_nat_le_num:
  fixes v :: "'a :: len word"
  assumes "LENGTH('a) = 8 * n"
  shows "of_nat (le_num (le_bytes n v)) = v" "of_nat (be_num (be_bytes n v)) = v"
proof -
  have "unat v < 256 ^ n" using unsigned_less [of v] assms by (simp add: power_mult)
  then show "of_nat (le_num (le_bytes n v)) = v" "of_nat (be_num (be_bytes n v)) = v"
    by (simp_all add: le_num_le_bytes be_num_be_bytes)
qed

lemma le_bytes_xor: "le_bytes n (v XOR w) = xor_bytes (le_bytes n v) (le_bytes n w)"
  by (rule nth_equalityI) (simp_all add: le_bytes_def drop_bit_xor unsigned_xor_eq)

lemma be_bytes_xor: "be_bytes n (v XOR w) = xor_bytes (be_bytes n v) (be_bytes n w)"
  by (simp add: be_bytes_def le_bytes_xor rev_xor_bytes)

text \<open>Shifts and masks of words as arithmetic.\<close>

lemma unat_drop_bit: "unat (drop_bit n (v :: 'a :: len word)) = unat v div 2 ^ n"
  unfolding unsigned_drop_bit_eq using drop_bit_eq_div [of n "unat v"] by (simp add: take_bit_nat_eq_self)

lemma unat_mask: "unat ((a :: 'a :: len word) AND mask k) = unat a mod 2 ^ k"
proof -
  have "unat (a AND mask k) = take_bit k (unat a)" unfolding take_bit_eq_mask [symmetric] by (rule unsigned_take_bit_eq)
  then show ?thesis by (simp only: take_bit_nat_def)
qed

lemma unat_of_nat32: "n < 4294967296 \<Longrightarrow> unat (of_nat n :: u32) = n"
  by (simp add: unsigned_of_nat take_bit_nat_eq_self)

end
