(* ===== verification/Dseg.thy ===== *)
theory Dseg
  imports Prelude
begin

text \<open>
  Doubly linked segments in a heap of two pointer fields. \<open>dseg nx pv q p xs l r\<close> says that
  following \<open>nx\<close> from \<open>p\<close> visits exactly the cells \<open>xs\<close> and then reaches \<open>r\<close>, that the
  \<open>pv\<close> field of every visited cell names the cell before it (\<open>q\<close> before the first), and
  that \<open>l\<close> is the last cell visited (\<open>q\<close> when there is none). Pointer \<open>0\<close> is
  \<^verbatim>\<open>NULL\<close> and never a cell. Both the free lists of \<^verbatim>\<open>os/malloc.c\<close> and the lists of
  \<^verbatim>\<open>os/list.h\<close> are such segments ending in \<^verbatim>\<open>NULL\<close>.
\<close>

primrec dseg :: "(addr \<Rightarrow> addr) \<Rightarrow> (addr \<Rightarrow> addr) \<Rightarrow> addr \<Rightarrow> addr \<Rightarrow> addr list \<Rightarrow> addr \<Rightarrow> addr \<Rightarrow> bool" where
  "dseg nx pv q p [] l r \<longleftrightarrow> l = q \<and> r = p"
| "dseg nx pv q p (x # xs) l r \<longleftrightarrow> p = x \<and> x \<noteq> 0 \<and> pv x = q \<and> dseg nx pv x (nx x) xs l r"

lemma dseg_append:
  "dseg nx pv q p (xs @ ys) l r \<longleftrightarrow> (\<exists>m n. dseg nx pv q p xs m n \<and> dseg nx pv m n ys l r)"
  by (induction xs arbitrary: q p) auto

lemma dseg_nonzero: "dseg nx pv q p xs l r \<Longrightarrow> 0 \<notin> set xs"
  by (induction xs arbitrary: q p) auto

lemma dseg_null_head: "dseg nx pv q 0 xs l r \<Longrightarrow> xs = []"
  by (cases xs) auto

lemma dseg_head: "dseg nx pv q p xs l r \<Longrightarrow> xs \<noteq> [] \<Longrightarrow> p = hd xs"
  by (cases xs) auto

lemma dseg_last: "dseg nx pv q p xs l r \<Longrightarrow> l = (if xs = [] then q else last xs)"
  by (induction xs arbitrary: q p) auto

lemma dseg_upd_nx [simp]:
  "x \<notin> set xs \<Longrightarrow> dseg (nx(x := v)) pv q p xs l r = dseg nx pv q p xs l r"
  by (induction xs arbitrary: q p) auto

lemma dseg_upd_pv [simp]:
  "x \<notin> set xs \<Longrightarrow> dseg nx (pv(x := v)) q p xs l r = dseg nx pv q p xs l r"
  by (induction xs arbitrary: q p) auto

lemma dseg_cong:
  "(\<And>x. x \<in> set xs \<Longrightarrow> nx x = nx' x \<and> pv x = pv' x) \<Longrightarrow>
    dseg nx pv q p xs l r = dseg nx' pv' q p xs l r"
  by (induction xs arbitrary: q p) auto

text \<open>A list is determined by its head: two walks from the same pointer to \<^verbatim>\<open>NULL\<close> agree.\<close>

lemma dseg_unique:
  "dseg nx pv q p xs l 0 \<Longrightarrow> dseg nx pv q' p ys l' 0 \<Longrightarrow> xs = ys"
proof (induction xs arbitrary: q p q' ys)
  case Nil
  then show ?case by (cases ys) auto
next
  case (Cons x xs)
  then obtain ys' where "ys = x # ys'" by (cases ys) auto
  with Cons show ?case by auto
qed

text \<open>Re-pointing the \<open>nx\<close> field of the last cell, and the \<open>pv\<close> field of the first.\<close>

lemma dseg_redirect_last:
  assumes "dseg nx pv q p (xs @ [y]) l r" "y \<notin> set xs"
  shows "dseg (nx(y := n)) pv q p (xs @ [y]) y n"
  using assms by (auto simp: dseg_append)

lemma dseg_redirect_first:
  assumes "dseg nx pv q p (x # xs) l r" "x \<notin> set xs"
  shows "dseg nx (pv(x := m)) m p (x # xs) l r"
  using assms by auto

text \<open>Taking a cell out of a list that ends in \<^verbatim>\<open>NULL\<close>: the neighbours are joined, and the
  head or tail pointer moves when the cell was the first or the last.\<close>

lemma dseg_unlink:
  assumes d: "dseg nx pv 0 p (xs @ x # ys) l 0" and dist: "distinct (xs @ x # ys)"
  shows "dseg (if pv x = 0 then nx else nx(pv x := nx x))
              (if nx x = 0 then pv else pv(nx x := pv x)) 0
              (if pv x = 0 then nx x else p) (xs @ ys)
              (if nx x = 0 then pv x else l) 0"
    and "pv x = 0 \<longleftrightarrow> xs = []" and "nx x = 0 \<longleftrightarrow> ys = []"
proof -
  from d obtain m n where xs: "dseg nx pv 0 p xs m n" and "n = x" "x \<noteq> 0" and pvx: "pv x = m"
    and ys: "dseg nx pv x (nx x) ys l 0"
    by (auto simp: dseg_append)
  have m: "m = (if xs = [] then 0 else last xs)" using dseg_last [OF xs] .
  show pz: "pv x = 0 \<longleftrightarrow> xs = []"
    using m pvx dseg_nonzero [OF xs] by (metis last_in_set)
  show nz: "nx x = 0 \<longleftrightarrow> ys = []"
    using ys dseg_null_head by (metis dseg.simps(1) dseg_nonzero dseg_head hd_in_set)
  let ?nx = "if pv x = 0 then nx else nx(pv x := nx x)"
  let ?pv = "if nx x = 0 then pv else pv(nx x := pv x)"
  have left: "dseg ?nx ?pv 0 (if pv x = 0 then nx x else p) xs (pv x) (nx x)"
  proof (cases xs rule: rev_cases)
    case Nil
    then show ?thesis using pz by simp
  next
    case (snoc zs z)
    then have z: "pv x = z" "z \<noteq> 0" "z \<notin> set zs" using m pvx pz dist by auto
    have "nx x \<notin> set xs"
      using ys dist nz dseg_nonzero [OF xs] by (cases ys) auto
    moreover have "dseg (nx(z := nx x)) pv 0 p xs z (nx x)"
      using dseg_redirect_last xs snoc z by metis
    ultimately show ?thesis using z by (cases "nx x = 0") simp_all
  qed
  have right: "dseg ?nx ?pv (pv x) (nx x) ys (if nx x = 0 then pv x else l) 0"
  proof (cases ys)
    case Nil
    then show ?thesis using nz by simp
  next
    case (Cons y zs)
    then have y: "nx x = y" "y \<noteq> 0" "y \<notin> set zs" using ys dist by auto
    have "pv x \<noteq> 0 \<Longrightarrow> pv x \<notin> set ys"
      using m pvx dist by (metis disjoint_iff distinct_append last_in_set list.set_intros(2))
    moreover have "dseg nx (pv(y := pv x)) (pv x) (nx x) ys l 0"
      using dseg_redirect_first ys Cons y by metis
    ultimately show ?thesis using y by (cases "pv x = 0") simp_all
  qed
  show "dseg ?nx ?pv 0 (if pv x = 0 then nx x else p) (xs @ ys) (if nx x = 0 then pv x else l) 0"
    unfolding dseg_append using left right by blast
qed

text \<open>The neighbours of a cell are cells of the list or \<^verbatim>\<open>NULL\<close>.\<close>

lemma dseg_neighbours:
  assumes "dseg nx pv 0 p (xs @ x # ys) l 0"
  shows "pv x = 0 \<or> pv x \<in> set xs" and "nx x = 0 \<or> nx x \<in> set ys"
proof -
  from assms obtain m n where xs: "dseg nx pv 0 p xs m n" and pvx: "pv x = m"
    and ys: "dseg nx pv x (nx x) ys l 0"
    by (auto simp: dseg_append)
  show "pv x = 0 \<or> pv x \<in> set xs"
    using dseg_last [OF xs] pvx by auto
  show "nx x = 0 \<or> nx x \<in> set ys"
    using ys by (cases ys) auto
qed

text \<open>Putting a new cell in front.\<close>

lemma dseg_push_front:
  assumes d: "dseg nx pv 0 p xs l 0" and x: "x \<noteq> 0" "x \<notin> set xs" and dist: "distinct xs"
  shows "dseg (nx(x := p)) ((if p = 0 then pv else pv(p := x))(x := 0)) 0 x (x # xs)
           (if p = 0 then x else l) 0"
proof (cases xs)
  case Nil
  then show ?thesis using d x by simp
next
  case (Cons y ys)
  then have "p = y" "y \<noteq> 0" "y \<notin> set ys" "y \<noteq> x" using d dist x by auto
  moreover have "dseg nx (pv(y := x)) x p xs l 0"
    using dseg_redirect_first d Cons dist by (metis distinct.simps(2))
  ultimately show ?thesis using x by simp
qed

text \<open>Putting a new cell at the end.\<close>

lemma dseg_push_back:
  assumes d: "dseg nx pv 0 p xs l 0" and x: "x \<noteq> 0" "x \<notin> set xs" and dist: "distinct xs"
  shows "dseg ((if xs = [] then nx else nx(l := x))(x := 0)) (pv(x := l)) 0
           (if xs = [] then x else p) (xs @ [x]) x 0"
proof (cases xs rule: rev_cases)
  case Nil
  then show ?thesis using d x by simp
next
  case (snoc ys y)
  then have l: "l = y" "y \<notin> set ys" "y \<noteq> x" using dseg_last [OF d] dist x by auto
  have "dseg (nx(y := x)) pv 0 p xs y x"
    using dseg_redirect_last d snoc l by metis
  then have "dseg (nx(y := x, x := 0)) (pv(x := l)) 0 p xs y x" using x by simp
  then show ?thesis using snoc l x by (auto simp: dseg_append)
qed

end
