(* ===== verification/Malloc.thy ===== *)
theory Malloc
  imports Dseg
begin

text \<open>
  The task heap allocator of \<^verbatim>\<open>os/malloc.c\<close> and \<^verbatim>\<open>os/malloc_int.h\<close>: definitions only;
  the invariant and the correctness lemmas are in \<open>Malloc_Inv\<close> and \<open>Malloc_Correct\<close>.

  Memory is word addressed: \<open>hmem h a\<close> is the 32-bit word stored at byte address \<open>a\<close>. Every
  access of the allocator is a 4-byte access at a multiple of 4: a \<^verbatim>\<open>HEADER\<close> at \<open>p\<close> has its
  \<^verbatim>\<open>size\<close> at \<open>p\<close>, \<^verbatim>\<open>next\<close> at \<open>p + 4\<close> and \<^verbatim>\<open>prev\<close> at \<open>p + 8\<close>, a \<^verbatim>\<open>FOOTER\<close> has its
  \<^verbatim>\<open>size\<close> at \<open>p\<close>, and both are padded to \<^verbatim>\<open>ALIGN_SIZE\<close> = 16 bytes. Addresses and sizes are
  natural numbers below \<open>2 ^ 32\<close>; the one computation whose 32-bit wrap-around is observable,
  rounding a requested size up to the alignment, is written with \<open>mod 2 ^ 32\<close>.
  The \<^verbatim>\<open>HEAP\<close> structure in front of the managed region is the record \<open>heap\<close>.
\<close>

section \<open>Data\<close>

abbreviation ALIGN_SIZE :: nat where "ALIGN_SIZE \<equiv> 16"
abbreviation BUCKET_COUNT :: nat where "BUCKET_COUNT \<equiv> 4"
abbreviation BUCKET_SHIFT :: nat where "BUCKET_SHIFT \<equiv> 7"
abbreviation CHUNK_FREE :: nat where "CHUNK_FREE \<equiv> 1"
abbreviation SIZEOF_HEADER :: nat where "SIZEOF_HEADER \<equiv> 16"
abbreviation SIZEOF_FOOTER :: nat where "SIZEOF_FOOTER \<equiv> 16"
abbreviation SIZEOF_HEAP :: nat where "SIZEOF_HEAP \<equiv> 24"

record heap =
  hmem :: "addr \<Rightarrow> nat"
  free_list :: "addr list"
  hp_start :: addr
  hp_end :: addr

text \<open>Field accesses \<^verbatim>\<open>p->s.size\<close> (header or footer), \<^verbatim>\<open>p->s.next\<close>, \<^verbatim>\<open>p->s.prev\<close>.\<close>

definition s_size :: "heap \<Rightarrow> addr \<Rightarrow> nat" where "s_size h p = hmem h p"
definition s_next :: "heap \<Rightarrow> addr \<Rightarrow> addr" where "s_next h p = hmem h (p + 4)"
definition s_prev :: "heap \<Rightarrow> addr \<Rightarrow> addr" where "s_prev h p = hmem h (p + 8)"

definition set_size :: "addr \<Rightarrow> nat \<Rightarrow> heap \<Rightarrow> heap" where
  "set_size p v h = h\<lparr>hmem := (hmem h)(p := v)\<rparr>"
definition set_next :: "addr \<Rightarrow> addr \<Rightarrow> heap \<Rightarrow> heap" where
  "set_next p v h = h\<lparr>hmem := (hmem h)(p + 4 := v)\<rparr>"
definition set_prev :: "addr \<Rightarrow> addr \<Rightarrow> heap \<Rightarrow> heap" where
  "set_prev p v h = h\<lparr>hmem := (hmem h)(p + 8 := v)\<rparr>"
definition set_bucket :: "nat \<Rightarrow> addr \<Rightarrow> heap \<Rightarrow> heap" where
  "set_bucket b p h = h\<lparr>free_list := (free_list h)[b := p]\<rparr>"

text \<open>\<open>v & ~(ALIGN_SIZE - 1)\<close> and \<open>v & (ALIGN_SIZE - 1)\<close>, on the size word of a header or
  footer.\<close>

definition align_down :: "nat \<Rightarrow> nat" where "align_down v = v - v mod ALIGN_SIZE"
definition CHUNK_SIZE :: "heap \<Rightarrow> addr \<Rightarrow> nat" where "CHUNK_SIZE h p = align_down (s_size h p)"
definition CHUNK_FLAGS :: "heap \<Rightarrow> addr \<Rightarrow> nat" where "CHUNK_FLAGS h p = s_size h p mod ALIGN_SIZE"

text \<open>\<open>CHUNK_FLAGS(p) & CHUNK_FREE\<close>; \<open>v | CHUNK_FREE\<close>; \<open>v & ~CHUNK_FREE\<close>.\<close>

definition is_free :: "heap \<Rightarrow> addr \<Rightarrow> bool" where
  "is_free h p \<longleftrightarrow> odd (CHUNK_FLAGS h p)"
definition or_free :: "nat \<Rightarrow> nat" where "or_free v = (if odd v then v else v + CHUNK_FREE)"
definition clear_free :: "nat \<Rightarrow> nat" where "clear_free v = (if odd v then v - CHUNK_FREE else v)"

section \<open>Navigation\<close>

definition get_bucket_idx :: "nat \<Rightarrow> nat" where
  "get_bucket_idx sz =
     (let ret = drop_bit BUCKET_SHIFT sz
      in if ret \<ge> BUCKET_COUNT then BUCKET_COUNT - 1 else ret)"

definition get_header_from_ptr :: "addr \<Rightarrow> addr" where
  "get_header_from_ptr ptr = ptr - SIZEOF_HEADER"

definition get_footer_from_header :: "heap \<Rightarrow> addr \<Rightarrow> addr" where
  "get_footer_from_header h hdr = hdr + SIZEOF_HEADER + CHUNK_SIZE h hdr"

definition get_header_from_footer :: "heap \<Rightarrow> addr \<Rightarrow> addr" where
  "get_header_from_footer h ftr = ftr - SIZEOF_HEADER - CHUNK_SIZE h ftr"

definition get_prev_footer :: "addr \<Rightarrow> addr" where
  "get_prev_footer hdr = hdr - SIZEOF_FOOTER"

definition get_next_chunk :: "heap \<Rightarrow> addr \<Rightarrow> addr" where
  "get_next_chunk h hdr = hdr + SIZEOF_HEADER + CHUNK_SIZE h hdr + SIZEOF_FOOTER"

section \<open>Operations\<close>

definition freelist_unlink :: "addr \<Rightarrow> heap \<Rightarrow> heap" where
  "freelist_unlink hdr h =
     (let h1 = (if s_prev h hdr \<noteq> 0 then set_next (s_prev h hdr) (s_next h hdr) h
                else set_bucket (get_bucket_idx (s_size h hdr)) (s_next h hdr) h)
      in if s_next h1 hdr \<noteq> 0 then set_prev (s_next h1 hdr) (s_prev h1 hdr) h1 else h1)"

text \<open>The three phases of \<^verbatim>\<open>heap_free\<close>; each returns the header (and footer) it leaves for
  the next.\<close>

definition reverse_merge :: "addr \<Rightarrow> addr \<Rightarrow> heap \<Rightarrow> addr \<times> heap" where
  "reverse_merge hdr ftr h =
     (if hdr > hp_start h \<and> is_free h (get_prev_footer hdr) then
        let chk_hdr = get_header_from_footer h (get_prev_footer hdr);
            h1 = freelist_unlink chk_hdr h;
            h2 = set_size chk_hdr (s_size h1 chk_hdr + CHUNK_SIZE h1 hdr
                    + SIZEOF_HEADER + SIZEOF_FOOTER) h1
        in (chk_hdr, set_size ftr (s_size h2 chk_hdr) h2)
      else (hdr, h))"

definition forward_merge :: "addr \<Rightarrow> heap \<Rightarrow> heap" where
  "forward_merge hdr h =
     (let chk_hdr = get_next_chunk h hdr
      in if chk_hdr < hp_end h \<and> is_free h chk_hdr then
           let chk_ftr = get_footer_from_header h chk_hdr;
               h1 = freelist_unlink chk_hdr h;
               h2 = set_size hdr (s_size h1 hdr + CHUNK_SIZE h1 chk_hdr
                       + SIZEOF_HEADER + SIZEOF_FOOTER) h1
           in set_size chk_ftr (s_size h2 hdr) h2
         else h)"

definition link_free :: "addr \<Rightarrow> heap \<Rightarrow> heap" where
  "link_free hdr h =
     (let b = get_bucket_idx (s_size h hdr);
          h1 = set_prev hdr 0 h;
          h2 = set_next hdr (free_list h1 ! b) h1;
          h3 = (if s_next h2 hdr \<noteq> 0 then set_prev (s_next h2 hdr) hdr h2 else h2)
      in set_bucket b hdr h3)"

definition heap_free :: "addr \<Rightarrow> heap \<Rightarrow> heap" where
  "heap_free ptr h =
     (let hdr = get_header_from_ptr ptr;
          ftr = get_footer_from_header h hdr;
          h1 = set_size hdr (or_free (s_size h hdr)) h;
          h2 = set_size ftr (s_size h1 hdr) h1;
          (hdr', h3) = reverse_merge hdr ftr h2
      in link_free hdr' (forward_merge hdr' h3))"

definition chunk_split :: "addr \<Rightarrow> nat \<Rightarrow> heap \<Rightarrow> heap" where
  "chunk_split hdr sz h =
     (let rem = CHUNK_SIZE h hdr - sz
      in if rem < SIZEOF_HEADER + SIZEOF_FOOTER + ALIGN_SIZE then
           let ftr = get_footer_from_header h hdr;
               h1 = set_size hdr (clear_free (s_size h hdr)) h
           in set_size ftr (s_size h1 hdr) h1
         else
           let h1 = set_size hdr sz h;
               chk = get_next_chunk h1 hdr;
               h2 = set_size (get_footer_from_header h1 hdr) (s_size h1 hdr) h1;
               h3 = set_size chk (rem - (SIZEOF_HEADER + SIZEOF_FOOTER)) h2;
               h4 = set_size (get_footer_from_header h3 chk) (s_size h3 chk) h3
           in heap_free (chk + SIZEOF_HEADER) h4)"

definition HEAP_SIZE :: nat where
  "HEAP_SIZE = align_down (SIZEOF_HEAP + ALIGN_SIZE - 1)"

definition heap_init :: "addr \<Rightarrow> addr \<Rightarrow> (addr \<Rightarrow> nat) \<Rightarrow> heap" where
  "heap_init base_ptr end_ptr m =
     (let ptr = base_ptr + HEAP_SIZE;
          h0 = \<lparr>hmem = m, free_list = replicate BUCKET_COUNT 0, hp_start = ptr, hp_end = end_ptr\<rparr>;
          hdr = ptr;
          ptr' = ptr + SIZEOF_HEADER;
          eptr = end_ptr - SIZEOF_FOOTER;
          h1 = set_size hdr (or_free (eptr - ptr')) h0;
          h2 = set_size eptr (s_size h1 hdr) h1;
          h3 = set_next hdr 0 (set_prev hdr 0 h2)
      in set_bucket (get_bucket_idx (s_size h3 hdr)) hdr h3)"

text \<open>\<open>(size + ALIGN_SIZE - 1) & ~(ALIGN_SIZE - 1)\<close> in 32-bit arithmetic.\<close>

definition round_up :: "nat \<Rightarrow> nat" where
  "round_up sz = align_down ((sz + ALIGN_SIZE - 1) mod 2 ^ 32)"

text \<open>The inner loop of \<^verbatim>\<open>heap_malloc\<close> walks one free list; \<open>None\<close> is a walk that never
  ends. The outer loop tries the buckets in turn. The result is the header found, or \<open>0\<close>.\<close>

partial_function (option) first_fit :: "heap \<Rightarrow> addr \<Rightarrow> nat \<Rightarrow> addr option" where
  "first_fit h hdr sz =
     (if hdr = 0 then Some 0
      else if CHUNK_SIZE h hdr \<ge> sz then Some hdr
      else first_fit h (s_next h hdr) sz)"

fun bucket_search :: "heap \<Rightarrow> nat \<Rightarrow> nat list \<Rightarrow> addr option" where
  "bucket_search h sz [] = Some 0"
| "bucket_search h sz (b # bs) =
     (case first_fit h (free_list h ! b) sz of
        None \<Rightarrow> None
      | Some hdr \<Rightarrow> if hdr \<noteq> 0 then Some hdr else bucket_search h sz bs)"

definition heap_malloc :: "nat \<Rightarrow> heap \<Rightarrow> (addr \<times> heap) option" where
  "heap_malloc req h =
     (let sz = round_up req
      in case bucket_search h sz [get_bucket_idx sz..<BUCKET_COUNT] of
           None \<Rightarrow> None
         | Some hdr \<Rightarrow>
             if hdr = 0 then Some (0, h)
             else Some (hdr + SIZEOF_HEADER, chunk_split hdr sz (freelist_unlink hdr h)))"

text \<open>\<^verbatim>\<open>msel_memcpy\<close> (\<^verbatim>\<open>os/stdc.c\<close>) of \<open>n\<close> words, in ascending order.\<close>

fun copy_words :: "addr \<Rightarrow> addr \<Rightarrow> nat \<Rightarrow> (addr \<Rightarrow> nat) \<Rightarrow> (addr \<Rightarrow> nat)" where
  "copy_words dst src 0 m = m"
| "copy_words dst src (Suc n) m = copy_words (dst + 4) (src + 4) n (m(dst := m src))"

text \<open>Absorbing a free successor, the first step of a growing \<^verbatim>\<open>heap_realloc\<close>.\<close>

definition realloc_merge :: "addr \<Rightarrow> heap \<Rightarrow> heap" where
  "realloc_merge hdr h =
     (let chk_hdr = get_next_chunk h hdr
      in if chk_hdr < hp_end h \<and> is_free h chk_hdr then
           let h1 = freelist_unlink chk_hdr h;
               h2 = set_size hdr (s_size h1 hdr + (CHUNK_SIZE h1 chk_hdr
                       + SIZEOF_HEADER + SIZEOF_FOOTER)) h1
           in set_size (get_footer_from_header h2 hdr) (s_size h2 hdr) h2
         else h)"

definition heap_realloc :: "addr \<Rightarrow> nat \<Rightarrow> heap \<Rightarrow> (addr \<times> heap) option" where
  "heap_realloc ptr req h =
     (let sz = round_up req;
          hdr = ptr - SIZEOF_HEADER
      in if CHUNK_SIZE h hdr < sz then
           let h1 = realloc_merge hdr h
           in if CHUNK_SIZE h1 hdr < sz then
                case heap_malloc sz h1 of
                  None \<Rightarrow> None
                | Some (p, h2) \<Rightarrow>
                    if p = 0 then Some (0, h2)
                    else Some (p, heap_free ptr (h2\<lparr>hmem := copy_words p ptr (sz div 4) (hmem h2)\<rparr>))
              else Some (ptr, chunk_split hdr sz h1)
         else Some (ptr, chunk_split hdr sz h))"

end
