(* ===== verification/Malloc_Inv.thy ===== *)
theory Malloc_Inv
  imports Malloc
begin

text \<open>
  The invariant of the task heap. A heap is described by the list \<open>cs\<close> of its chunks in
  address order; a chunk \<open>(a, s, f)\<close> has its header at \<open>a\<close>, \<open>s\<close> payload bytes and is free
  when \<open>f\<close>. The chunks tile the managed region, each header and footer carry the size and the
  free flag, and the free lists of the four buckets hold exactly the chunks of a set \<open>L\<close>. At
  rest \<open>L\<close> is the set of free chunks and no two free chunks are adjacent.
\<close>

type_synonym chunk = "addr \<times> nat \<times> bool"

fun layout :: "addr \<Rightarrow> chunk list \<Rightarrow> addr \<Rightarrow> bool" where
  "layout p [] e \<longleftrightarrow> p = e"
| "layout p ((a, s, f) # cs) e \<longleftrightarrow> a = p \<and> 16 dvd s \<and> layout (a + 32 + s) cs e"

definition tag :: "nat \<Rightarrow> bool \<Rightarrow> nat" where
  "tag s f = s + (if f then 1 else 0)"

fun chunk_ok :: "(addr \<Rightarrow> nat) \<Rightarrow> chunk \<Rightarrow> bool" where
  "chunk_ok m (a, s, f) \<longleftrightarrow> m a = tag s f \<and> m (a + 16 + s) = tag s f"

definition linked :: "chunk list \<Rightarrow> addr set \<Rightarrow> nat \<Rightarrow> addr set" where
  "linked cs L b = {a \<in> L. \<exists>s f. (a, s, f) \<in> set cs \<and> get_bucket_idx s = b}"

definition flist :: "heap \<Rightarrow> nat \<Rightarrow> addr set \<Rightarrow> bool" where
  "flist h b A \<longleftrightarrow> (\<exists>xs l. dseg (s_next h) (s_prev h) 0 (free_list h ! b) xs l 0
                        \<and> distinct xs \<and> set xs = A)"

definition hinv :: "heap \<Rightarrow> chunk list \<Rightarrow> addr set \<Rightarrow> bool" where
  "hinv h cs L \<longleftrightarrow>
     16 dvd hp_start h \<and> 0 < hp_start h \<and> layout (hp_start h) cs (hp_end h)
     \<and> (\<forall>c \<in> set cs. chunk_ok (hmem h) c)
     \<and> length (free_list h) = BUCKET_COUNT \<and> L \<subseteq> fst ` set cs
     \<and> (\<forall>b < BUCKET_COUNT. flist h b (linked cs L b))"

definition free_addrs :: "chunk list \<Rightarrow> addr set" where
  "free_addrs cs = {a. \<exists>s. (a, s, True) \<in> set cs}"

fun no_adj :: "chunk list \<Rightarrow> bool" where
  "no_adj ((a, s, f) # (b, t, g) # cs) \<longleftrightarrow> \<not> (f \<and> g) \<and> no_adj ((b, t, g) # cs)"
| "no_adj _ \<longleftrightarrow> True"

definition heap_inv :: "heap \<Rightarrow> chunk list \<Rightarrow> bool" where
  "heap_inv h cs \<longleftrightarrow> hinv h cs (free_addrs cs) \<and> no_adj cs \<and> hp_end h < 2 ^ 32"

section \<open>Arithmetic of sizes and addresses\<close>

lemma align_down_tag [simp]: "16 dvd s \<Longrightarrow> align_down (tag s f) = s"
  by (auto simp: align_down_def tag_def elim!: dvdE)

lemma tag_mod [simp]: "16 dvd s \<Longrightarrow> tag s f mod 16 = (if f then 1 else 0)"
  by (auto simp: tag_def elim!: dvdE)

lemma odd_tag [simp]: "16 dvd s \<Longrightarrow> odd (tag s f) = f"
  by (auto simp: tag_def elim!: dvdE)

lemma or_free_tag [simp]: "16 dvd s \<Longrightarrow> or_free (tag s f) = tag s True"
  by (auto simp: or_free_def tag_def elim!: dvdE)

lemma clear_free_tag [simp]: "16 dvd s \<Longrightarrow> clear_free (tag s f) = tag s False"
  by (auto simp: clear_free_def tag_def elim!: dvdE)

lemma get_bucket_idx_alt: "get_bucket_idx s = min 3 (s div 128)"
  by (auto simp: get_bucket_idx_def drop_bit_eq_div Let_def)

lemma get_bucket_idx_less [simp]: "get_bucket_idx s < 4"
  by (simp add: get_bucket_idx_alt)

lemma get_bucket_idx_tag [simp]: "16 dvd s \<Longrightarrow> get_bucket_idx (tag s f) = get_bucket_idx s"
  by (auto simp: get_bucket_idx_alt tag_def elim!: dvdE)

lemma get_bucket_idx_mono: "s \<le> t \<Longrightarrow> get_bucket_idx s \<le> get_bucket_idx t"
  by (simp add: get_bucket_idx_alt div_le_mono min.coboundedI2)

lemma align_down_dvd [simp]: "16 dvd align_down v"
  by (simp add: align_down_def dvd_minus_mod)

lemma align_down_le: "align_down v \<le> v"
  by (simp add: align_down_def)

lemma round_up_dvd [simp]: "16 dvd round_up n"
  by (simp add: round_up_def)

lemma round_up_ge: "n + 15 < 2 ^ 32 \<Longrightarrow> n \<le> round_up n"
  by (simp add: round_up_def align_down_def)

lemma round_up_less: "n + 15 < 2 ^ 32 \<Longrightarrow> round_up n < n + 16"
  by (simp add: round_up_def align_down_def)

text \<open>Header words of different chunks never collide, because chunk addresses are multiples
  of 16.\<close>

lemma aligned_neq:
  fixes x y :: nat
  assumes "16 dvd x" "16 dvd y"
  shows "x + 4 \<noteq> y" "x + 8 \<noteq> y" "x + 4 \<noteq> y + 8" "x + 8 \<noteq> y + 4" "y \<noteq> x + 4" "y \<noteq> x + 8"
  using assms by (auto elim!: dvdE) presburger+

section \<open>Layout\<close>

lemma layout_append:
  "layout p (xs @ ys) e \<longleftrightarrow> (\<exists>m. layout p xs m \<and> layout m ys e)"
  by (induction xs arbitrary: p) auto

lemma layout_le: "layout p cs e \<Longrightarrow> p \<le> e"
  by (induction cs arbitrary: p) force+

lemma layout_aligned: "layout p cs e \<Longrightarrow> 16 dvd p \<Longrightarrow> 16 dvd e"
proof (induction cs arbitrary: p)
  case (Cons c cs)
  obtain a s f where c: "c = (a, s, f)" by (cases c)
  with Cons.prems have "16 dvd p + 32 + s" "layout (p + 32 + s) cs e" by (auto intro!: dvd_add)
  then show ?case using Cons.IH by blast
qed simp

lemma layout_mem:
  assumes "layout p cs e" "(a, s, f) \<in> set cs"
  shows "p \<le> a" "a + 32 + s \<le> e" "16 dvd s"
proof -
  obtain xs ys where "cs = xs @ (a, s, f) # ys" using assms(2) by (auto simp: in_set_conv_decomp)
  then obtain m where "layout p xs m" "m = a" "16 dvd s" "layout (a + 32 + s) ys e"
    using assms(1) by (auto simp: layout_append)
  then show "p \<le> a" "a + 32 + s \<le> e" "16 dvd s" by (auto dest: layout_le)
qed

lemma layout_mem_aligned:
  assumes "layout p cs e" "16 dvd p" "(a, s, f) \<in> set cs"
  shows "16 dvd a"
proof -
  obtain xs ys where "cs = xs @ (a, s, f) # ys" using assms(3) by (auto simp: in_set_conv_decomp)
  then show ?thesis using assms layout_aligned by (fastforce simp: layout_append)
qed

lemma layout_split:
  assumes "layout p (xs @ (a, s, f) # ys) e"
  shows "layout p xs a" "layout (a + 32 + s) ys e" "16 dvd s"
  using assms by (auto simp: layout_append)

lemma layout_functional:
  assumes "layout p cs e" "(a, s, f) \<in> set cs" "(a, t, g) \<in> set cs"
  shows "t = s \<and> g = f"
proof -
  obtain xs ys where cs: "cs = xs @ (a, s, f) # ys" using assms(2) by (auto simp: in_set_conv_decomp)
  note l = layout_split [OF assms(1) [unfolded cs]]
  have "(a, t, g) \<notin> set xs" using layout_mem [OF l(1)] by fastforce
  moreover have "(a, t, g) \<notin> set ys" using layout_mem [OF l(2)] by fastforce
  ultimately show ?thesis using assms(3) cs by auto
qed

lemma layout_disjoint:
  assumes "layout p cs e" "(a, s, f) \<in> set cs" "(b, t, g) \<in> set cs" "a \<noteq> b"
  shows "a + 32 + s \<le> b \<or> b + 32 + t \<le> a"
proof -
  obtain xs ys where cs: "cs = xs @ (a, s, f) # ys" using assms(2) by (auto simp: in_set_conv_decomp)
  note l = layout_split [OF assms(1) [unfolded cs]]
  have "(b, t, g) \<in> set xs \<or> (b, t, g) \<in> set ys" using assms(3,4) cs by auto
  then show ?thesis using layout_mem [OF l(1)] layout_mem [OF l(2)] by blast
qed

end
