(* ===== verification/Malloc_Lists.thy ===== *)
theory Malloc_Lists
  imports Malloc_Inv
begin

text \<open>
  Free-list operations and size updates as steps on the invariant \<open>hinv\<close>: unlinking a chunk,
  linking it, changing its flag, joining it with its successor, cutting it in two. Each lemma
  also bounds the words that change.
\<close>

section \<open>Field accesses after an update\<close>

lemma field_upd [simp]:
  "s_next (set_next p v h) = (s_next h)(p := v)"
  "s_prev (set_prev p v h) = (s_prev h)(p := v)"
  "s_size (set_size p v h) = (s_size h)(p := v)"
  "s_next (set_bucket b p h) = s_next h" "s_prev (set_bucket b p h) = s_prev h"
  "s_size (set_bucket b p h) = s_size h" "hmem (set_bucket b p h) = hmem h"
  by (auto simp: s_next_def s_prev_def s_size_def set_next_def set_prev_def set_size_def
      set_bucket_def fun_eq_iff)

lemma frame_upd [simp]:
  "free_list (set_next p v h) = free_list h" "free_list (set_prev p v h) = free_list h"
  "free_list (set_size p v h) = free_list h" "free_list (set_bucket b q h) = (free_list h)[b := q]"
  "hp_start (set_next p v h) = hp_start h" "hp_start (set_prev p v h) = hp_start h"
  "hp_start (set_size p v h) = hp_start h" "hp_start (set_bucket b q h) = hp_start h"
  "hp_end (set_next p v h) = hp_end h" "hp_end (set_prev p v h) = hp_end h"
  "hp_end (set_size p v h) = hp_end h" "hp_end (set_bucket b q h) = hp_end h"
  by (simp_all add: set_next_def set_prev_def set_size_def set_bucket_def)

lemma aligned_upd [simp]:
  assumes "16 dvd p" "16 dvd x"
  shows "s_prev (set_next p v h) x = s_prev h x" "s_size (set_next p v h) x = s_size h x"
    "s_next (set_prev p v h) x = s_next h x" "s_size (set_prev p v h) x = s_size h x"
    "s_next (set_size p v h) x = s_next h x" "s_prev (set_size p v h) x = s_prev h x"
  unfolding s_next_def s_prev_def s_size_def set_next_def set_prev_def set_size_def
  by (simp_all add: aligned_neq [OF assms(2,1)] aligned_neq [OF assms])

lemma hmem_upd:
  "hmem (set_size p v h) = (hmem h)(p := v)"
  "hmem (set_next p v h) = (hmem h)(p + 4 := v)"
  "hmem (set_prev p v h) = (hmem h)(p + 8 := v)"
  by (simp_all add: set_size_def set_next_def set_prev_def)

lemma heap_eqI:
  fixes h h' :: heap
  assumes "hmem h = hmem h'" "free_list h = free_list h'" "hp_start h = hp_start h'" "hp_end h = hp_end h'"
  shows "h = h'"
  using assms by simp

section \<open>What the invariant gives\<close>

lemma hinvD:
  assumes "hinv h cs L"
  shows "16 dvd hp_start h" "0 < hp_start h" "layout (hp_start h) cs (hp_end h)"
    "c \<in> set cs \<Longrightarrow> chunk_ok (hmem h) c" "length (free_list h) = 4" "L \<subseteq> fst ` set cs"
    "b < 4 \<Longrightarrow> flist h b (linked cs L b)"
  using assms by (auto simp: hinv_def)

lemma hinv_chunk:
  assumes "hinv h cs L" "(a, s, f) \<in> set cs"
  shows "16 dvd a" "16 dvd s" "hp_start h \<le> a" "a + 32 + s \<le> hp_end h" "0 < a"
    "s_size h a = tag s f" "s_size h (a + 16 + s) = tag s f"
    "CHUNK_SIZE h a = s" "is_free h a = f" "CHUNK_SIZE h (a + 16 + s) = s" "is_free h (a + 16 + s) = f"
    "get_footer_from_header h a = a + 16 + s" "get_next_chunk h a = a + 32 + s"
proof -
  note d = hinvD [OF assms(1)]
  show al: "16 dvd a" using layout_mem_aligned d assms(2) by blast
  show s: "16 dvd s" "hp_start h \<le> a" "a + 32 + s \<le> hp_end h" using layout_mem d(3) assms(2) by auto
  then show "0 < a" using d(2) by simp
  show t: "s_size h a = tag s f" "s_size h (a + 16 + s) = tag s f"
    using d(4) [OF assms(2)] by (auto simp: s_size_def)
  show "CHUNK_SIZE h a = s" "is_free h a = f" "CHUNK_SIZE h (a + 16 + s) = s"
    "is_free h (a + 16 + s) = f"
    "get_footer_from_header h a = a + 16 + s" "get_next_chunk h a = a + 32 + s"
    using t s(1) by (auto simp: CHUNK_SIZE_def is_free_def CHUNK_FLAGS_def
        get_footer_from_header_def get_next_chunk_def)
qed

lemma linked_aligned:
  assumes "hinv h cs L" "x \<in> linked cs L b"
  shows "16 dvd x" "x \<noteq> 0"
proof -
  obtain s f where "(x, s, f) \<in> set cs" using assms(2) by (auto simp: linked_def)
  then show "16 dvd x" "x \<noteq> 0" using hinv_chunk(1,5) [OF assms(1)] by auto
qed

lemma linked_disjoint:
  assumes "hinv h cs L" "b \<noteq> c"
  shows "linked cs L b \<inter> linked cs L c = {}"
proof -
  have "get_bucket_idx s = get_bucket_idx t" if "(x, s, f) \<in> set cs" "(x, t, g) \<in> set cs" for x s t f g
    using layout_functional [OF hinvD(3) [OF assms(1)] that] by simp
  then show ?thesis using assms(2) by (fastforce simp: linked_def)
qed

text \<open>The words \<^verbatim>\<open>next\<close> and \<^verbatim>\<open>prev\<close> of the chunks in \<open>A\<close>.\<close>

definition link_words :: "addr set \<Rightarrow> addr set" where
  "link_words A = (\<lambda>a. a + 4) ` A \<union> (\<lambda>a. a + 8) ` A"

section \<open>Unlinking\<close>

lemma flist_cong:
  assumes "flist h b A" "\<And>x. x \<in> A \<Longrightarrow> s_next h' x = s_next h x \<and> s_prev h' x = s_prev h x"
    "free_list h' ! b = free_list h ! b"
  shows "flist h' b A"
proof -
  obtain xs l where x: "dseg (s_next h) (s_prev h) 0 (free_list h ! b) xs l 0" "distinct xs" "set xs = A"
    using assms(1) by (auto simp: flist_def)
  have "dseg (s_next h') (s_prev h') 0 (free_list h' ! b) xs l 0"
    using x(1) unfolding assms(3) by (subst dseg_cong [where nx' = "s_next h" and pv' = "s_prev h"]) (use assms(2) x(3) in auto)
  then show ?thesis using x by (auto simp: flist_def)
qed

lemma freelist_unlink_fields:
  assumes al: "16 dvd a" "s_prev h a = 0 \<or> 16 dvd s_prev h a" "s_next h a = 0 \<or> 16 dvd s_next h a"
    and ne: "s_prev h a \<noteq> a"
  defines "h' \<equiv> freelist_unlink a h"
  shows "16 dvd x \<Longrightarrow> s_next h' x
           = (if s_prev h a = 0 then s_next h else (s_next h)(s_prev h a := s_next h a)) x"
    and "16 dvd x \<Longrightarrow> s_prev h' x
           = (if s_next h a = 0 then s_prev h else (s_prev h)(s_next h a := s_prev h a)) x"
    and "16 dvd x \<Longrightarrow> s_size h' x = s_size h x"
    and "free_list h' = (if s_prev h a = 0
           then (free_list h)[get_bucket_idx (s_size h a) := s_next h a] else free_list h)"
    and "hp_start h' = hp_start h" "hp_end h' = hp_end h"
    and "y \<noteq> s_prev h a + 4 \<or> s_prev h a = 0 \<Longrightarrow> y \<noteq> s_next h a + 8 \<or> s_next h a = 0 \<Longrightarrow> hmem h' y = hmem h y"
  using al ne unfolding h'_def freelist_unlink_def
  by (cases "s_prev h a = 0"; cases "s_next h a = 0"; simp add: Let_def hmem_upd)+

lemma hinv_unlink:
  assumes inv: "hinv h cs L" and a: "a \<in> L"
  shows "hinv (freelist_unlink a h) cs (L - {a})"
    and "y \<notin> link_words (L - {a}) \<Longrightarrow> hmem (freelist_unlink a h) y = hmem h y"
    and "hp_start (freelist_unlink a h) = hp_start h" "hp_end (freelist_unlink a h) = hp_end h"
proof -
  obtain s f where c: "(a, s, f) \<in> set cs" using hinvD(6) [OF inv] a by auto
  define b where "b = get_bucket_idx s"
  have b: "b < 4" "a \<in> linked cs L b" using a c by (auto simp: b_def linked_def)
  obtain ws l where ws: "dseg (s_next h) (s_prev h) 0 (free_list h ! b) ws l 0" "distinct ws"
    "set ws = linked cs L b"
    using hinvD(7) [OF inv b(1)] by (auto simp: flist_def)
  then obtain xs ys where split: "ws = xs @ a # ys" using b(2) by (metis split_list)
  note nb = dseg_neighbours [OF ws(1) [unfolded split]]
  have ws_al: "x \<in> set ws \<Longrightarrow> 16 dvd x \<and> x \<noteq> 0" for x using linked_aligned [OF inv] ws(3) by blast
  have sub: "set ws \<subseteq> L" using ws(3) by (auto simp: linked_def)
  have al: "16 dvd a" "s_prev h a = 0 \<or> 16 dvd s_prev h a" "s_next h a = 0 \<or> 16 dvd s_next h a"
    "s_prev h a \<noteq> a"
    using nb ws_al [of "s_prev h a"] ws_al [of "s_next h a"] ws(2) hinv_chunk(1,5) [OF inv c] split
    by auto
  define h' where "h' = freelist_unlink a h"
  note F = freelist_unlink_fields [OF al, folded h'_def]
  note U = dseg_unlink [OF ws(1,2) [unfolded split]]
  have szb: "get_bucket_idx (s_size h a) = b"
    using hinv_chunk(2,6) [OF inv c] by (simp add: b_def)
  have nbL: "s_prev h a \<noteq> 0 \<Longrightarrow> s_prev h a \<in> L - {a}" "s_next h a \<noteq> 0 \<Longrightarrow> s_next h a \<in> L - {a}"
    using nb sub split ws(2) by auto
  show frame: "y \<notin> link_words (L - {a}) \<Longrightarrow> hmem (freelist_unlink a h) y = hmem h y"
    using F(7) nbL unfolding h'_def by (auto simp: link_words_def)
  show "hp_start (freelist_unlink a h) = hp_start h" "hp_end (freelist_unlink a h) = hp_end h"
    using F(5,6) by (auto simp: h'_def)
  have size: "c \<in> set cs \<Longrightarrow> chunk_ok (hmem h') c" for c
  proof -
    assume c: "c \<in> set cs"
    obtain x t g where x: "c = (x, t, g)" by (cases c)
    have "16 dvd x" "16 dvd x + 16 + t"
      using hinv_chunk(1,2) [OF inv] c x by (auto intro!: dvd_add)
    then have "s_size h' x = s_size h x" "s_size h' (x + 16 + t) = s_size h (x + 16 + t)"
      using F(3) by auto
    then show ?thesis using hinvD(4) [OF inv c] x by (simp add: s_size_def)
  qed
  have fl: "flist h' i (linked cs (L - {a}) i)" if i: "i < 4" for i
  proof (cases "i = b")
    case True
    have eq: "linked cs (L - {a}) b = set (xs @ ys)"
      using ws(2,3) split by (auto simp: linked_def)
    have hd: "free_list h' ! b = (if s_prev h a = 0 then s_next h a else free_list h ! b)"
      using F(4) szb b(1) hinvD(5) [OF inv] by simp
    have "dseg (s_next h') (s_prev h') 0 (free_list h' ! b) (xs @ ys) (if s_next h a = 0 then s_prev h a else l) 0"
      unfolding hd
      by (rule dseg_cong [THEN iffD1, OF _ U(1)]) (use F(1,2) ws_al split in auto)
    then show ?thesis using True eq ws(2) split by (fastforce simp: flist_def)
  next
    case False
    have eq: "linked cs (L - {a}) i = linked cs L i"
      using b(2) linked_disjoint [OF inv False] by (auto simp: linked_def)
    show ?thesis unfolding eq
    proof (rule flist_cong [OF hinvD(7) [OF inv i]])
      fix x assume x: "x \<in> linked cs L i"
      then have "x \<notin> set ws" using ws(3) linked_disjoint [OF inv False] by auto
      then have "s_prev h a \<noteq> x \<or> s_prev h a = 0" "s_next h a \<noteq> x \<or> s_next h a = 0" "16 dvd x" "x \<noteq> 0"
        using nb split linked_aligned [OF inv x] by auto
      then show "s_next h' x = s_next h x \<and> s_prev h' x = s_prev h x"
        using F(1,2) by auto
    qed (use F(4) szb False i in auto)
  qed
  show "hinv (freelist_unlink a h) cs (L - {a})"
    using inv size fl F(4,5,6) unfolding h'_def [symmetric] hinv_def by auto
qed

section \<open>Linking\<close>

lemma link_free_fields:
  assumes al: "16 dvd a" and p: "p = free_list h ! get_bucket_idx (s_size h a)" "p = 0 \<or> 16 dvd p" "p \<noteq> a"
    "a \<noteq> 0"
  defines "h' \<equiv> link_free a h"
  shows "16 dvd x \<Longrightarrow> s_next h' x = ((s_next h)(a := p)) x"
    and "16 dvd x \<Longrightarrow> s_prev h' x = ((if p = 0 then s_prev h else (s_prev h)(p := a))(a := 0)) x"
    and "16 dvd x \<Longrightarrow> s_size h' x = s_size h x"
    and "free_list h' = (free_list h)[get_bucket_idx (s_size h a) := a]"
    and "hp_start h' = hp_start h" "hp_end h' = hp_end h"
    and "y \<noteq> a + 4 \<Longrightarrow> y \<noteq> a + 8 \<Longrightarrow> y \<noteq> p + 8 \<or> p = 0 \<Longrightarrow> hmem h' y = hmem h y"
  using assms by (auto simp: link_free_def Let_def hmem_upd)

lemma hinv_link:
  assumes inv: "hinv h cs L" and c: "(a, s, f) \<in> set cs" and a: "a \<notin> L"
  shows "hinv (link_free a h) cs (insert a L)"
    and "y \<notin> link_words (insert a L) \<Longrightarrow> hmem (link_free a h) y = hmem h y"
    and "hp_start (link_free a h) = hp_start h" "hp_end (link_free a h) = hp_end h"
proof -
  define b where "b = get_bucket_idx s"
  have b: "b < 4" by (simp add: b_def)
  obtain ws l where ws: "dseg (s_next h) (s_prev h) 0 (free_list h ! b) ws l 0" "distinct ws"
    "set ws = linked cs L b"
    using hinvD(7) [OF inv b] by (auto simp: flist_def)
  define p where "p = free_list h ! b"
  have szb: "get_bucket_idx (s_size h a) = b" using hinv_chunk(2,6) [OF inv c] by (simp add: b_def)
  have pws: "p = 0 \<or> p \<in> set ws" using ws(1) by (cases ws) (auto simp: p_def)
  have anw: "a \<notin> set ws" using a ws(3) by (auto simp: linked_def)
  have p: "p = free_list h ! get_bucket_idx (s_size h a)" "p = 0 \<or> 16 dvd p" "p \<noteq> a" "a \<noteq> 0"
    using pws linked_aligned [OF inv] ws(3) anw hinv_chunk(5) [OF inv c] szb by (auto simp: p_def)
  have pL: "p \<noteq> 0 \<Longrightarrow> p \<in> L" using pws ws(3) by (auto simp: linked_def)
  define h' where "h' = link_free a h"
  note F = link_free_fields [OF hinv_chunk(1) [OF inv c] p, folded h'_def]
  show "y \<notin> link_words (insert a L) \<Longrightarrow> hmem (link_free a h) y = hmem h y"
    using F(7) pL unfolding h'_def by (auto simp: link_words_def)
  show "hp_start (link_free a h) = hp_start h" "hp_end (link_free a h) = hp_end h"
    using F(5,6) by (auto simp: h'_def)
  have size: "c \<in> set cs \<Longrightarrow> chunk_ok (hmem h') c" for c
  proof -
    assume c: "c \<in> set cs"
    obtain x t g where x: "c = (x, t, g)" by (cases c)
    have "16 dvd x" "16 dvd x + 16 + t"
      using hinv_chunk(1,2) [OF inv] c x by (auto intro!: dvd_add)
    then have "s_size h' x = s_size h x" "s_size h' (x + 16 + t) = s_size h (x + 16 + t)"
      using F(3) by auto
    then show ?thesis using hinvD(4) [OF inv c] x by (simp add: s_size_def)
  qed
  have fl: "flist h' i (linked cs (insert a L) i)" if i: "i < 4" for i
  proof (cases "i = b")
    case True
    have eq: "linked cs (insert a L) b = set (a # ws)"
      using ws(3) c by (auto simp: linked_def b_def)
    have hd: "free_list h' ! b = a" using F(4) szb b hinvD(5) [OF inv] by simp
    have al: "16 dvd x" if "x \<in> set (a # ws)" for x
      using that linked_aligned(1) [OF inv, of x b] ws(3) hinv_chunk(1) [OF inv c] by auto
    have "dseg (s_next h') (s_prev h') 0 (free_list h' ! b) (a # ws) (if p = 0 then a else l) 0"
      unfolding hd
      by (rule dseg_cong [THEN iffD1, OF _ dseg_push_front [OF ws(1) p(4) anw ws(2), folded p_def]])
        (intro conjI F(1,2) [symmetric] al)
    moreover have "distinct (a # ws)" using ws(2) anw by simp
    ultimately show ?thesis unfolding True eq flist_def by blast
  next
    case False
    have "i = get_bucket_idx t \<Longrightarrow> (a, t, g) \<notin> set cs" for t g
      using layout_functional [OF hinvD(3) [OF inv] c] False by (auto simp: b_def)
    then have eq: "linked cs (insert a L) i = linked cs L i"
      by (auto simp: linked_def)
    show ?thesis unfolding eq
    proof (rule flist_cong [OF hinvD(7) [OF inv i]])
      fix x assume x: "x \<in> linked cs L i"
      then have "x \<notin> set ws" using ws(3) linked_disjoint [OF inv False] by auto
      then have "p \<noteq> x" "16 dvd x" "x \<noteq> a"
        using pws linked_aligned [OF inv x] x a by (auto simp: linked_def)
      then show "s_next h' x = s_next h x \<and> s_prev h' x = s_prev h x"
        using F(1,2) by auto
    qed (use F(4) szb False i in auto)
  qed
  have "insert a L \<subseteq> fst ` set cs" using hinvD(6) [OF inv] c by force
  then show "hinv (link_free a h) cs (insert a L)"
    using inv size fl F(4,5,6) unfolding h'_def [symmetric] hinv_def by simp
qed

section \<open>Size updates\<close>

lemma chunk_ok_upd [simp]:
  "y < a \<or> a + 32 + s \<le> y \<Longrightarrow> chunk_ok (m(y := v)) (a, s, f) = chunk_ok m (a, s, f)"
  by auto

lemma chunks_ok_upd:
  assumes "layout p cs e" "y < p \<or> e \<le> y"
  shows "(\<forall>c \<in> set cs. chunk_ok (m(y := v)) c) = (\<forall>c \<in> set cs. chunk_ok m c)"
proof -
  have "chunk_ok (m(y := v)) c = chunk_ok m c" if "c \<in> set cs" for c
  proof -
    obtain a s f where c: "c = (a, s, f)" by (cases c)
    with that have "p \<le> a" "a + 32 + s \<le> e" using layout_mem [OF assms(1)] by auto
    then show ?thesis unfolding c by (intro chunk_ok_upd) (use assms(2) in auto)
  qed
  then show ?thesis by auto
qed

lemma hinv_resize:
  assumes inv: "hinv h cs L"
    and h': "hp_start h' = hp_start h" "hp_end h' = hp_end h" "free_list h' = free_list h"
    and al: "\<And>x. 16 dvd x \<Longrightarrow> s_next h' x = s_next h x \<and> s_prev h' x = s_prev h x"
    and lay: "layout (hp_start h) cs' (hp_end h)"
    and ok: "\<forall>c \<in> set cs'. chunk_ok (hmem h') c"
    and same: "\<And>x s. x \<in> L \<Longrightarrow> (\<exists>f. (x, s, f) \<in> set cs) = (\<exists>f. (x, s, f) \<in> set cs')"
  shows "hinv h' cs' L"
proof -
  have lk: "linked cs' L b = linked cs L b" for b
  proof -
    have "x \<in> L \<Longrightarrow> (\<exists>s f. (x, s, f) \<in> set cs' \<and> get_bucket_idx s = b)
        = (\<exists>s f. (x, s, f) \<in> set cs \<and> get_bucket_idx s = b)" for x
      using same [of x] by metis
    then show ?thesis unfolding linked_def by (intro Collect_cong conj_cong refl)
  qed
  have L: "L \<subseteq> fst ` set cs'"
  proof
    fix x assume x: "x \<in> L"
    then obtain s f where "(x, s, f) \<in> set cs" using hinvD(6) [OF inv] by auto
    then obtain g where "(x, s, g) \<in> set cs'" using same [OF x] by blast
    then show "x \<in> fst ` set cs'" by (auto simp: rev_image_eqI)
  qed
  have "flist h' b (linked cs L b)" if "b < 4" for b
    by (rule flist_cong [OF hinvD(7) [OF inv that]]) (use al linked_aligned [OF inv] h' in auto)
  then show ?thesis using inv h' lay ok lk L unfolding hinv_def by auto
qed

text \<open>Chunk addresses other than \<open>a\<close> lie outside the chunk at \<open>a\<close>.\<close>

lemma hinv_other:
  assumes inv: "hinv h (xs @ (a, s, f) # ys) L" and x: "x \<in> L" "x \<noteq> a"
  shows "x < a \<or> a + 32 + s \<le> x"
proof -
  note lay = layout_split [OF hinvD(3) [OF inv]]
  obtain t g where "(x, t, g) \<in> set xs \<or> (x, t, g) \<in> set ys"
    using hinvD(6) [OF inv] x by fastforce
  then show ?thesis
  proof
    assume "(x, t, g) \<in> set xs"
    then have "x + 32 + t \<le> a" by (rule layout_mem(2) [OF lay(1)])
    then show ?thesis by simp
  next
    assume "(x, t, g) \<in> set ys"
    then have "a + 32 + s \<le> x" by (rule layout_mem(1) [OF lay(2)])
    then show ?thesis by simp
  qed
qed

lemma hinv_retag:
  assumes inv: "hinv h (xs @ (a, s, f) # ys) L" and a: "a \<notin> L"
  shows "hinv (set_size (a + 16 + s) (tag s g) (set_size a (tag s g) h)) (xs @ (a, s, g) # ys) L"
proof (rule hinv_resize [OF inv])
  note lay = layout_split [OF hinvD(3) [OF inv]]
  have al: "16 dvd a" "16 dvd a + 16 + s"
    using hinv_chunk(1,2) [OF inv, of a s f] by (auto intro!: dvd_add)
  show "16 dvd x \<Longrightarrow> s_next (set_size (a + 16 + s) (tag s g) (set_size a (tag s g) h)) x = s_next h x
      \<and> s_prev (set_size (a + 16 + s) (tag s g) (set_size a (tag s g) h)) x = s_prev h x" for x
    using al by simp
  show "layout (hp_start h) (xs @ (a, s, g) # ys) (hp_end h)"
    using lay by (auto simp: layout_append)
  show "\<forall>c \<in> set (xs @ (a, s, g) # ys).
      chunk_ok (hmem (set_size (a + 16 + s) (tag s g) (set_size a (tag s g) h))) c"
    using hinvD(4) [OF inv]
    by (simp add: hmem_upd ball_Un chunks_ok_upd [OF lay(1)] chunks_ok_upd [OF lay(2)])
  show "x \<in> L \<Longrightarrow> (\<exists>f'. (x, t, f') \<in> set (xs @ (a, s, f) # ys))
      = (\<exists>f'. (x, t, f') \<in> set (xs @ (a, s, g) # ys))" for x t
    using a by auto
qed simp_all

lemma hinv_join:
  assumes inv: "hinv h (xs @ (a, s, f) # (b, t, g) # ys) L" and ab: "a \<notin> L" "b \<notin> L"
  defines "v \<equiv> tag (s + t + 32) f"
  shows "hinv (set_size (b + 16 + t) v (set_size a v h)) (xs @ (a, s + t + 32, f) # ys) L"
proof (rule hinv_resize [OF inv])
  note lay = layout_split [OF hinvD(3) [OF inv]]
  have b: "b = a + 32 + s" and lay2: "layout (b + 32 + t) ys (hp_end h)" using lay(2) by auto
  have al: "16 dvd a" "16 dvd b + 16 + t" "16 dvd s" "16 dvd t"
    using hinv_chunk(1,2) [OF inv, of a s f] hinv_chunk(1,2) [OF inv, of b t g]
    by (auto intro!: dvd_add)
  show "16 dvd x \<Longrightarrow> s_next (set_size (b + 16 + t) v (set_size a v h)) x = s_next h x
      \<and> s_prev (set_size (b + 16 + t) v (set_size a v h)) x = s_prev h x" for x
    using al by simp
  show "layout (hp_start h) (xs @ (a, s + t + 32, f) # ys) (hp_end h)"
    using lay(1) lay2 al b by (auto simp: layout_append add_ac intro!: dvd_add)
  show "\<forall>c \<in> set (xs @ (a, s + t + 32, f) # ys).
      chunk_ok (hmem (set_size (b + 16 + t) v (set_size a v h))) c"
    using hinvD(4) [OF inv]
    by (simp add: hmem_upd b v_def ball_Un chunks_ok_upd [OF lay(1)] chunks_ok_upd [OF lay2 [unfolded b]])
  show "x \<in> L \<Longrightarrow> (\<exists>f'. (x, u, f') \<in> set (xs @ (a, s, f) # (b, t, g) # ys))
      = (\<exists>f'. (x, u, f') \<in> set (xs @ (a, s + t + 32, f) # ys))" for x u
    using ab by auto
qed simp_all

lemma hinv_cut:
  assumes inv: "hinv h (xs @ (a, s, f) # ys) L" and a: "a \<notin> L"
    and s: "s = s1 + 32 + s2" "16 dvd s1" "16 dvd s2"
  defines "h' \<equiv> set_size (a + 32 + s1 + 16 + s2) s2 (set_size (a + 32 + s1) s2
                  (set_size (a + 16 + s1) s1 (set_size a s1 h)))"
  shows "hinv h' (xs @ (a, s1, False) # (a + 32 + s1, s2, False) # ys) L"
proof (rule hinv_resize [OF inv])
  note lay = layout_split [OF hinvD(3) [OF inv]]
  have al: "16 dvd a" "16 dvd a + 16 + s1" "16 dvd a + 32 + s1" "16 dvd a + 32 + s1 + 16 + s2"
    using hinv_chunk(1) [OF inv, of a s f] s by (auto intro!: dvd_add)
  show "16 dvd x \<Longrightarrow> s_next h' x = s_next h x \<and> s_prev h' x = s_prev h x" for x
    using al by (simp add: h'_def)
  show "layout (hp_start h) (xs @ (a, s1, False) # (a + 32 + s1, s2, False) # ys) (hp_end h)"
    using lay s by (auto simp: layout_append add_ac)
  show "\<forall>c \<in> set (xs @ (a, s1, False) # (a + 32 + s1, s2, False) # ys). chunk_ok (hmem h') c"
    using hinvD(4) [OF inv] s
    by (simp add: h'_def hmem_upd tag_def ball_Un chunks_ok_upd [OF lay(1)] chunks_ok_upd [OF lay(2)])
  show "x \<in> L \<Longrightarrow> (\<exists>f'. (x, u, f') \<in> set (xs @ (a, s, f) # ys))
      = (\<exists>f'. (x, u, f') \<in> set (xs @ (a, s1, False) # (a + 32 + s1, s2, False) # ys))" for x u
    using a hinv_other [OF inv, of x] s by (cases "x = a") auto
qed (simp_all add: h'_def)

end
