(* ===== verification/Malloc_Free.thy ===== *)
theory Malloc_Free
  imports Malloc_Lists
begin

text \<open>
  \<^verbatim>\<open>heap_free\<close> against its abstract counterpart: the chunk list is changed by marking the
  chunk free and joining it with the free chunks next to it. The set of words written is
  bounded by the chunk itself and the chunks that were free before.
\<close>

section \<open>Abstract operation\<close>

definition last_free :: "chunk list \<Rightarrow> bool" where
  "last_free xs \<longleftrightarrow> xs \<noteq> [] \<and> snd (snd (last xs))"

definition first_free :: "chunk list \<Rightarrow> bool" where
  "first_free ys \<longleftrightarrow> ys \<noteq> [] \<and> snd (snd (hd ys))"

definition join_prev :: "chunk list \<Rightarrow> addr \<Rightarrow> nat \<Rightarrow> chunk list \<times> addr \<times> nat" where
  "join_prev xs a s =
     (if last_free xs then (butlast xs, fst (last xs), fst (snd (last xs)) + s + 32) else (xs, a, s))"

definition join_next :: "nat \<Rightarrow> chunk list \<Rightarrow> nat \<times> chunk list" where
  "join_next s ys = (if first_free ys then (s + fst (snd (hd ys)) + 32, tl ys) else (s, ys))"

definition free_chunk :: "chunk list \<Rightarrow> addr \<Rightarrow> nat \<Rightarrow> chunk list \<Rightarrow> chunk list" where
  "free_chunk xs a s ys =
     (case join_prev xs a s of (xs', a', s') \<Rightarrow>
        case join_next s' ys of (t, ys') \<Rightarrow> xs' @ (a', t, True) # ys')"

text \<open>The bytes covered by free chunks.\<close>

definition frange :: "chunk list \<Rightarrow> addr set" where
  "frange cs = {y. \<exists>a s. (a, s, True) \<in> set cs \<and> a \<le> y \<and> y < a + 32 + s}"

lemma free_addrs_append [simp]: "free_addrs (xs @ ys) = free_addrs xs \<union> free_addrs ys"
  by (auto simp: free_addrs_def)

lemma free_addrs_Cons [simp]:
  "free_addrs ((a, s, f) # cs) = (if f then insert a (free_addrs cs) else free_addrs cs)"
  by (auto simp: free_addrs_def)

lemma free_addrs_Nil [simp]: "free_addrs [] = {}"
  by (simp add: free_addrs_def)

lemma frange_append [simp]: "frange (xs @ ys) = frange xs \<union> frange ys"
  by (auto simp: frange_def)

lemma frange_Cons [simp]:
  "frange ((a, s, f) # cs) = (if f then {a..<a + 32 + s} \<union> frange cs else frange cs)"
proof -
  have "x \<in> frange ((a, s, f) # cs) \<longleftrightarrow> x \<in> (if f then {a..<a + 32 + s} \<union> frange cs else frange cs)" for x
    unfolding frange_def by (cases f) (simp_all, blast)
  then show ?thesis by blast
qed

lemma frange_Nil [simp]: "frange [] = {}"
  by (simp add: frange_def)

lemma link_words_mono: "A \<subseteq> B \<Longrightarrow> link_words A \<subseteq> link_words B"
  by (auto simp: link_words_def)

lemma link_words_Un [simp]: "link_words (A \<union> B) = link_words A \<union> link_words B"
  by (auto simp: link_words_def)

lemma link_words_insert [simp]: "link_words (insert a B) = {a + 4, a + 8} \<union> link_words B"
  by (auto simp: link_words_def)

lemma link_words_frange: "link_words (free_addrs cs) \<subseteq> frange cs"
  by (force simp: link_words_def free_addrs_def frange_def)

lemma no_adj_append:
  "no_adj (xs @ ys) \<longleftrightarrow> no_adj xs \<and> no_adj ys \<and> \<not> (last_free xs \<and> first_free ys)"
proof (induction xs)
  case (Cons c xs)
  obtain a s f where c: "c = (a, s, f)" by (cases c)
  show ?case
  proof (cases xs)
    case Nil
    then show ?thesis by (cases ys) (auto simp: c last_free_def first_free_def)
  next
    case (Cons d zs)
    then show ?thesis using Cons.IH by (cases d) (auto simp: c last_free_def)
  qed
qed (simp add: last_free_def)

lemma no_adj_Cons:
  "no_adj ((a, s, f) # ys) \<longleftrightarrow> no_adj ys \<and> \<not> (f \<and> first_free ys)"
  by (cases ys) (auto simp: first_free_def)

lemma last_free_snoc [simp]: "last_free (xs @ [(a, s, f)]) = f"
  by (simp add: last_free_def)

lemma last_freeE:
  assumes "last_free xs"
  obtains ys a s where "xs = ys @ [(a, s, True)]"
  using assms by (cases xs rule: rev_cases) (auto simp: last_free_def)

lemma first_freeE:
  assumes "first_free ys"
  obtains a s zs where "ys = (a, s, True) # zs"
  using assms by (cases ys) (auto simp: first_free_def)

lemma layout_free_less:
  assumes "layout p xs e" "x \<in> free_addrs xs" shows "p \<le> x \<and> x + 32 \<le> e"
proof -
  obtain s where "(x, s, True) \<in> set xs" using assms(2) by (auto simp: free_addrs_def)
  then show ?thesis using layout_mem [OF assms(1)] by fastforce
qed

lemma layout_not_free: "layout p xs e \<Longrightarrow> x < p \<or> e < x + 32 \<Longrightarrow> x \<notin> free_addrs xs"
  using layout_free_less by fastforce

section \<open>The phases of heap_free\<close>

lemma reverse_merge_inv:
  assumes inv: "hinv h (xs @ (a, s, True) # ys) (free_addrs xs \<union> free_addrs ys)"
    and jp: "join_prev xs a s = (xs', a', s')"
  shows "\<exists>h'. reverse_merge a (a + 16 + s) h = (a', h')
      \<and> hinv h' (xs' @ (a', s', True) # ys) (free_addrs xs' \<union> free_addrs ys)
      \<and> hp_start h' = hp_start h \<and> hp_end h' = hp_end h
      \<and> (\<forall>y. y \<notin> frange (xs @ (a, s, True) # ys) \<longrightarrow> hmem h' y = hmem h y)"
proof (cases "last_free xs")
  case False
  have "\<not> (a > hp_start h \<and> is_free h (get_prev_footer a))"
  proof (cases xs rule: rev_cases)
    case Nil
    then show ?thesis using hinvD(3) [OF inv] by simp
  next
    case (snoc zs c)
    obtain b t g where c: "c = (b, t, g)" by (cases c)
    have "a = b + 32 + t" using hinvD(3) [OF inv] snoc c by (auto simp: layout_append)
    moreover have "is_free h (b + 16 + t) = g" using hinv_chunk(11) [OF inv, of b t g] snoc c by simp
    moreover have "get_prev_footer a = b + 16 + t" using calculation by (simp add: get_prev_footer_def)
    ultimately show ?thesis using False snoc c by simp
  qed
  then have "reverse_merge a (a + 16 + s) h = (a, h)" by (auto simp: reverse_merge_def)
  then show ?thesis using inv jp False by (auto simp: join_prev_def)
next
  case True
  then obtain zs b t where xs: "xs = zs @ [(b, t, True)]" by (rule last_freeE)
  have j: "xs' = zs" "a' = b" "s' = t + s + 32" using jp True xs by (auto simp: join_prev_def)
  let ?L = "free_addrs xs \<union> free_addrs ys"
  have inv1: "hinv h (zs @ (b, t, True) # (a, s, True) # ys) ?L" using inv xs by simp
  have ab: "a = b + 32 + t" using hinvD(3) [OF inv1] by (auto simp: layout_append)
  note cb = hinv_chunk [OF inv1, of b t True, simplified]
  note ca = hinv_chunk [OF inv1, of a s True, simplified]
  note lay = layout_split [OF hinvD(3) [OF inv1]]
  have lay2: "layout (a + 32 + s) ys (hp_end h)" using lay(2) ab by simp
  have bL: "?L - {b} = free_addrs zs \<union> free_addrs ys" "b \<in> ?L"
    using layout_not_free [OF lay(1), of b] layout_not_free [OF lay2, of b] ab xs by auto
  define h1 where "h1 = freelist_unlink b h"
  note U = hinv_unlink [OF inv1 bL(2), folded h1_def, unfolded bL(1)]
  have inv2: "hinv h1 (zs @ (b, t, True) # (a, s, True) # ys) (free_addrs zs \<union> free_addrs ys)"
    by (rule U(1))
  have nL: "b \<notin> free_addrs zs \<union> free_addrs ys" "a \<notin> free_addrs zs \<union> free_addrs ys"
    using layout_not_free [OF lay(1)] layout_not_free [OF lay2] ab by simp_all
  define h' where "h' = set_size (a + 16 + s) (tag (t + s + 32) True) (set_size b (tag (t + s + 32) True) h1)"
  have inv3: "hinv h' (zs @ (b, t + s + 32, True) # ys) (free_addrs zs \<union> free_addrs ys)"
    unfolding h'_def by (rule hinv_join [OF inv2 nL])
  have c1: "s_size h1 b = tag t True" "CHUNK_SIZE h1 a = s"
    using hinv_chunk(6) [OF inv2, of b t True] hinv_chunk(8) [OF inv2, of a s True] by auto
  have ft: "get_prev_footer a = b + 16 + t" by (simp add: get_prev_footer_def ab)
  have hd: "get_header_from_footer h (b + 16 + t) = b"
    using cb by (simp add: get_header_from_footer_def)
  have g: "hp_start h < a" "is_free h (get_prev_footer a)" "get_header_from_footer h (get_prev_footer a) = b"
    using ab cb(3,11) hd unfolding ft by simp_all
  have v: "32 + (tag t True + s) = tag (t + s + 32) True" by (simp add: tag_def)
  have "reverse_merge a (a + 16 + s) h = (b, h')"
    by (simp add: reverse_merge_def g Let_def c1 v h1_def [symmetric] h'_def)
  moreover have "hmem h' y = hmem h y" if "y \<notin> frange (xs @ (a, s, True) # ys)" for y
    using that U(2) [of y] link_words_frange [of zs] link_words_frange [of ys] xs ab
    by (auto simp: h'_def hmem_upd)
  ultimately show ?thesis using inv3 U(3,4) j by (auto simp: h'_def)
qed

lemma forward_merge_inv:
  assumes inv: "hinv h (xs @ (a, s, True) # ys) (free_addrs xs \<union> free_addrs ys)"
    and jn: "join_next s ys = (s', ys')"
  defines "h' \<equiv> forward_merge a h"
  shows "hinv h' (xs @ (a, s', True) # ys') (free_addrs xs \<union> free_addrs ys')"
    and "hp_start h' = hp_start h" "hp_end h' = hp_end h"
    and "y \<notin> frange (xs @ (a, s, True) # ys) \<Longrightarrow> hmem h' y = hmem h y"
proof -
  note lay = layout_split [OF hinvD(3) [OF inv]]
  note ca = hinv_chunk [OF inv, of a s True, simplified]
  have "hinv h' (xs @ (a, s', True) # ys') (free_addrs xs \<union> free_addrs ys')
    \<and> hp_start h' = hp_start h \<and> hp_end h' = hp_end h
    \<and> (\<forall>y. y \<notin> frange (xs @ (a, s, True) # ys) \<longrightarrow> hmem h' y = hmem h y)"
  proof (cases "first_free ys")
    case False
    have "\<not> (a + 32 + s < hp_end h \<and> is_free h (a + 32 + s))"
    proof (cases ys)
      case Nil
      then show ?thesis using lay(2) by simp
    next
      case (Cons c zs)
      obtain b t g where c: "c = (b, t, g)" by (cases c)
      have "b = a + 32 + s" using lay(2) Cons c by simp
      then show ?thesis using False hinv_chunk(9) [OF inv, of b t g] Cons c by (auto simp: first_free_def)
    qed
    then have "forward_merge a h = h" using ca(13) by (auto simp: forward_merge_def Let_def)
    then show ?thesis using inv jn False by (auto simp: join_next_def h'_def)
  next
    case True
    then obtain b t zs where ys: "ys = (b, t, True) # zs" by (rule first_freeE)
    have j: "s' = s + t + 32" "ys' = zs" using jn True ys by (auto simp: join_next_def)
    let ?L = "free_addrs xs \<union> free_addrs ys"
    have inv1: "hinv h (xs @ (a, s, True) # (b, t, True) # zs) ?L" using inv ys by simp
    have ab: "b = a + 32 + s" "layout (b + 32 + t) zs (hp_end h)" using lay(2) ys by auto
    note cb = hinv_chunk [OF inv1, of b t True, simplified]
    have bL: "?L - {b} = free_addrs xs \<union> free_addrs zs" "b \<in> ?L"
      using layout_not_free [OF lay(1), of b] layout_not_free [OF ab(2), of b] ab ys by auto
    define h1 where "h1 = freelist_unlink b h"
    note U = hinv_unlink [OF inv1 bL(2), folded h1_def, unfolded bL(1)]
    have nL: "a \<notin> free_addrs xs \<union> free_addrs zs" "b \<notin> free_addrs xs \<union> free_addrs zs"
      using layout_not_free [OF lay(1)] layout_not_free [OF ab(2)] ab by simp_all
    define v where "v = tag (s + t + 32) True"
    have inv3: "hinv (set_size (b + 16 + t) v (set_size a v h1)) (xs @ (a, s + t + 32, True) # zs)
        (free_addrs xs \<union> free_addrs zs)"
      unfolding v_def by (rule hinv_join [OF U(1) nL])
    have c1: "s_size h1 a = tag s True" "CHUNK_SIZE h1 b = t"
      using hinv_chunk(6) [OF U(1), of a s True] hinv_chunk(8) [OF U(1), of b t True] by auto
    have g: "get_next_chunk h a = b" "b < hp_end h" "is_free h b" "get_footer_from_header h b = b + 16 + t"
      using ca(13) cb(4,9,12) ab by simp_all
    have v: "32 + (tag s True + t) = v" by (simp add: tag_def v_def)
    have h': "h' = set_size (b + 16 + t) v (set_size a v h1)"
      by (simp add: h'_def forward_merge_def Let_def g c1 v h1_def [symmetric])
    have "hmem h' y = hmem h y" if "y \<notin> frange (xs @ (a, s, True) # ys)" for y
      using that U(2) [of y] link_words_frange [of xs] link_words_frange [of zs] ys ab
      by (auto simp: h' hmem_upd)
    then show ?thesis using inv3 U(3,4) j h' by simp
  qed
  then show "hinv h' (xs @ (a, s', True) # ys') (free_addrs xs \<union> free_addrs ys')"
    and "hp_start h' = hp_start h" "hp_end h' = hp_end h"
    and "y \<notin> frange (xs @ (a, s, True) # ys) \<Longrightarrow> hmem h' y = hmem h y" by blast+
qed

section \<open>heap_free\<close>

lemma join_prev_frange:
  assumes "layout p (xs @ (a, s, True) # ys) e" "join_prev xs a s = (xs', a', s')"
  shows "frange (xs' @ (a', s', True) # ys) = frange (xs @ (a, s, True) # ys)"
proof (cases "last_free xs")
  case True
  then obtain zs b t where xs: "xs = zs @ [(b, t, True)]" by (rule last_freeE)
  have "a = b + 32 + t" using assms(1) xs by (auto simp: layout_append)
  moreover have "xs' = zs" "a' = b" "s' = t + s + 32"
    using assms(2) True xs by (auto simp: join_prev_def)
  ultimately show ?thesis using xs by auto
qed (use assms(2) in \<open>auto simp: join_prev_def\<close>)

lemma join_next_frange:
  assumes "layout p (xs @ (a, s, True) # ys) e" "join_next s ys = (s', ys')"
  shows "frange (xs @ (a, s', True) # ys') = frange (xs @ (a, s, True) # ys)"
proof (cases "first_free ys")
  case True
  then obtain b t zs where ys: "ys = (b, t, True) # zs" by (rule first_freeE)
  have "b = a + 32 + s" using assms(1) ys by (auto simp: layout_append)
  moreover have "s' = s + t + 32" "ys' = zs"
    using assms(2) True ys by (auto simp: join_next_def)
  ultimately show ?thesis using ys by auto
qed (use assms(2) in \<open>auto simp: join_next_def\<close>)

lemma no_adj_free_chunk:
  assumes "no_adj (xs @ (a, s, False) # ys)"
  shows "no_adj (free_chunk xs a s ys)"
proof -
  have xy: "no_adj xs" "no_adj ys" using assms by (auto simp: no_adj_append no_adj_Cons)
  obtain xs' a' s' where jp: "join_prev xs a s = (xs', a', s')" by (metis prod_cases3)
  obtain t ys' where jn: "join_next s' ys = (t, ys')" by fastforce
  have "no_adj xs'" "\<not> last_free xs'"
    using jp xy(1) by (auto simp: join_prev_def no_adj_append first_free_def split: if_splits elim!: last_freeE)
  moreover have "no_adj ys' \<and> \<not> first_free ys'"
  proof (cases "first_free ys")
    case True
    then obtain b u zs where "ys = (b, u, True) # zs" by (rule first_freeE)
    then show ?thesis using jn xy(2) True by (auto simp: join_next_def no_adj_Cons)
  qed (use jn xy(2) in \<open>simp add: join_next_def\<close>)
  ultimately show ?thesis
    by (simp add: free_chunk_def jp jn no_adj_append no_adj_Cons first_free_def)
qed

lemma heap_free_hinv:
  assumes inv: "hinv h (xs @ (a, s, False) # ys) (free_addrs (xs @ (a, s, False) # ys))"
  defines "h' \<equiv> heap_free (a + 16) h"
  shows "hinv h' (free_chunk xs a s ys) (free_addrs (free_chunk xs a s ys))"
    and "hp_start h' = hp_start h" "hp_end h' = hp_end h"
    and "y \<notin> frange (xs @ (a, s, True) # ys) \<Longrightarrow> hmem h' y = hmem h y"
    and "frange (free_chunk xs a s ys) = frange (xs @ (a, s, True) # ys)"
proof -
  let ?L = "free_addrs xs \<union> free_addrs ys"
  note lay = layout_split [OF hinvD(3) [OF inv]]
  have inv0: "hinv h (xs @ (a, s, False) # ys) ?L" using inv by simp
  have nL: "a \<notin> ?L" using layout_not_free [OF lay(1)] layout_not_free [OF lay(2)] by simp
  note ca = hinv_chunk [OF inv0, of a s False, simplified]
  define h2 where "h2 = set_size (a + 16 + s) (tag s True) (set_size a (tag s True) h)"
  have inv2: "hinv h2 (xs @ (a, s, True) # ys) ?L"
    unfolding h2_def by (rule hinv_retag [OF inv0 nL])
  obtain xs' a' s' where jp: "join_prev xs a s = (xs', a', s')" by (metis prod_cases3)
  obtain t ys' where jn: "join_next s' ys = (t, ys')" by fastforce
  obtain h3 where rm: "reverse_merge a (a + 16 + s) h2 = (a', h3)"
    and inv3: "hinv h3 (xs' @ (a', s', True) # ys) (free_addrs xs' \<union> free_addrs ys)"
    and r3: "hp_start h3 = hp_start h" "hp_end h3 = hp_end h"
    and f3: "\<And>y. y \<notin> frange (xs @ (a, s, True) # ys) \<Longrightarrow> hmem h3 y = hmem h2 y"
    using reverse_merge_inv [OF inv2 jp] by (auto simp: h2_def)
  define h4 where "h4 = forward_merge a' h3"
  note fm = forward_merge_inv [OF inv3 jn, folded h4_def]
  note lay4 = layout_split [OF hinvD(3) [OF fm(1)]]
  have nL4: "a' \<notin> free_addrs xs' \<union> free_addrs ys'"
    using layout_not_free [OF lay4(1)] layout_not_free [OF lay4(2)] by simp
  note lk = hinv_link [OF fm(1) _ nL4, of t True, simplified]
  have h': "h' = link_free a' h4"
    using ca by (simp add: h'_def heap_free_def Let_def get_header_from_ptr_def h2_def [symmetric] rm h4_def)
  have spec: "free_chunk xs a s ys = xs' @ (a', t, True) # ys'"
    by (simp add: free_chunk_def jp jn)
  show "hinv h' (free_chunk xs a s ys) (free_addrs (free_chunk xs a s ys))"
    using lk(1) by (simp add: h' spec insert_commute)
  show "hp_start h' = hp_start h" "hp_end h' = hp_end h" using lk(3,4) fm(2,3) r3 by (simp_all add: h')
  have fr3: "frange (xs' @ (a', s', True) # ys) = frange (xs @ (a, s, True) # ys)"
    by (rule join_prev_frange [OF hinvD(3) [OF inv2] jp])
  have fr4: "frange (xs' @ (a', t, True) # ys') = frange (xs' @ (a', s', True) # ys)"
    by (rule join_next_frange [OF hinvD(3) [OF inv3] jn])
  show "frange (free_chunk xs a s ys) = frange (xs @ (a, s, True) # ys)"
    unfolding spec using fr3 fr4 by simp
  show "hmem h' y = hmem h y" if y: "y \<notin> frange (xs @ (a, s, True) # ys)"
  proof -
    have y4: "y \<notin> frange (xs' @ (a', t, True) # ys')" "y \<notin> frange (xs' @ (a', s', True) # ys)"
      using y fr3 fr4 by blast+
    then have "y \<notin> link_words (insert a' (free_addrs xs' \<union> free_addrs ys'))"
      using link_words_frange [of xs'] link_words_frange [of ys'] by auto
    then have "hmem h' y = hmem h4 y" unfolding h' using lk(2) by simp
    also have "hmem h4 y = hmem h3 y" using fm(4) y4(2) by simp
    also have "hmem h3 y = hmem h2 y" using f3 [OF y] .
    also have "hmem h2 y = hmem h y" using y by (auto simp: h2_def hmem_upd)
    finally show ?thesis .
  qed
qed

end
