(* ===== verification/Malloc_Correct.thy ===== *)
theory Malloc_Correct
  imports Malloc_Free
begin

text \<open>
  \<^verbatim>\<open>chunk_split\<close>, \<^verbatim>\<open>heap_malloc\<close>, \<^verbatim>\<open>heap_realloc\<close> and \<^verbatim>\<open>heap_init\<close> against the chunk list: each
  operation keeps the heap invariant, and what it does to the chunk list is given by a function
  on lists. The search for a chunk ends, finds a chunk that is large enough, and fails only when
  no free chunk is.
\<close>

section \<open>Splitting a chunk\<close>

definition split_chunk :: "chunk list \<Rightarrow> addr \<Rightarrow> nat \<Rightarrow> nat \<Rightarrow> chunk list \<Rightarrow> chunk list" where
  "split_chunk xs a s sz ys =
     (if s - sz < 48 then xs @ (a, s, False) # ys
      else free_chunk (xs @ [(a, sz, False)]) (a + 32 + sz) (s - sz - 32) ys)"

lemma no_adj_split_chunk:
  assumes "no_adj xs" "no_adj ys"
  shows "no_adj (split_chunk xs a s sz ys)"
  using assms
  by (auto simp: split_chunk_def no_adj_append no_adj_Cons first_free_def last_free_def
      intro!: no_adj_free_chunk)

lemma tag_False [simp]: "tag s False = s"
  by (simp add: tag_def)

lemma chunk_split_hinv:
  assumes inv: "hinv h (xs @ (a, s, f) # ys) (free_addrs xs \<union> free_addrs ys)"
    and sz: "sz \<le> s" "16 dvd sz"
  defines "h' \<equiv> chunk_split a sz h" and "cs' \<equiv> split_chunk xs a s sz ys"
  shows "hinv h' cs' (free_addrs cs')"
    and "hp_start h' = hp_start h" "hp_end h' = hp_end h"
    and "y \<notin> frange (xs @ ys) \<Longrightarrow> y \<noteq> a \<Longrightarrow> y < a + 16 + sz \<or> a + 32 + s \<le> y
           \<Longrightarrow> hmem h' y = hmem h y"
    and "frange cs' \<subseteq> frange (xs @ ys) \<union> {a + 32 + sz ..< a + 32 + s}"
proof -
  let ?L = "free_addrs xs \<union> free_addrs ys"
  note lay = layout_split [OF hinvD(3) [OF inv]]
  have nL: "a \<notin> ?L" using layout_not_free [OF lay(1)] layout_not_free [OF lay(2)] by simp
  note ca = hinv_chunk [OF inv, of a s f, simplified]
  consider (small) "s - sz < 48" | (large) "48 \<le> s - sz" by linarith
  then have "hinv h' cs' (free_addrs cs') \<and> hp_start h' = hp_start h \<and> hp_end h' = hp_end h
    \<and> (\<forall>y. y \<notin> frange (xs @ ys) \<longrightarrow> y \<noteq> a \<longrightarrow> y < a + 16 + sz \<or> a + 32 + s \<le> y \<longrightarrow> hmem h' y = hmem h y)
    \<and> frange cs' \<subseteq> frange (xs @ ys) \<union> {a + 32 + sz ..< a + 32 + s}"
  proof cases
    case small
    have h': "h' = set_size (a + 16 + s) (tag s False) (set_size a (tag s False) h)"
      using small ca by (simp add: h'_def chunk_split_def Let_def)
    have "hinv h' (xs @ (a, s, False) # ys) ?L" unfolding h' by (rule hinv_retag [OF inv nL])
    then show ?thesis
      using small sz(1) by (auto simp: cs'_def split_chunk_def h' hmem_upd)
  next
    case large
    define r b where "r = s - sz - 32" and "b = a + 32 + sz"
    have s: "s = sz + 32 + r" using large by (simp add: r_def)
    have r: "16 dvd r" using ca(2) sz(2) s by presburger
    define h4 where "h4 = set_size (b + 16 + r) r (set_size b r (set_size (a + 16 + sz) sz (set_size a sz h)))"
    have inv4: "hinv h4 ((xs @ [(a, sz, False)]) @ (b, r, False) # ys)
        (free_addrs ((xs @ [(a, sz, False)]) @ (b, r, False) # ys))"
      using hinv_cut [OF inv nL s sz(2) r] by (simp add: h4_def b_def)
    have h': "h' = heap_free (b + 16) h4"
      using large ca sz s r align_down_tag [of sz False] align_down_tag [of r False]
      by (simp add: h'_def chunk_split_def Let_def get_footer_from_header_def get_next_chunk_def
          CHUNK_SIZE_def h4_def b_def add_ac)
    note hf = heap_free_hinv [OF inv4, folded h']
    have cs': "cs' = free_chunk (xs @ [(a, sz, False)]) b r ys"
      using large by (simp add: cs'_def split_chunk_def b_def r_def)
    have m4: "hmem h4 y = hmem h y" if "y \<noteq> a" "y < a + 16 + sz \<or> a + 32 + s \<le> y" for y
      using that s by (auto simp: h4_def hmem_upd b_def)
    show ?thesis
      using hf s m4 by (auto simp: cs' h4_def b_def)
  qed
  then show "hinv h' cs' (free_addrs cs')" "hp_start h' = hp_start h" "hp_end h' = hp_end h"
    "y \<notin> frange (xs @ ys) \<Longrightarrow> y \<noteq> a \<Longrightarrow> y < a + 16 + sz \<or> a + 32 + s \<le> y \<Longrightarrow> hmem h' y = hmem h y"
    "frange cs' \<subseteq> frange (xs @ ys) \<union> {a + 32 + sz ..< a + 32 + s}"
    by blast+
qed

section \<open>The search\<close>

lemma first_fit_dseg:
  assumes "dseg (s_next h) (s_prev h) q p xs l 0"
  shows "first_fit h p sz = Some (case List.find (\<lambda>x. sz \<le> CHUNK_SIZE h x) xs of None \<Rightarrow> 0 | Some x \<Rightarrow> x)"
  using assms
proof (induction xs arbitrary: q p)
  case Nil
  then show ?case by (simp add: first_fit.simps)
next
  case (Cons x xs)
  then show ?case by (subst first_fit.simps) auto
qed

lemma first_fit_spec:
  assumes inv: "hinv h cs (free_addrs cs)" and b: "b < 4"
  obtains r where "first_fit h (free_list h ! b) sz = Some r"
    "r \<noteq> 0 \<Longrightarrow> \<exists>s. (r, s, True) \<in> set cs \<and> sz \<le> s"
    "r = 0 \<Longrightarrow> \<forall>a s. (a, s, True) \<in> set cs \<longrightarrow> get_bucket_idx s = b \<longrightarrow> s < sz"
proof -
  obtain xs l where xs: "dseg (s_next h) (s_prev h) 0 (free_list h ! b) xs l 0"
    "set xs = linked cs (free_addrs cs) b"
    using hinvD(7) [OF inv b] by (auto simp: flist_def)
  let ?P = "\<lambda>x. sz \<le> CHUNK_SIZE h x"
  note ff = first_fit_dseg [OF xs(1), of sz]
  have sz: "CHUNK_SIZE h a = s" if "(a, s, True) \<in> set cs" for a s
    using hinv_chunk(8) [OF inv that] .
  show thesis
  proof (cases "List.find ?P xs")
    case None
    have "s < sz" if c: "(a, s, True) \<in> set cs" and "get_bucket_idx s = b" for a s
    proof -
      have "a \<in> set xs" using that xs(2) by (auto simp: linked_def free_addrs_def)
      then have "\<not> ?P a" using None by (simp add: find_None_iff)
      then show ?thesis using sz [OF c] by simp
    qed
    with None ff show thesis by (intro that [of 0]) auto
  next
    case (Some r)
    then have r: "r \<in> set xs" "?P r" by (auto simp: find_Some_iff)
    then obtain s where "(r, s, True) \<in> set cs" using xs(2) by (auto simp: linked_def free_addrs_def)
    moreover have "r \<noteq> 0" using dseg_nonzero [OF xs(1)] r(1) by metis
    ultimately show thesis using Some ff r(2) sz by (intro that [of r]) auto
  qed
qed

lemma bucket_search_spec:
  assumes inv: "hinv h cs (free_addrs cs)" and "set bs \<subseteq> {..<4}"
  shows "\<exists>r. bucket_search h sz bs = Some r \<and> (r \<noteq> 0 \<longrightarrow> (\<exists>s. (r, s, True) \<in> set cs \<and> sz \<le> s))
    \<and> (r = 0 \<longrightarrow> (\<forall>a s. (a, s, True) \<in> set cs \<longrightarrow> get_bucket_idx s \<in> set bs \<longrightarrow> s < sz))"
  using assms(2)
proof (induction bs)
  case (Cons b bs)
  then have "b < 4" by simp
  then obtain r where r: "first_fit h (free_list h ! b) sz = Some r"
    "r \<noteq> 0 \<Longrightarrow> \<exists>s. (r, s, True) \<in> set cs \<and> sz \<le> s"
    "r = 0 \<Longrightarrow> \<forall>a s. (a, s, True) \<in> set cs \<longrightarrow> get_bucket_idx s = b \<longrightarrow> s < sz"
    by (rule first_fit_spec [OF inv, where sz = sz]) blast
  show ?case
  proof (cases "r = 0")
    case True
    obtain r' where "bucket_search h sz bs = Some r'" "r' \<noteq> 0 \<longrightarrow> (\<exists>s. (r', s, True) \<in> set cs \<and> sz \<le> s)"
      "r' = 0 \<longrightarrow> (\<forall>a s. (a, s, True) \<in> set cs \<longrightarrow> get_bucket_idx s \<in> set bs \<longrightarrow> s < sz)"
      using Cons by auto
    with True r(1,3) show ?thesis by auto
  qed (use r in auto)
qed simp

text \<open>The buckets searched are enough: a chunk of the wanted size is never in a lower one.\<close>

lemma malloc_search:
  assumes inv: "hinv h cs (free_addrs cs)"
  obtains (none) "bucket_search h sz [get_bucket_idx sz..<4] = Some 0"
      "\<And>a s. (a, s, True) \<in> set cs \<Longrightarrow> s < sz"
  | (found) a s where "bucket_search h sz [get_bucket_idx sz..<4] = Some a" "a \<noteq> 0"
      "(a, s, True) \<in> set cs" "sz \<le> s"
proof -
  obtain r where r: "bucket_search h sz [get_bucket_idx sz..<4] = Some r"
    "r \<noteq> 0 \<longrightarrow> (\<exists>s. (r, s, True) \<in> set cs \<and> sz \<le> s)"
    "r = 0 \<longrightarrow> (\<forall>a s. (a, s, True) \<in> set cs \<longrightarrow> get_bucket_idx s \<in> set [get_bucket_idx sz..<4] \<longrightarrow> s < sz)"
    using bucket_search_spec [OF inv, of "[get_bucket_idx sz..<4]" sz]
    by (metis atLeastLessThan_iff lessThan_iff set_upt subsetI)
  show thesis
  proof (cases "r = 0")
    case True
    have "s < sz" if "(a, s, True) \<in> set cs" for a s
      using r(3) True that get_bucket_idx_mono [of sz s] by (cases "sz \<le> s") auto
    then show thesis using r(1) True none by blast
  qed (use r found in blast)
qed

section \<open>Chunks in use\<close>

definition used :: "chunk list \<Rightarrow> (addr \<times> nat) set" where
  "used cs = {(a, s). (a, s, False) \<in> set cs}"

text \<open>The payload words of the chunks in \<open>U\<close> are the same in two memories.\<close>

definition same_data :: "(addr \<times> nat) set \<Rightarrow> heap \<Rightarrow> heap \<Rightarrow> bool" where
  "same_data U h h' \<longleftrightarrow> (\<forall>(a, s) \<in> U. \<forall>y. a + 16 \<le> y \<and> y < a + 16 + s \<longrightarrow> hmem h' y = hmem h y)"

lemma used_simps [simp]:
  "used [] = {}" "used (xs @ ys) = used xs \<union> used ys"
  "used ((a, s, f) # cs) = (if f then used cs else insert (a, s) (used cs))"
  by (auto simp: used_def)

lemma used_free_chunk: "used (free_chunk xs a s ys) = used xs \<union> used ys"
  by (cases "last_free xs"; cases "first_free ys")
    (auto simp: free_chunk_def join_prev_def join_next_def elim!: last_freeE first_freeE)

lemma used_split_chunk:
  "used (split_chunk xs a s sz ys) = insert (a, if s - sz < 48 then s else sz) (used xs \<union> used ys)"
  by (auto simp: split_chunk_def used_free_chunk)

lemma used_outside:
  assumes lay: "layout p cs e" and c: "(b, t) \<in> used cs" and y: "b + 16 \<le> y" "y < b + 16 + t"
  shows "y \<notin> frange cs" and "(a, s, f) \<in> set cs \<Longrightarrow> a \<noteq> b \<Longrightarrow> y < a \<or> a + 32 + s \<le> y"
proof -
  have c': "(b, t, False) \<in> set cs" using c by (simp add: used_def)
  show *: "y < a \<or> a + 32 + s \<le> y" if "(a, s, f) \<in> set cs" "a \<noteq> b" for a s f
    using layout_disjoint [OF lay that(1) c' that(2)] y by auto
  show "y \<notin> frange cs"
  proof
    assume "y \<in> frange cs"
    then obtain a s where a: "(a, s, True) \<in> set cs" "a \<le> y" "y < a + 32 + s" by (auto simp: frange_def)
    have "a \<noteq> b" using layout_functional [OF lay a(1)] c' by auto
    then show False using * [OF a(1)] a(2,3) by auto
  qed
qed

lemma used_split_layout:
  assumes "layout p (xs @ (a, s, f) # ys) e" "(b, t) \<in> used xs \<union> used ys"
  shows "b \<noteq> a"
  using layout_mem(1,2) [OF layout_split(1) [OF assms(1)], of b t False]
    layout_mem(1) [OF layout_split(2) [OF assms(1)], of b t False] assms(2)
  by (auto simp: used_def)

section \<open>Allocation\<close>

lemma heap_invD:
  assumes "heap_inv h cs"
  shows "hinv h cs (free_addrs cs)" "no_adj cs" "hp_end h < 2 ^ 32"
    "layout (hp_start h) cs (hp_end h)"
  using assms hinvD(3) by (auto simp: heap_inv_def)

lemma heap_malloc_found:
  assumes inv: "heap_inv h (xs @ (a, s, True) # ys)" and sz: "sz \<le> s" "16 dvd sz"
  defines "h' \<equiv> chunk_split a sz (freelist_unlink a h)" and "cs' \<equiv> split_chunk xs a s sz ys"
  shows "heap_inv h' cs'" "same_data (used (xs @ ys)) h h'"
    "hp_start h' = hp_start h" "hp_end h' = hp_end h"
proof -
  let ?cs = "xs @ (a, s, True) # ys" and ?L = "free_addrs xs \<union> free_addrs ys"
  note d = heap_invD [OF inv]
  note lay = layout_split [OF d(4)]
  have nL: "a \<notin> ?L" using layout_not_free [OF lay(1)] layout_not_free [OF lay(2)] by simp
  then have L: "free_addrs ?cs - {a} = ?L" by auto
  note ul = hinv_unlink [OF d(1), of a, unfolded L, simplified]
  note cp = chunk_split_hinv [OF ul(1) sz, folded h'_def cs'_def]
  show ends: "hp_start h' = hp_start h" "hp_end h' = hp_end h" using cp(2,3) ul(3,4) by simp_all
  have "no_adj cs'" unfolding cs'_def
    using d(2) by (intro no_adj_split_chunk) (auto simp: no_adj_append no_adj_Cons)
  then show "heap_inv h' cs'" using cp(1) d(3) ends by (simp add: heap_inv_def)
  show "same_data (used (xs @ ys)) h h'"
    unfolding same_data_def
  proof (intro ballI allI impI, clarify)
    fix b t y assume bt: "(b, t) \<in> used (xs @ ys)" and y: "b + 16 \<le> y" "y < b + 16 + t"
    have u: "(b, t) \<in> used ?cs" "b \<noteq> a" using bt used_split_layout [OF d(4)] by auto
    note out = used_outside [OF d(4) u(1) y]
    have o2: "y < a \<or> a + 32 + s \<le> y" using out(2) [of a s True] u(2) by simp
    have fr: "y \<notin> frange (xs @ ys)" using out(1) by auto
    have "hmem h' y = hmem (freelist_unlink a h) y" using cp(4) [OF fr] o2 sz by auto
    also have "\<dots> = hmem h y" using ul(2) fr link_words_frange [of xs] link_words_frange [of ys] by auto
    finally show "hmem h' y = hmem h y" .
  qed
qed

lemma heap_malloc_cases:
  assumes inv: "heap_inv h cs"
  obtains (none) "heap_malloc req h = Some (0, h)" "\<And>a s. (a, s, True) \<in> set cs \<Longrightarrow> s < round_up req"
  | (found) xs a s ys h' where "heap_malloc req h = Some (a + 16, h')" "cs = xs @ (a, s, True) # ys"
      "round_up req \<le> s" "heap_inv h' (split_chunk xs a s (round_up req) ys)"
      "same_data (used (xs @ ys)) h h'" "hp_start h' = hp_start h" "hp_end h' = hp_end h"
proof (rule malloc_search [OF heap_invD(1) [OF inv], of "round_up req"])
  assume "bucket_search h (round_up req) [get_bucket_idx (round_up req)..<4] = Some 0"
    "\<And>a s. (a, s, True) \<in> set cs \<Longrightarrow> s < round_up req"
  then show thesis by (intro none) (simp_all add: heap_malloc_def Let_def)
next
  fix a s assume r: "bucket_search h (round_up req) [get_bucket_idx (round_up req)..<4] = Some a" "a \<noteq> 0"
    "(a, s, True) \<in> set cs" "round_up req \<le> s"
  obtain xs ys where cs: "cs = xs @ (a, s, True) # ys" using split_list [OF r(3)] by blast
  note fd = heap_malloc_found [OF inv [unfolded cs] r(4) round_up_dvd]
  show thesis by (rule found [OF _ cs r(4) fd]) (simp add: heap_malloc_def Let_def r(1,2))
qed

section \<open>Release\<close>

lemma same_data_trans: "same_data U h1 h2 \<Longrightarrow> same_data U h2 h3 \<Longrightarrow> same_data U h1 h3"
  unfolding same_data_def by fastforce

lemma same_data_refl: "same_data U h h"
  by (simp add: same_data_def)

lemma same_data_mono: "same_data U h1 h2 \<Longrightarrow> V \<subseteq> U \<Longrightarrow> same_data V h1 h2"
  unfolding same_data_def by blast

lemma same_dataI:
  assumes "\<And>a s y. (a, s) \<in> U \<Longrightarrow> a + 16 \<le> y \<Longrightarrow> y < a + 16 + s \<Longrightarrow> hmem h' y = hmem h y"
  shows "same_data U h h'"
  using assms unfolding same_data_def by blast

lemma heap_free_ok:
  assumes inv: "heap_inv h (xs @ (a, s, False) # ys)"
  shows "heap_inv (heap_free (a + 16) h) (free_chunk xs a s ys)"
    and "same_data (used (xs @ ys)) h (heap_free (a + 16) h)"
proof -
  note d = heap_invD [OF inv]
  note hf = heap_free_hinv [OF d(1)]
  show "heap_inv (heap_free (a + 16) h) (free_chunk xs a s ys)"
    using hf(1,3) no_adj_free_chunk [OF d(2)] d(3) by (simp add: heap_inv_def)
  show "same_data (used (xs @ ys)) h (heap_free (a + 16) h)"
  proof (rule same_dataI)
    fix b t y assume bt: "(b, t) \<in> used (xs @ ys)" and y: "b + 16 \<le> y" "y < b + 16 + t"
    have u: "(b, t) \<in> used (xs @ (a, s, False) # ys)" "b \<noteq> a"
      using bt used_split_layout [OF d(4)] by auto
    note out = used_outside [OF d(4) u(1) y]
    have "y < a \<or> a + 32 + s \<le> y" using out(2) [of a s False] u(2) by simp
    then show "hmem (heap_free (a + 16) h) y = hmem h y" using out(1) by (intro hf(4)) auto
  qed
qed

section \<open>Writing to owned memory\<close>

text \<open>A store to the payload of a chunk in use cannot damage the heap.\<close>

lemma heap_inv_payload:
  assumes inv: "heap_inv h cs" and c: "(a, s, False) \<in> set cs"
    and m: "\<And>y. y < a + 16 \<or> a + 16 + s \<le> y \<Longrightarrow> m y = hmem h y"
  shows "heap_inv (h\<lparr>hmem := m\<rparr>) cs"
proof -
  note d = heap_invD [OF inv]
  have apart: "b + 32 + t \<le> a \<or> a + 32 + s \<le> b \<or> b = a \<and> t = s" if "(b, t, g) \<in> set cs" for b t g
    using layout_disjoint [OF d(4) c that] layout_functional [OF d(4) c] that by blast
  have ok: "chunk_ok m (b, t, g)" if bt: "(b, t, g) \<in> set cs" for b t g
  proof -
    have "m b = hmem h b" "m (b + 16 + t) = hmem h (b + 16 + t)"
      using apart [OF bt] by (intro m; linarith)+
    then show ?thesis using hinvD(4) [OF d(1) bt] by simp
  qed
  have fl: "flist (h\<lparr>hmem := m\<rparr>) b (linked cs (free_addrs cs) b)" if b: "b < 4" for b
  proof (rule flist_cong [OF hinvD(7) [OF d(1) b]])
    fix x assume "x \<in> linked cs (free_addrs cs) b"
    then obtain t where t: "(x, t, True) \<in> set cs" by (auto simp: linked_def free_addrs_def)
    then have "x \<noteq> a" using layout_functional [OF d(4) c] by auto
    then have "m (x + 4) = hmem h (x + 4)" "m (x + 8) = hmem h (x + 8)"
      using apart [OF t] by (intro m; linarith)+
    then show "s_next (h\<lparr>hmem := m\<rparr>) x = s_next h x \<and> s_prev (h\<lparr>hmem := m\<rparr>) x = s_prev h x"
      by (simp add: s_next_def s_prev_def)
  qed simp
  have "hinv (h\<lparr>hmem := m\<rparr>) cs (free_addrs cs)"
    unfolding hinv_def using hinvD [OF d(1)] ok fl by auto
  then show ?thesis using d(2,3) by (simp add: heap_inv_def)
qed

lemma copy_words_outside:
  "(\<And>i. i < n \<Longrightarrow> y \<noteq> dst + 4 * i) \<Longrightarrow> copy_words dst src n m y = m y"
proof (induction n arbitrary: dst src m)
  case (Suc n)
  have "y \<noteq> dst" using Suc.prems [of 0] by simp
  moreover have "y \<noteq> dst + 4 + 4 * i" if "i < n" for i using Suc.prems [of "Suc i"] that by simp
  ultimately show ?case using Suc.IH [of "dst + 4"] by simp
qed simp

lemma copy_words_inside:
  assumes "i < n" "\<And>j. j < i \<Longrightarrow> src + 4 * i \<noteq> dst + 4 * j"
  shows "copy_words dst src n m (dst + 4 * i) = m (src + 4 * i)"
  using assms
proof (induction n arbitrary: dst src m i)
  case (Suc n)
  show ?case
  proof (cases i)
    case 0
    then show ?thesis by (simp add: copy_words_outside)
  next
    case (Suc k)
    have "src + 4 * i \<noteq> dst" using Suc.prems(2) [of 0] Suc by simp
    moreover have "src + 4 + 4 * k \<noteq> dst + 4 + 4 * j" if "j < k" for j
      using Suc.prems(2) [of "j + 1"] that Suc by simp
    ultimately show ?thesis
      using Suc.IH [of k "src + 4" "dst + 4" "m(dst := m src)"] Suc.prems(1) Suc
      by (simp add: add.assoc fun_upd_def)
  qed
qed simp

section \<open>Reallocation\<close>

lemma round_up_idem [simp]: "round_up (round_up n) = round_up n"
proof -
  define v where "v = (n + 15) mod 4294967296"
  define q r where "q = v div 16" and "r = v mod 16"
  have v: "v = 16 * q + r" "r < 16" by (simp_all add: q_def r_def)
  have "v < 4294967296" by (simp add: v_def)
  then have q: "q < 268435456" using v by simp
  have "round_up n = v - v mod 16" by (simp add: round_up_def align_down_def v_def add.commute)
  then have 1: "round_up n = 16 * q" using v(1) unfolding r_def [symmetric] by linarith
  have "(16 * q + 15) mod 4294967296 = 16 * q + 15" using q by simp
  then show ?thesis unfolding 1 by (simp add: round_up_def align_down_def)
qed

text \<open>A chunk in use absorbs a free successor.\<close>

lemma realloc_absorb:
  assumes inv: "heap_inv h (xs @ (a, s, False) # (b, t, True) # zs)"
  defines "h' \<equiv> realloc_merge a h"
  shows "heap_inv h' (xs @ (a, s + t + 32, False) # zs)" "hp_end h' = hp_end h"
    "y \<notin> frange (xs @ (b, t, True) # zs) \<Longrightarrow> y \<noteq> a \<Longrightarrow> hmem h' y = hmem h y"
proof -
  let ?cs = "xs @ (a, s, False) # (b, t, True) # zs" and ?L = "free_addrs xs \<union> free_addrs zs"
  note d = heap_invD [OF inv]
  have lay: "layout (hp_start h) ((xs @ [(a, s, False)]) @ (b, t, True) # zs) (hp_end h)" using d(4) by simp
  have b: "b = a + 32 + s" using d(4) by (simp add: layout_append)
  have nb: "b \<notin> ?L"
    using layout_not_free [OF layout_split(1) [OF lay]] layout_not_free [OF layout_split(2) [OF lay]] by simp
  have na: "a \<notin> ?L"
    using layout_not_free [OF layout_split(1) [OF d(4)]] layout_not_free [OF layout_split(2) [OF d(4)]] by simp
  have L: "free_addrs ?cs - {b} = ?L" using nb by auto
  have bL: "b \<in> free_addrs ?cs" by simp
  define h1 where "h1 = freelist_unlink b h"
  note ul = hinv_unlink [OF d(1) bL, unfolded L, folded h1_def]
  note ca = hinv_chunk(2,13) [OF d(1), of a s False, simplified]
  note cb = hinv_chunk(2,4,9) [OF d(1), of b t True, simplified]
  note c1 = hinv_chunk(6) [OF ul(1), of a s False, simplified] hinv_chunk(8) [OF ul(1), of b t True, simplified]
  define v where "v = tag (s + t + 32) False"
  have hj: "hinv (set_size (b + 16 + t) v (set_size a v h1)) (xs @ (a, s + t + 32, False) # zs) ?L"
    unfolding v_def by (rule hinv_join [OF ul(1) na nb])
  have g: "get_next_chunk h a = b" "b < hp_end h" "is_free h b" using ca(2) cb(2,3) b by simp_all
  have "16 dvd s + t + 32" using ca(1) cb(1) by auto
  then have "get_footer_from_header (set_size a v h1) a = b + 16 + t"
    by (simp add: get_footer_from_header_def CHUNK_SIZE_def v_def b align_down_tag [of _ False, simplified])
  moreover have "s_size h1 a + (CHUNK_SIZE h1 b + 16 + 16) = v" using c1 by (simp add: v_def)
  ultimately have h': "h' = set_size (b + 16 + t) v (set_size a v h1)"
    unfolding h'_def realloc_merge_def Let_def g(1) h1_def [symmetric] using g(2,3) by simp
  have "no_adj zs" "no_adj xs" using d(2) by (auto simp: no_adj_append no_adj_Cons)
  then have "no_adj (xs @ (a, s + t + 32, False) # zs)"
    by (auto simp: no_adj_append no_adj_Cons first_free_def)
  then show "heap_inv h' (xs @ (a, s + t + 32, False) # zs)" "hp_end h' = hp_end h"
    using hj d(3) ul(4) by (simp_all add: heap_inv_def h')
  show "hmem h' y = hmem h y" if y: "y \<notin> frange (xs @ (b, t, True) # zs)" "y \<noteq> a"
  proof -
    have "y \<notin> link_words ?L" using y link_words_frange [of xs] link_words_frange [of zs] by auto
    then have "hmem h1 y = hmem h y" by (rule ul(2))
    then show ?thesis using y by (auto simp: h' hmem_upd)
  qed
qed

lemma realloc_merge_none:
  assumes inv: "heap_inv h (xs @ (a, s, False) # ys)" and "\<not> first_free ys"
  shows "realloc_merge a h = h"
proof -
  note d = heap_invD [OF inv]
  have nx: "get_next_chunk h a = a + 32 + s" using hinv_chunk(13) [OF d(1), of a s False] by simp
  show ?thesis
  proof (cases ys)
    case Nil
    then have "hp_end h = a + 32 + s" using d(4) by (auto simp: layout_append)
    then show ?thesis using nx by (simp add: realloc_merge_def Let_def)
  next
    case (Cons c zs)
    obtain b t g where c: "c = (b, t, g)" by (metis prod_cases3)
    have b: "b = a + 32 + s" using d(4) Cons c by (auto simp: layout_append)
    have "\<not> g" using assms(2) Cons c by (simp add: first_free_def)
    then have "\<not> is_free h b" using hinv_chunk(9) [OF d(1), of b t g] Cons c by simp
    then show ?thesis using nx b by (simp add: realloc_merge_def Let_def)
  qed
qed

lemma realloc_merge_ok:
  assumes inv: "heap_inv h (xs @ (a, s, False) # ys)"
  obtains s' ys' where "heap_inv (realloc_merge a h) (xs @ (a, s', False) # ys')" "s \<le> s'"
    "used ys' = used ys" "same_data (insert (a, s) (used (xs @ ys))) h (realloc_merge a h)"
proof (cases "first_free ys")
  case True
  then obtain b t zs where ys: "ys = (b, t, True) # zs" by (rule first_freeE)
  note ab = realloc_absorb [OF inv [unfolded ys]]
  have "same_data (insert (a, s) (used (xs @ ys))) h (realloc_merge a h)"
  proof (rule same_dataI)
    fix c u y assume c: "(c, u) \<in> insert (a, s) (used (xs @ ys))" and y: "c + 16 \<le> y" "y < c + 16 + u"
    note lay = heap_invD(4) [OF inv]
    have c': "(c, u) \<in> used (xs @ (a, s, False) # ys)" using c by auto
    note out = used_outside [OF lay c' y]
    have "y \<noteq> a" using out(2) [of a s False] y by auto
    moreover have "y \<notin> frange (xs @ (b, t, True) # zs)" using out(1) ys by simp
    ultimately show "hmem (realloc_merge a h) y = hmem h y" by (intro ab(3))
  qed
  then show thesis using ab(1) ys by (intro that [of "s + t + 32" zs]) auto
next
  case False
  then show thesis
    using inv realloc_merge_none [OF inv] by (intro that [of s ys]) (auto simp: same_data_def)
qed

lemma chunk_split_used:
  assumes inv: "heap_inv h (xs @ (a, s, False) # ys)" and sz: "sz \<le> s" "16 dvd sz"
  shows "heap_inv (chunk_split a sz h) (split_chunk xs a s sz ys)"
    and "same_data (insert (a, sz) (used (xs @ ys))) h (chunk_split a sz h)"
proof -
  note d = heap_invD [OF inv]
  have i: "hinv h (xs @ (a, s, False) # ys) (free_addrs xs \<union> free_addrs ys)" using d(1) by simp
  note cp = chunk_split_hinv [OF i sz]
  have "no_adj (split_chunk xs a s sz ys)"
    using d(2) by (intro no_adj_split_chunk) (auto simp: no_adj_append no_adj_Cons)
  then show "heap_inv (chunk_split a sz h) (split_chunk xs a s sz ys)"
    using cp(1,3) d(3) by (simp add: heap_inv_def)
  show "same_data (insert (a, sz) (used (xs @ ys))) h (chunk_split a sz h)"
  proof (rule same_dataI)
    fix c u y assume c: "(c, u) \<in> insert (a, sz) (used (xs @ ys))" and y: "c + 16 \<le> y" "y < c + 16 + u"
    obtain u' where c': "(c, u') \<in> used (xs @ (a, s, False) # ys)" "u \<le> u'" using c sz(1) by auto
    have y': "y < c + 16 + u'" using y c'(2) by simp
    note out = used_outside [OF d(4) c'(1) y(1) y']
    have "c = a \<and> u = sz \<or> y < a \<or> a + 32 + s \<le> y" using out(2) [of a s False] c used_split_layout [OF d(4)] by auto
    then show "hmem (chunk_split a sz h) y = hmem h y" using out(1) y sz by (intro cp(4)) auto
  qed
qed

text \<open>The words of the new block agree with the old block up to the shorter of the two.\<close>

definition moved :: "addr \<Rightarrow> addr \<Rightarrow> nat \<Rightarrow> heap \<Rightarrow> heap \<Rightarrow> bool" where
  "moved p q n h h' \<longleftrightarrow> (\<forall>i. 4 * i < n \<longrightarrow> hmem h' (q + 4 * i) = hmem h (p + 4 * i))"

lemma same_data_moved: "same_data {(a, s)} h h' \<Longrightarrow> n \<le> s \<Longrightarrow> moved (a + 16) (a + 16) n h h'"
  by (auto simp: same_data_def moved_def)

lemma moved_trans_same:
  assumes "moved p (a + 16) n h h1" "same_data {(a, s)} h1 h2" "n \<le> s"
  shows "moved p (a + 16) n h h2"
  using assms by (auto simp: same_data_def moved_def)

text \<open>The last resort of \<^verbatim>\<open>heap_realloc\<close>: a fresh chunk, a copy of \<open>sz\<close> bytes, and the release of
  the old chunk.\<close>

lemma realloc_move:
  assumes inv: "heap_inv h (xs @ (a, s, False) # ys)"
    and ml: "heap_malloc sz h = Some (p, h2)" "p \<noteq> 0" and sz: "round_up sz = sz"
  defines "h3 \<equiv> h2\<lparr>hmem := copy_words p (a + 16) (sz div 4) (hmem h2)\<rparr>"
  obtains cs' t where "heap_inv (heap_free (a + 16) h3) cs'" "used cs' = insert (p - 16, t) (used (xs @ ys))"
    "sz \<le> t" "same_data (used (xs @ ys)) h (heap_free (a + 16) h3)"
    "moved (a + 16) p (min s sz) h (heap_free (a + 16) h3)" "16 \<le> p" "p - 16 \<notin> fst ` used (xs @ ys)"
proof (rule heap_malloc_cases [OF inv, of sz])
  assume "heap_malloc sz h = Some (0, h)"
  then show thesis using ml by simp
next
  let ?cs = "xs @ (a, s, False) # ys"
  fix us b u vs h'
  assume *: "heap_malloc sz h = Some (b + 16, h')" "?cs = us @ (b, u, True) # vs"
    "round_up sz \<le> u" "heap_inv h' (split_chunk us b u (round_up sz) vs)"
    "same_data (used (us @ vs)) h h'"
  define cs2 where "cs2 = split_chunk us b u sz vs"
  define t where "t = (if u - sz < 48 then u else sz)"
  have p: "p = b + 16" "h' = h2" using *(1) ml(1) by auto
  have inv2: "heap_inv h2 cs2" using *(4) p sz by (simp add: cs2_def)
  have used2: "used cs2 = insert (b, t) (used ?cs)"
    unfolding *(2) cs2_def used_split_chunk t_def by simp
  have t: "sz \<le> t" using *(3) sz by (simp add: t_def)
  have bt: "(b, t, False) \<in> set cs2" using used2 by (auto simp: used_def)
  have ne: "b \<noteq> a" using used_split_layout [OF heap_invD(4) [OF inv [unfolded *(2)]], of a s] *(2)
    by (metis insertI1 used_simps(2,3) Un_insert_right)
  have out: "y \<noteq> p + 4 * i" if "y < b + 16 \<or> b + 16 + sz \<le> y" "i < sz div 4" for y i
    using that p by auto
  have inv3: "heap_inv h3 cs2"
    unfolding h3_def
  proof (rule heap_inv_payload [OF inv2 bt])
    show "copy_words p (a + 16) (sz div 4) (hmem h2) y = hmem h2 y" if "y < b + 16 \<or> b + 16 + t \<le> y" for y
      using that t by (intro copy_words_outside out) auto
  qed
  have apart: "y < b \<or> b + 32 + t \<le> y" if "(c, w) \<in> used ?cs" "c \<noteq> b" "c + 16 \<le> y" "y < c + 16 + w" for c w y
    using used_outside(2) [OF heap_invD(4) [OF inv2] _ that(3,4) bt] used2 that(1,2) by auto
  have d2: "same_data (used ?cs) h h2" using *(5) p *(2) by (metis used_simps(2,3))
  have nb: "c \<noteq> b" if "(c, w) \<in> used ?cs" for c w
    using used_split_layout [OF heap_invD(4) [OF inv [unfolded *(2)]], of c w] *(2) that by auto
  have d3: "same_data (used ?cs) h2 h3"
  proof (rule same_dataI)
    fix c w y assume c: "(c, w) \<in> used ?cs" and y: "c + 16 \<le> y" "y < c + 16 + w"
    have "y < b + 16 \<or> b + 16 + sz \<le> y" using apart [OF c nb [OF c] y] t by linarith
    then show "hmem h3 y = hmem h2 y" by (simp add: h3_def copy_words_outside out)
  qed
  have mv: "moved (a + 16) (b + 16) (min s sz) h h3"
    unfolding moved_def
  proof (intro allI impI)
    fix i assume i: "4 * i < min s sz"
    have "a + 16 + 4 * i < b \<or> b + 32 + t \<le> a + 16 + 4 * i" using i ne by (intro apart [of a s]) auto
    then have "hmem h3 (b + 16 + 4 * i) = hmem h2 (a + 16 + 4 * i)"
      using i t sz round_up_dvd [of sz] by (auto simp: h3_def p(1) intro!: copy_words_inside)
    then show "hmem h3 (b + 16 + 4 * i) = hmem h (a + 16 + 4 * i)"
      using d2 i by (auto simp: same_data_def)
  qed
  have "(a, s) \<in> used cs2" using used2 by simp
  then obtain xs2 ys2 where cs2: "cs2 = xs2 @ (a, s, False) # ys2"
    unfolding used_def by (blast dest: split_list)
  have "(a, s) \<notin> used (xs2 @ ys2)" "(a, s) \<notin> insert (b, t) (used (xs @ ys))"
    using ne used_split_layout [OF heap_invD(4) [OF inv]]
      used_split_layout [OF heap_invD(4) [OF inv2 [unfolded cs2]]] by auto
  moreover have "insert (a, s) (used (xs2 @ ys2)) = insert (a, s) (insert (b, t) (used (xs @ ys)))"
    using used2 by (simp add: cs2 insert_commute)
  ultimately have rest: "used (xs2 @ ys2) = insert (b, t) (used (xs @ ys))"
    by (metis insert_ident)
  note hf = heap_free_ok [OF inv3 [unfolded cs2], unfolded rest]
  show thesis
  proof (rule that [OF hf(1)])
    show "used (free_chunk xs2 a s ys2) = insert (p - 16, t) (used (xs @ ys))"
      using rest p by (simp add: used_free_chunk)
    show "sz \<le> t" "16 \<le> p" using t p by simp_all
    show "p - 16 \<notin> fst ` used (xs @ ys)" using nb p by force
    show "same_data (used (xs @ ys)) h (heap_free (a + 16) h3)"
      using same_data_trans [OF same_data_trans [OF d2 d3, THEN same_data_mono] same_data_mono [OF hf(2)]]
      by auto
    show "moved (a + 16) p (min s sz) h (heap_free (a + 16) h3)"
      unfolding p(1) using same_data_mono [OF hf(2)] t by (intro moved_trans_same [OF mv, of t]) auto
  qed
qed

text \<open>What \<^verbatim>\<open>heap_realloc\<close> returns for a chunk in use: NULL, with the chunk kept, or a chunk of the
  wanted size that holds the old data.\<close>

definition realloc_post :: "chunk list \<Rightarrow> addr \<Rightarrow> nat \<Rightarrow> nat \<Rightarrow> heap \<Rightarrow> addr \<Rightarrow> heap \<Rightarrow> bool" where
  "realloc_post rest a s sz h p h' \<longleftrightarrow>
     (\<exists>cs' t. heap_inv h' cs' \<and> same_data (used rest) h h'
        \<and> (if p = 0 then used cs' = insert (a, t) (used rest) \<and> s \<le> t \<and> t < sz \<and> moved (a + 16) (a + 16) s h h'
           else 16 \<le> p \<and> used cs' = insert (p - 16, t) (used rest) \<and> p - 16 \<notin> fst ` used rest
                \<and> sz \<le> t \<and> moved (a + 16) p (min s sz) h h'))"

lemma realloc_split:
  assumes inv: "heap_inv h1 (xs @ (a, s', False) # ys')" and sz: "sz \<le> s'" "16 dvd sz"
    and d: "same_data (insert (a, s) (used (xs @ ys))) h h1" "used ys' = used ys"
  shows "realloc_post (xs @ ys) a s sz h (a + 16) (chunk_split a sz h1)"
proof -
  note cp = chunk_split_used [OF inv sz]
  have u: "used (split_chunk xs a s' sz ys') = insert (a, if s' - sz < 48 then s' else sz) (used (xs @ ys))"
    by (simp add: used_split_chunk d(2))
  have na: "a \<notin> fst ` used (xs @ ys)" using used_split_layout [OF heap_invD(4) [OF inv]] d(2) by force
  have c: "same_data (used (xs @ ys)) h1 (chunk_split a sz h1)" "same_data {(a, sz)} h1 (chunk_split a sz h1)"
    using d(2) by (auto intro: same_data_mono [OF cp(2)])
  have 1: "same_data (used (xs @ ys)) h (chunk_split a sz h1)"
    by (rule same_data_trans [OF same_data_mono [OF d(1)] c(1)]) auto
  have "moved (a + 16) (a + 16) (min s sz) h h1"
    by (rule same_data_moved [OF same_data_mono [OF d(1)], of a s]) auto
  then have 2: "moved (a + 16) (a + 16) (min s sz) h (chunk_split a sz h1)"
    by (rule moved_trans_same [OF _ c(2)]) simp
  show ?thesis
    unfolding realloc_post_def using cp(1) 1 2 sz(1) u na
    by (intro exI [of _ "split_chunk xs a s' sz ys'"] exI [of _ "if s' - sz < 48 then s' else sz"]) auto
qed

lemma heap_realloc_ok:
  assumes inv: "heap_inv h (xs @ (a, s, False) # ys)"
  obtains p h' where "heap_realloc (a + 16) req h = Some (p, h')"
    "realloc_post (xs @ ys) a s (round_up req) h p h'"
proof -
  define sz where "sz = round_up req"
  have sz: "16 dvd sz" "round_up sz = sz" by (simp_all add: sz_def)
  have cs: "CHUNK_SIZE h a = s" using hinv_chunk(8) [OF heap_invD(1) [OF inv], of a s False] by simp
  define h1 where "h1 = realloc_merge a h"
  obtain s' ys' where m: "heap_inv h1 (xs @ (a, s', False) # ys')" "s \<le> s'" "used ys' = used ys"
    "same_data (insert (a, s) (used (xs @ ys))) h h1"
    using realloc_merge_ok [OF inv] unfolding h1_def by metis
  have cs1: "CHUNK_SIZE h1 a = s'" using hinv_chunk(8) [OF heap_invD(1) [OF m(1)], of a s' False] by simp
  note res = that [folded sz_def]
  note rd = heap_realloc_def Let_def sz_def [symmetric] h1_def [symmetric] cs cs1
  consider (fit) "sz \<le> s" | (grow) "s < sz" "sz \<le> s'" | (move) "s < sz" "s' < sz" by linarith
  then show thesis
  proof cases
    case fit
    then have "heap_realloc (a + 16) req h = Some (a + 16, chunk_split a sz h)" by (simp add: rd)
    then show thesis
      by (rule res) (rule realloc_split [OF inv fit sz(1) same_data_refl refl])
  next
    case grow
    then have "heap_realloc (a + 16) req h = Some (a + 16, chunk_split a sz h1)" by (simp add: rd)
    then show thesis by (rule res) (rule realloc_split [OF m(1) grow(2) sz(1) m(4,3)])
  next
    case move
    have d: "same_data (used (xs @ ys)) h h1" "same_data {(a, s)} h h1"
      by (auto intro: same_data_mono [OF m(4)])
    have mv: "moved (a + 16) (a + 16) s h h1" by (rule same_data_moved [OF d(2)]) simp
    obtain p h2 where ml: "heap_malloc sz h1 = Some (p, h2)" "p = 0 \<Longrightarrow> h2 = h1"
      by (rule heap_malloc_cases [OF m(1), of sz]) auto
    show thesis
    proof (cases "p = 0")
      case True
      have "realloc_post (xs @ ys) a s sz h 0 h1"
        unfolding realloc_post_def using m(1,2,3) d(1) mv move
        by (intro exI [of _ "xs @ (a, s', False) # ys'"] exI [of _ s']) auto
      moreover have "heap_realloc (a + 16) req h = Some (0, h1)" using True ml move by (simp add: rd)
      ultimately show thesis by (intro res)
    next
      case False
      define h4 where "h4 = heap_free (a + 16) (h2\<lparr>hmem := copy_words p (a + 16) (sz div 4) (hmem h2)\<rparr>)"
      obtain cs' t where r: "heap_inv h4 cs'" "used cs' = insert (p - 16, t) (used (xs @ ys))" "sz \<le> t"
        "same_data (used (xs @ ys)) h1 h4" "moved (a + 16) p (min s' sz) h1 h4" "16 \<le> p"
        "p - 16 \<notin> fst ` used (xs @ ys)"
        using realloc_move [OF m(1) ml(1) False sz(2)] m(3) unfolding h4_def by (auto simp: m(3))
      have "same_data (used (xs @ ys)) h h4" using same_data_trans [OF d(1) r(4)] .
      moreover have "moved (a + 16) p (min s sz) h h4"
        using r(5) mv m(2) by (auto simp: moved_def)
      ultimately have "realloc_post (xs @ ys) a s sz h p h4"
        unfolding realloc_post_def using r(1-3,6,7) False by (intro exI [of _ cs'] exI [of _ t]) auto
      moreover have "heap_realloc (a + 16) req h = Some (p, h4)" using False ml move by (simp add: rd h4_def)
      ultimately show thesis by (intro res)
    qed
  qed
qed

section \<open>Initialisation\<close>

lemma heap_init_ok:
  assumes "16 dvd base" "16 dvd e" "base + 80 \<le> e" "e < 2 ^ 32"
  shows "heap_inv (heap_init base e m) [(base + 32, e - base - 64, True)]"
proof -
  define s where "s = e - base - 64"
  have s: "16 dvd s" "e = base + 64 + s" using assms(1-3) by (auto simp: s_def)
  let ?h = "heap_init base e m" and ?a = "base + 32"
  have fields: "hmem ?h ?a = tag s True" "hmem ?h (?a + 16 + s) = tag s True" "hmem ?h (?a + 4) = 0"
    "hmem ?h (?a + 8) = 0" "hp_start ?h = ?a" "hp_end ?h = e"
    "free_list ?h = (replicate 4 0)[get_bucket_idx s := ?a]"
    using s or_free_tag [OF s(1), of False] get_bucket_idx_tag [OF s(1), of True]
    by (simp_all add: heap_init_def Let_def HEAP_SIZE_def align_down_def set_size_def set_next_def
        set_prev_def set_bucket_def s_size_def)
  have "flist ?h b (linked [(?a, s, True)] {?a} b)" if "b < 4" for b
  proof (cases "b = get_bucket_idx s")
    case True
    then show ?thesis
      unfolding flist_def using that fields by (intro exI [of _ "[?a]"] exI [of _ ?a])
        (auto simp: linked_def s_next_def s_prev_def)
  next
    case False
    then show ?thesis
      unfolding flist_def using that fields by (intro exI [of _ "[]"] exI [of _ 0]) (simp add: linked_def)
  qed
  then have "hinv ?h [(?a, s, True)] {?a}"
    unfolding hinv_def using fields s assms(1) by simp
  then show ?thesis using fields assms(4) by (simp add: heap_inv_def s_def)
qed

end
