(* ===== verification/Malloc_Trace.thy ===== *)
theory Malloc_Trace
  imports Malloc_Correct
begin

text \<open>
  A task using its heap: the steps are calls of \<^verbatim>\<open>heap_malloc\<close>, \<^verbatim>\<open>heap_realloc\<close> and \<^verbatim>\<open>heap_free\<close>
  and stores to blocks the task owns. The state is the heap with the set of owned blocks, each a
  pointer with the size asked for. Every reachable heap satisfies the invariant, and the owned
  blocks lie in the heap and do not overlap.
\<close>

inductive task_step :: "heap \<times> (addr \<times> nat) set \<Rightarrow> heap \<times> (addr \<times> nat) set \<Rightarrow> bool" where
  malloc: "heap_malloc n h = Some (p, h') \<Longrightarrow> n + 15 < 2 ^ 32
    \<Longrightarrow> task_step (h, B) (h', if p = 0 then B else insert (p, n) B)"
| realloc: "(p, k) \<in> B \<Longrightarrow> heap_realloc p n h = Some (q, h') \<Longrightarrow> n + 15 < 2 ^ 32
    \<Longrightarrow> task_step (h, B) (h', if q = 0 then B else insert (q, n) (B - {(p, k)}))"
| free: "(p, k) \<in> B \<Longrightarrow> task_step (h, B) (heap_free p h, B - {(p, k)})"
| store: "(p, k) \<in> B \<Longrightarrow> p \<le> y \<Longrightarrow> y < p + k
    \<Longrightarrow> task_step (h, B) (h\<lparr>hmem := (hmem h)(y := v)\<rparr>, B)"

definition owned_ok :: "heap \<Rightarrow> chunk list \<Rightarrow> (addr \<times> nat) set \<Rightarrow> bool" where
  "owned_ok h cs B \<longleftrightarrow> heap_inv h cs \<and> inj_on fst B
     \<and> (\<forall>(p, k) \<in> B. 16 \<le> p \<and> (\<exists>t. k \<le> t \<and> (p - 16, t) \<in> used cs))"

lemma owned_okD:
  assumes "owned_ok h cs B" "(p, k) \<in> B"
  obtains t where "16 \<le> p" "k \<le> t" "(p - 16, t, False) \<in> set cs"
  using assms unfolding owned_ok_def used_def by blast

lemma owned_chunk:
  assumes "owned_ok h cs B" "(p, k) \<in> B"
  obtains xs t ys where "cs = xs @ (p - 16, t, False) # ys" "k \<le> t" "p = p - 16 + 16"
    "(\<And>q j. (q, j) \<in> B - {(p, k)} \<Longrightarrow> 16 \<le> q \<and> (\<exists>u. j \<le> u \<and> (q - 16, u) \<in> used (xs @ ys)))"
proof -
  obtain t where t: "16 \<le> p" "k \<le> t" "(p - 16, t) \<in> used cs" using assms unfolding owned_ok_def by fastforce
  then obtain xs ys where cs: "cs = xs @ (p - 16, t, False) # ys"
    unfolding used_def by (blast dest: split_list)
  have "16 \<le> q \<and> (\<exists>u. j \<le> u \<and> (q - 16, u) \<in> used (xs @ ys))" if q: "(q, j) \<in> B - {(p, k)}" for q j
  proof -
    obtain u where u: "16 \<le> q" "j \<le> u" "(q - 16, u) \<in> used cs" using assms q unfolding owned_ok_def by fastforce
    have "q \<noteq> p" using assms q unfolding owned_ok_def inj_on_def by force
    then have "q - 16 \<noteq> p - 16" using u(1) t(1) by simp
    then show ?thesis using u cs by auto
  qed
  then show thesis using that [OF cs t(2)] t(1) by simp
qed

lemma owned_ok_extend:
  assumes "heap_inv h' cs'" "inj_on fst B" "used cs' = insert (p - 16, t) U" "p - 16 \<notin> fst ` U" "16 \<le> p" "n \<le> t"
    "\<And>q j. (q, j) \<in> B \<Longrightarrow> 16 \<le> q \<and> (\<exists>u. j \<le> u \<and> (q - 16, u) \<in> U)"
  shows "owned_ok h' cs' (insert (p, n) B)"
proof -
  have "p \<notin> fst ` B" using assms(4,5,7) by force
  then have "inj_on fst (insert (p, n) B)" using assms(2) by auto
  then show ?thesis unfolding owned_ok_def using assms by fastforce
qed

lemma task_step_malloc:
  assumes ok: "owned_ok h cs B" and m: "heap_malloc n h = Some (p, h')" and n: "n + 15 < 2 ^ 32"
  shows "\<exists>cs'. owned_ok h' cs' (if p = 0 then B else insert (p, n) B)"
proof -
  have inv: "heap_inv h cs" using ok by (simp add: owned_ok_def)
  show ?thesis
  proof (rule heap_malloc_cases [OF inv, of n])
    assume "heap_malloc n h = Some (0, h)"
    then show ?thesis using ok m by auto
  next
    fix xs a s ys h2
    assume *: "heap_malloc n h = Some (a + 16, h2)" "cs = xs @ (a, s, True) # ys" "round_up n \<le> s"
      "heap_inv h2 (split_chunk xs a s (round_up n) ys)"
    define t where "t = (if s - round_up n < 48 then s else round_up n)"
    have t: "n \<le> t" using *(3) round_up_ge [OF n] by (simp add: t_def)
    have a: "a \<notin> fst ` used cs" using used_split_layout [OF heap_invD(4) [OF inv [unfolded *(2)]]] *(2) by force
    have u: "used (split_chunk xs a s (round_up n) ys) = insert (a, t) (used cs)"
      using *(2) by (simp add: used_split_chunk t_def)
    have "owned_ok h2 (split_chunk xs a s (round_up n) ys) (insert (a + 16, n) B)"
      using a u ok t by (intro owned_ok_extend [OF *(4)]) (auto simp: owned_ok_def)
    then show ?thesis using m *(1) by auto
  qed
qed

lemma task_step_free:
  assumes ok: "owned_ok h cs B" and p: "(p, k) \<in> B"
  shows "\<exists>cs'. owned_ok (heap_free p h) cs' (B - {(p, k)})"
proof -
  obtain xs t ys where c: "cs = xs @ (p - 16, t, False) # ys" "p = p - 16 + 16"
    "(\<And>q j. (q, j) \<in> B - {(p, k)} \<Longrightarrow> 16 \<le> q \<and> (\<exists>u. j \<le> u \<and> (q - 16, u) \<in> used (xs @ ys)))"
    by (rule owned_chunk [OF ok p]) blast
  have inv: "heap_inv h (xs @ (p - 16, t, False) # ys)" using ok c(1) by (simp add: owned_ok_def)
  have "heap_inv (heap_free p h) (free_chunk xs (p - 16) t ys)" using heap_free_ok(1) [OF inv] c(2) by simp
  then have "owned_ok (heap_free p h) (free_chunk xs (p - 16) t ys) (B - {(p, k)})"
    using ok c(3) by (auto simp: owned_ok_def used_free_chunk intro: inj_on_diff)
  then show ?thesis ..
qed

lemma task_step_realloc:
  assumes ok: "owned_ok h cs B" and p: "(p, k) \<in> B"
    and r: "heap_realloc p n h = Some (q, h')" and n: "n + 15 < 2 ^ 32"
  shows "\<exists>cs'. owned_ok h' cs' (if q = 0 then B else insert (q, n) (B - {(p, k)}))"
proof -
  obtain xs s ys where c: "cs = xs @ (p - 16, s, False) # ys" "k \<le> s" "p = p - 16 + 16"
    "(\<And>q j. (q, j) \<in> B - {(p, k)} \<Longrightarrow> 16 \<le> q \<and> (\<exists>u. j \<le> u \<and> (q - 16, u) \<in> used (xs @ ys)))"
    by (rule owned_chunk [OF ok p]) blast
  have inv: "heap_inv h (xs @ (p - 16, s, False) # ys)" using ok c(1) by (simp add: owned_ok_def)
  have post: "realloc_post (xs @ ys) (p - 16) s (round_up n) h q h'"
    using heap_realloc_ok [OF inv, of n] r c(3) by force
  then obtain cs' t where i: "heap_inv h' cs'"
    and z: "q = 0 \<Longrightarrow> used cs' = insert (p - 16, t) (used (xs @ ys)) \<and> s \<le> t"
    and nz: "q \<noteq> 0 \<Longrightarrow> 16 \<le> q \<and> used cs' = insert (q - 16, t) (used (xs @ ys)) \<and> q - 16 \<notin> fst ` used (xs @ ys)
                \<and> round_up n \<le> t"
    unfolding realloc_post_def by (metis (full_types))
  have inj: "inj_on fst B" "inj_on fst (B - {(p, k)})" using ok by (auto simp: owned_ok_def intro: inj_on_diff)
  show ?thesis
  proof (cases "q = 0")
    case True
    have "p - 16 \<notin> fst ` used (xs @ ys)"
      using used_split_layout [OF heap_invD(4) [OF inv]] by force
    then have "owned_ok h' cs' (insert (p, k) (B - {(p, k)}))"
      using z [OF True] c by (intro owned_ok_extend [OF i inj(2), of p t "used (xs @ ys)"]) auto
    then show ?thesis using True p by (auto simp: insert_absorb)
  next
    case False
    then have "owned_ok h' cs' (insert (q, n) (B - {(p, k)}))"
      using nz [OF False] c(4) round_up_ge [OF n]
      by (intro owned_ok_extend [OF i inj(2), of q t "used (xs @ ys)"]) auto
    then show ?thesis using False by auto
  qed
qed

lemma task_step_store:
  assumes ok: "owned_ok h cs B" and p: "(p, k) \<in> B" and y: "p \<le> y" "y < p + k"
  shows "owned_ok (h\<lparr>hmem := (hmem h)(y := v)\<rparr>) cs B"
proof -
  obtain xs t ys where c: "cs = xs @ (p - 16, t, False) # ys" "k \<le> t" "p = p - 16 + 16"
    by (rule owned_chunk [OF ok p]) blast
  have "heap_inv (h\<lparr>hmem := (hmem h)(y := v)\<rparr>) cs"
    using ok c y by (intro heap_inv_payload [of _ _ "p - 16" t]) (auto simp: owned_ok_def)
  then show ?thesis using ok by (simp add: owned_ok_def)
qed

lemma task_step_ok:
  "task_step st st' \<Longrightarrow> owned_ok (fst st) cs (snd st) \<Longrightarrow> \<exists>cs'. owned_ok (fst st') cs' (snd st')"
proof (induction rule: task_step.induct)
  case (malloc n h p h' B)
  then show ?case using task_step_malloc [of h cs B n p h'] by simp
next
  case (realloc p k B n h q h')
  then show ?case using task_step_realloc [of h cs B p k n q h'] by simp
next
  case (free p k B h)
  then show ?case using task_step_free [of h cs B p k] by simp
next
  case (store p k B y h v)
  then show ?case using task_step_store [of h cs B p k y v] by auto
qed

lemma task_steps_ok:
  "task_step\<^sup>*\<^sup>* st st' \<Longrightarrow> owned_ok (fst st) cs (snd st) \<Longrightarrow> \<exists>cs'. owned_ok (fst st') cs' (snd st')"
  by (induction rule: rtranclp_induct) (blast dest: task_step_ok)+

lemma owned_disjoint:
  assumes ok: "owned_ok h cs B" and b: "(p, k) \<in> B" "(q, j) \<in> B" "(p, k) \<noteq> (q, j)"
  shows "p + k \<le> q \<or> q + j \<le> p"
proof -
  obtain t u where t: "16 \<le> p" "k \<le> t" "(p - 16, t, False) \<in> set cs" "16 \<le> q" "j \<le> u" "(q - 16, u, False) \<in> set cs"
    using owned_okD [OF ok b(1)] owned_okD [OF ok b(2)] by metis
  have "p \<noteq> q" using ok b unfolding owned_ok_def inj_on_def by force
  then have "p - 16 \<noteq> q - 16" using t(1,4) by simp
  moreover have "layout (hp_start h) cs (hp_end h)" using ok heap_invD(4) by (auto simp: owned_ok_def)
  ultimately show ?thesis using layout_disjoint [of _ cs _ "p - 16" t False "q - 16" u False] t by fastforce
qed

lemma owned_inside:
  assumes ok: "owned_ok h cs B" and b: "(p, k) \<in> B"
  shows "hp_start h < p" "p + k < hp_end h" "16 dvd p"
proof -
  obtain t where t: "16 \<le> p" "k \<le> t" "(p - 16, t, False) \<in> set cs"
    by (rule owned_okD [OF ok b])
  have i: "hinv h cs (free_addrs cs)" using ok heap_invD(1) by (auto simp: owned_ok_def)
  show "hp_start h < p" "p + k < hp_end h" using hinv_chunk(3,4) [OF i t(3)] t(1,2) by auto
  show "16 dvd p" using hinv_chunk(1) [OF i t(3)] t(1) by (metis dvd_minus_self not_less)
qed

section \<open>Properties\<close>

lemma heap_malloc_null_iff:
  assumes "heap_inv h cs"
  obtains p h' where "heap_malloc req h = Some (p, h')" "p = 0 \<Longrightarrow> h' = h"
    "p = 0 \<longleftrightarrow> (\<forall>(a, s, f) \<in> set cs. f \<longrightarrow> s < round_up req)"
proof (rule heap_malloc_cases [OF assms, of req])
  assume "heap_malloc req h = Some (0, h)" "\<And>a s. (a, s, True) \<in> set cs \<Longrightarrow> s < round_up req"
  then show thesis by (intro that [of 0 h]) auto
next
  fix xs a s ys h'
  assume "heap_malloc req h = Some (a + 16, h')" "cs = xs @ (a, s, True) # ys" "round_up req \<le> s"
  then show thesis by (intro that [of "a + 16" h']) auto
qed

lemma heap_malloc_used:
  assumes inv: "heap_inv h cs" and m: "heap_malloc req h = Some (p, h')" "p \<noteq> 0"
  shows "\<exists>cs' t. heap_inv h' cs' \<and> used cs' = insert (p - 16, t) (used cs) \<and> p - 16 \<notin> fst ` used cs
    \<and> round_up req \<le> t \<and> same_data (used cs) h h' \<and> 16 \<le> p \<and> 16 dvd p"
proof (rule heap_malloc_cases [OF inv, of req])
  assume "heap_malloc req h = Some (0, h)"
  then show ?thesis using m by simp
next
  fix xs a s ys h2
  assume *: "heap_malloc req h = Some (a + 16, h2)" "cs = xs @ (a, s, True) # ys" "round_up req \<le> s"
    "heap_inv h2 (split_chunk xs a s (round_up req) ys)" "same_data (used (xs @ ys)) h h2"
  have na: "a \<notin> fst ` used cs"
    using used_split_layout [OF heap_invD(4) [OF inv [unfolded *(2)]]] *(2) by force
  have "16 dvd a" using hinv_chunk(1) [OF heap_invD(1) [OF inv], of a s True] *(2) by simp
  then show ?thesis
    using * m na
    by (intro exI [of _ "split_chunk xs a s (round_up req) ys"]
        exI [of _ "if s - round_up req < 48 then s else round_up req"]) (auto simp: used_split_chunk)
qed

lemma heap_free_used:
  assumes inv: "heap_inv h cs" and c: "(a, s) \<in> used cs"
  shows "\<exists>cs'. heap_inv (heap_free (a + 16) h) cs' \<and> used cs' = used cs - {(a, s)}
    \<and> same_data (used cs - {(a, s)}) h (heap_free (a + 16) h)"
proof -
  obtain xs ys where cs: "cs = xs @ (a, s, False) # ys" using c unfolding used_def by (blast dest: split_list)
  have "used cs - {(a, s)} = used (xs @ ys)"
    using used_split_layout [OF heap_invD(4) [OF inv [unfolded cs]]] cs by auto
  then show ?thesis using heap_free_ok [OF inv [unfolded cs]] by (auto simp: used_free_chunk)
qed

text \<open>A heap of 976 payload bytes, for the witnesses.\<close>

definition demo_heap :: heap where
  "demo_heap = heap_init 16 1056 (\<lambda>_. 0)"

lemma demo_heap_inv: "heap_inv demo_heap [(48, 976, True)]"
  using heap_init_ok [of 16 1056 "\<lambda>_. 0"] by (simp add: demo_heap_def)

lemma demo_heap_malloc: obtains p h' where "heap_malloc 100 demo_heap = Some (p, h')" "p \<noteq> 0"
  by (rule heap_malloc_null_iff [OF demo_heap_inv, of 100]) (auto simp: round_up_def align_down_def)



text \<open>
  C19. \<^verbatim>\<open>heap_malloc\<close> always returns; it returns NULL, with the heap unchanged, exactly when every
  free chunk is smaller than the rounded request, although it searches only the buckets from the
  request's own upwards.
\<close>

theorem malloc_complete:
  assumes "heap_inv h cs"
  shows "\<exists>p h'. heap_malloc req h = Some (p, h') \<and> (p = 0 \<longrightarrow> h' = h)
    \<and> (p = 0 \<longleftrightarrow> (\<forall>(a, s, f) \<in> set cs. f \<longrightarrow> s < round_up req))"
  by (rule heap_malloc_null_iff [OF assms, of req]) blast

theorem malloc_complete_witness:
  "heap_inv demo_heap [(48, 976, True)] \<and> heap_malloc 977 demo_heap = Some (0, demo_heap)"
  using malloc_complete [OF demo_heap_inv, of 977] demo_heap_inv by (auto simp: round_up_def align_down_def)



text \<open>
  C21. \<^verbatim>\<open>heap_free\<close> of a chunk in use keeps the heap invariant, in particular that free chunks are
  merged with free neighbours, removes exactly that chunk from the chunks in use, and does not
  change a word of the data of the others.
\<close>

theorem free_correct:
  assumes "heap_inv h cs" "(a, s) \<in> used cs"
  shows "\<exists>cs'. heap_inv (heap_free (a + 16) h) cs' \<and> used cs' = used cs - {(a, s)}
    \<and> same_data (used cs - {(a, s)}) h (heap_free (a + 16) h)"
  by (rule heap_free_used [OF assms])

theorem free_correct_witness:
  "\<exists>p h' cs'. heap_malloc 100 demo_heap = Some (p, h') \<and> heap_inv (heap_free p h') cs' \<and> used cs' = {}"
proof -
  obtain p h' where m: "heap_malloc 100 demo_heap = Some (p, h')" "p \<noteq> 0" by (rule demo_heap_malloc)
  obtain cs t where c: "heap_inv h' cs" "used cs = {(p - 16, t)}" "16 \<le> p"
    using heap_malloc_used [OF demo_heap_inv m] by auto
  then show ?thesis using m(1) free_correct [OF c(1), of "p - 16" t] by auto
qed



text \<open>
  The request size is rounded up in 32-bit arithmetic without an overflow check: for the
  fifteen largest sizes the rounded size is 0, and whenever any chunk is free the call succeeds
  with a chunk that need not have the requested size.
\<close>

theorem malloc_size_wraps:
  assumes "heap_inv h cs" "2 ^ 32 - 15 \<le> req" "req < 2 ^ 32" "(a, s, True) \<in> set cs"
  shows "\<exists>p h'. heap_malloc req h = Some (p, h') \<and> p \<noteq> 0 \<and> hp_end h < req"
proof -
  have z: "round_up req = 0"
    using assms(2,3) by (auto simp: round_up_def align_down_def mod_if)
  have "hp_end h < 2 ^ 32 - 15"
  proof -
    have "16 dvd hp_end h"
      using layout_aligned [OF heap_invD(4) [OF assms(1)]] hinvD(1) [OF heap_invD(1) [OF assms(1)]] .
    then obtain k where "hp_end h = 16 * k" by (rule dvdE)
    then show ?thesis using heap_invD(3) [OF assms(1)] by simp
  qed
  then have e: "hp_end h < req" using assms(2) by linarith
  obtain p h' where m: "heap_malloc req h = Some (p, h')"
    "p = 0 \<longleftrightarrow> (\<forall>(a, s, f) \<in> set cs. f \<longrightarrow> s < round_up req)"
    by (rule heap_malloc_null_iff [OF assms(1), of req])
  have "p \<noteq> 0" unfolding m(2) using assms(4) z by fastforce
  then show ?thesis using m(1) e by blast
qed

theorem malloc_size_wraps_witness:
  "\<exists>p h'. heap_malloc 4294967295 demo_heap = Some (p, h') \<and> p \<noteq> 0 \<and> hp_end demo_heap < 4294967295"
  using malloc_size_wraps [OF demo_heap_inv, of 4294967295] by simp

end
