(* ===== verification/Sw_Aes_Sbox.thy ===== *)
theory Sw_Aes_Sbox
  imports Prelude
begin

text \<open>
  The AES S-box of \<^verbatim>\<open>driver/swcrypto/sw_aes.c\<close>. The code computes it with a circuit of XOR, AND
  and NOT gates on bytes whose lowest bit carries the signal; one circuit is used for the
  S-box and for its inverse, with different linear layers in front and behind. Each layer is one
  definition, with the wires named as in the code.
\<close>

section \<open>The circuit\<close>

type_synonym sbox_in = "u8 \<times> u8 \<times> u8 \<times> u8 \<times> u8 \<times> u8 \<times> u8 \<times> u8"
type_synonym sbox_wires = "u8 \<times> u8 \<times> u8 \<times> u8 \<times> u8 \<times> u8 \<times> u8 \<times>
     u8 \<times> u8 \<times> u8 \<times> u8 \<times> u8 \<times> u8 \<times> u8 \<times>
     u8 \<times> u8 \<times> u8 \<times> u8 \<times> u8 \<times> u8 \<times> u8 \<times> u8"
type_synonym sbox_prods = "u8 \<times> u8 \<times> u8 \<times> u8 \<times> u8 \<times> u8 \<times> u8 \<times>
     u8 \<times> u8 \<times> u8 \<times> u8 \<times> u8 \<times> u8 \<times> u8 \<times>
     u8 \<times> u8 \<times> u8 \<times> u8"

definition sbox_top :: "sbox_in \<Rightarrow> sbox_wires" where
  "sbox_top = (\<lambda>(U0, U1, U2, U3, U4, U5, U6, U7).
     (let T1 = U0 XOR U3; T2 = U0 XOR U5; T3 = U0 XOR U6; T4 = U3 XOR U5; T5 = U4 XOR U6;
          T6 = T1 XOR T5; T7 = U1 XOR U2; T8 = U7 XOR T6; T9 = U7 XOR T7; T10 = T6 XOR T7;
          T11 = U1 XOR U5; T12 = U2 XOR U5; T13 = T3 XOR T4; T14 = T6 XOR T11;
          T15 = T5 XOR T11; T16 = T5 XOR T12; T17 = T9 XOR T16; T18 = U3 XOR U7;
          T19 = T7 XOR T18; T20 = T1 XOR T19; T21 = U6 XOR U7; T22 = T7 XOR T21;
          T23 = T2 XOR T22; T24 = T2 XOR T10; T25 = T20 XOR T17; T26 = T3 XOR T16;
          T27 = T1 XOR T12; Y5 = U7
      in (T1, T2, T3, T4, T6, T8, T9, T10, T13, T14, T15, T16, T17, T19, T20, T22, T23, T24,
         T25, T26, T27, Y5)))"

definition sbox_top_inv :: "sbox_in \<Rightarrow> sbox_wires" where
  "sbox_top_inv = (\<lambda>(U0, U1, U2, U3, U4, U5, U6, U7).
     (let T23 = U0 XOR U3; T22 = NOT (U1 XOR U3); T2 = NOT (U0 XOR U1); T1 = U3 XOR U4;
          T24 = NOT (U4 XOR U7); R5 = U6 XOR U7; T8 = NOT (U1 XOR T23); T19 = T22 XOR R5;
          T9 = NOT (U7 XOR T1); T10 = T2 XOR T24; T13 = T2 XOR R5; T3 = T1 XOR R5;
          T25 = NOT (U2 XOR T1); R13 = U1 XOR U6; T17 = NOT (U2 XOR T19); T20 = T24 XOR R13;
          T4 = U4 XOR T8; R17 = NOT (U2 XOR U5); R18 = NOT (U5 XOR U6); R19 = NOT (U2 XOR U4);
          Y5 = U0 XOR R17; T6 = T22 XOR R17; T16 = R13 XOR R19; T27 = T1 XOR R18;
          T15 = T10 XOR T27; T14 = T10 XOR R18; T26 = T3 XOR T16
      in (T1, T2, T3, T4, T6, T8, T9, T10, T13, T14, T15, T16, T17, T19, T20, T22, T23, T24,
         T25, T26, T27, Y5)))"

definition sbox_mid :: "sbox_wires \<Rightarrow> sbox_prods" where
  "sbox_mid = (\<lambda>(T1, T2, T3, T4, T6, T8, T9, T10, T13, T14, T15, T16, T17, T19, T20, T22, T23, T24, T25,
      T26, T27, Y5).
     (let M1 = T13 AND T6; M2 = T23 AND T8; M3 = T14 XOR M1; M4 = T19 AND Y5; M5 = M4 XOR M1;
          M6 = T3 AND T16; M7 = T22 AND T9; M8 = T26 XOR M6; M9 = T20 AND T17;
          M10 = M9 XOR M6; M11 = T1 AND T15; M12 = T4 AND T27; M13 = M12 XOR M11;
          M14 = T2 AND T10; M15 = M14 XOR M11; M16 = M3 XOR M2; M17 = M5 XOR T24;
          M18 = M8 XOR M7; M19 = M10 XOR M15; M20 = M16 XOR M13; M21 = M17 XOR M15;
          M22 = M18 XOR M13; M23 = M19 XOR T25; M24 = M22 XOR M23; M25 = M22 AND M20;
          M26 = M21 XOR M25; M27 = M20 XOR M21; M28 = M23 XOR M25; M29 = M28 AND M27;
          M30 = M26 AND M24; M31 = M20 AND M23; M32 = M27 AND M31; M33 = M27 XOR M25;
          M34 = M21 AND M22; M35 = M24 AND M34; M36 = M24 XOR M25; M37 = M21 XOR M29;
          M38 = M32 XOR M33; M39 = M23 XOR M30; M40 = M35 XOR M36; M41 = M38 XOR M40;
          M42 = M37 XOR M39; M43 = M37 XOR M38; M44 = M39 XOR M40; M45 = M42 XOR M41;
          M46 = M44 AND T6; M47 = M40 AND T8; M48 = M39 AND Y5; M49 = M43 AND T16;
          M50 = M38 AND T9; M51 = M37 AND T17; M52 = M42 AND T15; M53 = M45 AND T27;
          M54 = M41 AND T10; M55 = M44 AND T13; M56 = M40 AND T23; M57 = M39 AND T19;
          M58 = M43 AND T3; M59 = M38 AND T22; M60 = M37 AND T20; M61 = M42 AND T1;
          M62 = M45 AND T4; M63 = M41 AND T2
      in (M46, M47, M48, M49, M50, M51, M52, M53, M54, M55, M56, M57, M58, M59, M60, M61, M62,
         M63)))"

definition sbox_bot :: "sbox_prods \<Rightarrow> sbox_in" where
  "sbox_bot = (\<lambda>(M46, M47, M48, M49, M50, M51, M52, M53, M54, M55, M56, M57, M58, M59, M60, M61, M62, M63).
     (let L0 = M61 XOR M62; L1 = M50 XOR M56; L2 = M46 XOR M48; L3 = M47 XOR M55;
          L4 = M54 XOR M58; L5 = M49 XOR M61; L6 = M62 XOR L5; L7 = M46 XOR L3;
          L8 = M51 XOR M59; L9 = M52 XOR M53; L10 = M53 XOR L4; L11 = M60 XOR L2;
          L12 = M48 XOR M51; L13 = M50 XOR L0; L14 = M52 XOR M61; L15 = M55 XOR L1;
          L16 = M56 XOR L0; L17 = M57 XOR L1; L18 = M58 XOR L8; L19 = M63 XOR L4;
          L20 = L0 XOR L1; L21 = L1 XOR L7; L22 = L3 XOR L12; L23 = L18 XOR L2;
          L24 = L15 XOR L9; L25 = L6 XOR L10; L26 = L7 XOR L9; L27 = L8 XOR L10;
          L28 = L11 XOR L14; L29 = L11 XOR L17; S0 = L6 XOR L24; S1 = NOT (L16 XOR L26);
          S2 = NOT (L19 XOR L28); S3 = L6 XOR L21; S4 = L20 XOR L22; S5 = L25 XOR L29;
          S6 = NOT (L13 XOR L27); S7 = NOT (L6 XOR L23)
      in (S0, S1, S2, S3, S4, S5, S6, S7)))"

definition sbox_bot_inv :: "sbox_prods \<Rightarrow> sbox_in" where
  "sbox_bot_inv = (\<lambda>(M46, M47, M48, M49, M50, M51, M52, M53, M54, M55, M56, M57, M58, M59, M60, M61, M62, M63).
     (let P0 = M52 XOR M61; P1 = M58 XOR M59; P2 = M54 XOR M62; P3 = M47 XOR M50;
          P4 = M48 XOR M56; P5 = M46 XOR M51; P6 = M49 XOR M60; P7 = P0 XOR P1;
          P8 = M50 XOR M53; P9 = M55 XOR M63; P10 = M57 XOR P4; P11 = P0 XOR P3;
          P12 = M46 XOR M48; P13 = M49 XOR M51; P14 = M49 XOR M62; P15 = M54 XOR M59;
          P16 = M57 XOR M61; P17 = M58 XOR P2; P18 = M63 XOR P5; P19 = P2 XOR P3;
          P20 = P4 XOR P6; P22 = P2 XOR P7; P23 = P7 XOR P8; P24 = P5 XOR P7;
          P25 = P6 XOR P10; P26 = P9 XOR P11; P27 = P10 XOR P18; P28 = P11 XOR P25;
          P29 = P15 XOR P20; S0 = P13 XOR P22; S1 = P26 XOR P29; S2 = P17 XOR P28;
          S3 = P12 XOR P22; S4 = P23 XOR P27; S5 = P19 XOR P24; S6 = P14 XOR P23;
          S7 = P9 XOR P16
      in (S0, S1, S2, S3, S4, S5, S6, S7)))"


definition sbox_split :: "u8 \<Rightarrow> sbox_in" where
  "sbox_split U =
     (drop_bit 7 U AND 1, drop_bit 6 U AND 1, drop_bit 5 U AND 1, drop_bit 4 U AND 1,
      drop_bit 3 U AND 1, drop_bit 2 U AND 1, drop_bit 1 U AND 1, drop_bit 0 U AND 1)"

definition sbox_join :: "sbox_in \<Rightarrow> u8" where
  "sbox_join = (\<lambda>(S0, S1, S2, S3, S4, S5, S6, S7).
     push_bit 7 (S0 AND 1) OR push_bit 6 (S1 AND 1) OR push_bit 5 (S2 AND 1) OR push_bit 4 (S3 AND 1)
     OR push_bit 3 (S4 AND 1) OR push_bit 2 (S5 AND 1) OR push_bit 1 (S6 AND 1) OR push_bit 0 (S7 AND 1))"

definition aes_sbox :: "u8 \<Rightarrow> bool \<Rightarrow> u8" where
  "aes_sbox U inverse_box =
     (let M = sbox_mid (if \<not> inverse_box then sbox_top (sbox_split U) else sbox_top_inv (sbox_split U))
      in sbox_join (if \<not> inverse_box then sbox_bot M else sbox_bot_inv M))"

text \<open>The macro \<^verbatim>\<open>xtime\<close>: multiplication by \<open>x\<close> in the field of AES.\<close>

definition mix_reduce :: "u8 list" where
  "mix_reduce = [0x00, 0x1b]"

definition xtime :: "u8 \<Rightarrow> u8" where
  "xtime x = push_bit 1 x XOR mix_reduce ! unat (drop_bit 7 x)"

section \<open>Gates as bit equations\<close>

text \<open>A gate of the circuit gives an equation on the lowest bits.\<close>

lemma LetE_xor: "Let (a XOR b) f = y \<Longrightarrow> (\<And>x::u8. bit x 0 = (bit a 0 \<noteq> bit b 0) \<Longrightarrow> f x = y \<Longrightarrow> R) \<Longrightarrow> R"
  unfolding Let_def by (rule meta_mp [of "bit (a XOR b) 0 = (bit a 0 \<noteq> bit b 0)"]) (blast, simp add: bit_xor_iff)

lemma LetE_and: "Let (a AND b) f = y \<Longrightarrow> (\<And>x::u8. bit x 0 = (bit a 0 \<and> bit b 0) \<Longrightarrow> f x = y \<Longrightarrow> R) \<Longrightarrow> R"
  unfolding Let_def by (rule meta_mp [of "bit (a AND b) 0 = (bit a 0 \<and> bit b 0)"]) (blast, simp add: bit_and_iff)

lemma LetE_xnor: "Let (NOT (a XOR b)) f = y \<Longrightarrow> (\<And>x::u8. bit x 0 = (bit a 0 = bit b 0) \<Longrightarrow> f x = y \<Longrightarrow> R) \<Longrightarrow> R"
  unfolding Let_def
  by (rule meta_mp [of "bit (NOT (a XOR b)) 0 = (bit a 0 = bit b 0)"]) (blast, simp add: bit_xor_iff bit_not_iff)

lemma LetE_wire: "Let a f = y \<Longrightarrow> (\<And>x::u8. bit x 0 = bit a 0 \<Longrightarrow> f x = y \<Longrightarrow> R) \<Longrightarrow> R"
  by (simp add: Let_def)

lemmas LetE_gates = LetE_xor LetE_and LetE_xnor

lemma Let_push: "g (Let e f) = Let e (\<lambda>x. g (f x))"
  by (simp add: Let_def)

lemmas sbox_push = Let_push [of sbox_mid] Let_push [of sbox_bot] Let_push [of sbox_bot_inv]
lemmas sbox_tops = sbox_top_def sbox_top_inv_def split_conv
lemmas sbox_bots = sbox_bot_def sbox_bot_inv_def split_conv
lemmas sbox_mids = sbox_mid_def split_conv

lemma sbox_layers_inverse:
  assumes "sbox_bot (sbox_mid (sbox_top (U0, U1, U2, U3, U4, U5, U6, U7))) = (S0, S1, S2, S3, S4, S5, S6, S7)"
    and "sbox_bot_inv (sbox_mid (sbox_top_inv (V0, V1, V2, V3, V4, V5, V6, V7))) = (R0, R1, R2, R3, R4, R5, R6, R7)"
    and "bit V0 0 = bit S0 0" "bit V1 0 = bit S1 0" "bit V2 0 = bit S2 0" "bit V3 0 = bit S3 0"
      "bit V4 0 = bit S4 0" "bit V5 0 = bit S5 0" "bit V6 0 = bit S6 0" "bit V7 0 = bit S7 0"
  shows "bit R0 0 = bit U0 0 \<and> bit R1 0 = bit U1 0 \<and> bit R2 0 = bit U2 0 \<and> bit R3 0 = bit U3 0
    \<and> bit R4 0 = bit U4 0 \<and> bit R5 0 = bit U5 0 \<and> bit R6 0 = bit U6 0 \<and> bit R7 0 = bit U7 0"
  using assms
  unfolding sbox_tops unfolding sbox_push unfolding sbox_mids unfolding sbox_push unfolding sbox_bots
  apply (elim LetE_gates)
  apply (erule LetE_wire)
  apply (elim LetE_gates)
  unfolding prod.inject
  apply (elim conjE)
  apply hypsubst
  apply sat
  done

section \<open>Bits of a byte\<close>

lemma u8_eqI:
  assumes "bit x 0 = bit y 0" "bit x 1 = bit y 1" "bit x 2 = bit y 2" "bit x 3 = bit y 3"
    "bit x 4 = bit y 4" "bit x 5 = bit y 5" "bit x 6 = bit y 6" "bit x 7 = bit y 7"
  shows "x = (y :: u8)"
proof (rule bit_word_eqI)
  fix n assume "n < LENGTH(8)"
  then have "n \<in> {0, 1, 2, 3, 4, 5, 6, 7}" by auto
  then show "bit x n = bit y n" using assms by auto
qed

lemma sbox_split_bits:
  assumes "sbox_split U = (U0, U1, U2, U3, U4, U5, U6, U7)"
  shows "bit U0 0 = bit U 7" "bit U1 0 = bit U 6" "bit U2 0 = bit U 5" "bit U3 0 = bit U 4"
    "bit U4 0 = bit U 3" "bit U5 0 = bit U 2" "bit U6 0 = bit U 1" "bit U7 0 = bit U 0"
  using assms unfolding sbox_split_def prod.inject by (auto simp: bit_and_iff bit_drop_bit_eq bit_1_iff)

lemma sbox_join_bits:
  "bit (sbox_join (S0, S1, S2, S3, S4, S5, S6, S7)) 0 = bit S7 0"
  "bit (sbox_join (S0, S1, S2, S3, S4, S5, S6, S7)) 1 = bit S6 0"
  "bit (sbox_join (S0, S1, S2, S3, S4, S5, S6, S7)) 2 = bit S5 0"
  "bit (sbox_join (S0, S1, S2, S3, S4, S5, S6, S7)) 3 = bit S4 0"
  "bit (sbox_join (S0, S1, S2, S3, S4, S5, S6, S7)) 4 = bit S3 0"
  "bit (sbox_join (S0, S1, S2, S3, S4, S5, S6, S7)) 5 = bit S2 0"
  "bit (sbox_join (S0, S1, S2, S3, S4, S5, S6, S7)) 6 = bit S1 0"
  "bit (sbox_join (S0, S1, S2, S3, S4, S5, S6, S7)) 7 = bit S0 0"
  unfolding sbox_join_def split_conv bit_or_iff bit_push_bit_iff bit_and_iff bit_1_iff by simp_all

section \<open>The inverse box inverts the box\<close>

lemma sbox_in_exhaust: obtains a b c d e f g h where "(p :: sbox_in) = (a, b, c, d, e, f, g, h)"
  by (cases p) auto

lemma aes_sbox_inverse: "aes_sbox (aes_sbox U False) True = U"
proof -
  obtain U0 U1 U2 U3 U4 U5 U6 U7 where u: "sbox_split U = (U0, U1, U2, U3, U4, U5, U6, U7)"
    by (rule sbox_in_exhaust)
  obtain S0 S1 S2 S3 S4 S5 S6 S7 where s: "sbox_bot (sbox_mid (sbox_top (U0, U1, U2, U3, U4, U5, U6, U7)))
      = (S0, S1, S2, S3, S4, S5, S6, S7)" by (rule sbox_in_exhaust)
  define X where "X = aes_sbox U False"
  have X: "X = sbox_join (S0, S1, S2, S3, S4, S5, S6, S7)" by (simp add: X_def aes_sbox_def u s Let_def)
  obtain V0 V1 V2 V3 V4 V5 V6 V7 where v: "sbox_split X = (V0, V1, V2, V3, V4, V5, V6, V7)"
    by (rule sbox_in_exhaust)
  obtain R0 R1 R2 R3 R4 R5 R6 R7 where r: "sbox_bot_inv (sbox_mid (sbox_top_inv (V0, V1, V2, V3, V4, V5, V6, V7)))
      = (R0, R1, R2, R3, R4, R5, R6, R7)" by (rule sbox_in_exhaust)
  have "aes_sbox X True = sbox_join (R0, R1, R2, R3, R4, R5, R6, R7)" by (simp add: aes_sbox_def v r Let_def)
  moreover have "\<dots> = U"
    using sbox_layers_inverse [OF s r] sbox_split_bits [OF u] sbox_split_bits [OF v]
    by (intro u8_eqI) (simp_all only: sbox_join_bits X)
  ultimately show ?thesis by (simp add: X_def)
qed

section \<open>The box inverts in the field and applies the affine map\<close>

text \<open>Multiplication in the field of AES, and the affine map of the S-box with its inverse
  (FIPS 197, sections 4.2 and 5.1.1).\<close>

definition gf_mul :: "u8 \<Rightarrow> u8 \<Rightarrow> u8" where
  "gf_mul a b = fold (\<lambda>i acc. acc XOR (if bit b i then (xtime ^^ i) a else 0)) [0..<8] 0"

definition sbox_affine :: "u8 \<Rightarrow> u8" where
  "sbox_affine y = y XOR word_rotl 1 y XOR word_rotl 2 y XOR word_rotl 3 y XOR word_rotl 4 y XOR 0x63"

definition sbox_affine_inv :: "u8 \<Rightarrow> u8" where
  "sbox_affine_inv s = word_rotl 1 s XOR word_rotl 3 s XOR word_rotl 6 s XOR 0x05"

lemma xtime_bits:
  "bit (xtime x) 0 = bit x 7" "bit (xtime x) 1 = (bit x 0 \<noteq> bit x 7)" "bit (xtime x) 2 = bit x 1"
  "bit (xtime x) 3 = (bit x 2 \<noteq> bit x 7)" "bit (xtime x) 4 = (bit x 3 \<noteq> bit x 7)" "bit (xtime x) 5 = bit x 4"
  "bit (xtime x) 6 = bit x 5" "bit (xtime x) 7 = bit x 6"
proof -
  have "drop_bit 7 x = of_bool (bit x 7)"
  proof (rule bit_word_eqI)
    show "bit (drop_bit 7 x) n = bit (of_bool (bit x 7) :: u8) n" for n
      by (cases n) (auto simp: bit_drop_bit_eq bit_of_bool_iff dest: bit_imp_le_length)
  qed
  then have x: "xtime x = push_bit 1 x XOR (if bit x 7 then 0x1b else 0)" by (simp add: xtime_def mix_reduce_def)
  show "bit (xtime x) 0 = bit x 7" "bit (xtime x) 1 = (bit x 0 \<noteq> bit x 7)" "bit (xtime x) 2 = bit x 1"
    "bit (xtime x) 3 = (bit x 2 \<noteq> bit x 7)" "bit (xtime x) 4 = (bit x 3 \<noteq> bit x 7)" "bit (xtime x) 5 = bit x 4"
    "bit (xtime x) 6 = bit x 5" "bit (xtime x) 7 = bit x 6"
    unfolding x bit_xor_iff bit_push_bit_iff by simp_all
qed

lemma affine_inv_bits:
  "bit (sbox_affine_inv s) 0 = ((bit s 7 \<noteq> bit s 5) = bit s 2)"
  "bit (sbox_affine_inv s) 1 = ((bit s 0 \<noteq> bit s 6) \<noteq> bit s 3)"
  "bit (sbox_affine_inv s) 2 = ((bit s 1 \<noteq> bit s 7) = bit s 4)"
  "bit (sbox_affine_inv s) 3 = ((bit s 2 \<noteq> bit s 0) \<noteq> bit s 5)"
  "bit (sbox_affine_inv s) 4 = ((bit s 3 \<noteq> bit s 1) \<noteq> bit s 6)"
  "bit (sbox_affine_inv s) 5 = ((bit s 4 \<noteq> bit s 2) \<noteq> bit s 7)"
  "bit (sbox_affine_inv s) 6 = ((bit s 5 \<noteq> bit s 3) \<noteq> bit s 0)"
  "bit (sbox_affine_inv s) 7 = ((bit s 6 \<noteq> bit s 4) \<noteq> bit s 1)"
  by (auto simp: sbox_affine_inv_def bit_xor_iff bit_word_rotl_iff simp flip: numeral_2_eq_2)

lemma affine_bits:
  "bit (sbox_affine y) 0 = (\<not> ((((bit y 0 \<noteq> bit y 7) \<noteq> bit y 6) \<noteq> bit y 5) \<noteq> bit y 4))"
  "bit (sbox_affine y) 1 = (\<not> ((((bit y 1 \<noteq> bit y 0) \<noteq> bit y 7) \<noteq> bit y 6) \<noteq> bit y 5))"
  "bit (sbox_affine y) 2 = ((((bit y 2 \<noteq> bit y 1) \<noteq> bit y 0) \<noteq> bit y 7) \<noteq> bit y 6)"
  "bit (sbox_affine y) 3 = ((((bit y 3 \<noteq> bit y 2) \<noteq> bit y 1) \<noteq> bit y 0) \<noteq> bit y 7)"
  "bit (sbox_affine y) 4 = ((((bit y 4 \<noteq> bit y 3) \<noteq> bit y 2) \<noteq> bit y 1) \<noteq> bit y 0)"
  "bit (sbox_affine y) 5 = (\<not> ((((bit y 5 \<noteq> bit y 4) \<noteq> bit y 3) \<noteq> bit y 2) \<noteq> bit y 1))"
  "bit (sbox_affine y) 6 = (\<not> ((((bit y 6 \<noteq> bit y 5) \<noteq> bit y 4) \<noteq> bit y 3) \<noteq> bit y 2))"
  "bit (sbox_affine y) 7 = ((((bit y 7 \<noteq> bit y 6) \<noteq> bit y 5) \<noteq> bit y 4) \<noteq> bit y 3)"
  by (auto simp: sbox_affine_def bit_xor_iff bit_word_rotl_iff simp flip: numeral_2_eq_2)

lemma affine_inverse: "sbox_affine (sbox_affine_inv s) = s"
  by (rule u8_eqI; use affine_bits [of "sbox_affine_inv s"] affine_inv_bits [of s] in sat)

lemma gf_acc_bits:
  "bit (acc XOR (if c then a else 0)) k = (bit acc k \<noteq> (c \<and> bit (a :: u8) k))"
  by (simp add: bit_xor_iff)

lemma gf_mul_steps:
  obtains A1 A2 A3 A4 A5 A6 A7 c0 c1 c2 c3 c4 c5 c6 where
    "A1 = xtime a" "A2 = xtime A1" "A3 = xtime A2" "A4 = xtime A3" "A5 = xtime A4" "A6 = xtime A5" "A7 = xtime A6"
    "c0 = (if bit b 0 then a else 0)" "c1 = c0 XOR (if bit b 1 then A1 else 0)"
    "c2 = c1 XOR (if bit b 2 then A2 else 0)" "c3 = c2 XOR (if bit b 3 then A3 else 0)"
    "c4 = c3 XOR (if bit b 4 then A4 else 0)" "c5 = c4 XOR (if bit b 5 then A5 else 0)"
    "c6 = c5 XOR (if bit b 6 then A6 else 0)" "gf_mul a b = c6 XOR (if bit b 7 then A7 else 0)"
proof -
  have "[0..<8] = [0, 1, 2, 3, 4, 5, 6, 7::nat]" by (simp add: upt_rec)
  then show thesis by (rule_tac that) (rule refl | simp add: gf_mul_def numeral_eq_Suc)+
qed

lemma gf_base_bits: "bit (if c then a else 0) k = (c \<and> bit (a :: u8) k)"
  by simp

lemma sbox_layers_field:
  assumes "sbox_bot (sbox_mid (sbox_top (U0, U1, U2, U3, U4, U5, U6, U7))) = (S0, S1, S2, S3, S4, S5, S6, S7)"
    and "bit U0 0 = bit U 7" "bit U1 0 = bit U 6" "bit U2 0 = bit U 5" "bit U3 0 = bit U 4"
    "bit U4 0 = bit U 3" "bit U5 0 = bit U 2" "bit U6 0 = bit U 1" "bit U7 0 = bit U 0"
    and "bit X 7 = bit S0 0" "bit X 6 = bit S1 0" "bit X 5 = bit S2 0" "bit X 4 = bit S3 0"
    "bit X 3 = bit S4 0" "bit X 2 = bit S5 0" "bit X 1 = bit S6 0" "bit X 0 = bit S7 0"
    and y: "y = sbox_affine_inv X"
    and nz: "bit U 0 \<or> bit U 1 \<or> bit U 2 \<or> bit U 3 \<or> bit U 4 \<or> bit U 5 \<or> bit U 6 \<or> bit U 7"
  shows "bit (gf_mul U y) 0 \<and> \<not> bit (gf_mul U y) 1 \<and> \<not> bit (gf_mul U y) 2 \<and> \<not> bit (gf_mul U y) 3
    \<and> \<not> bit (gf_mul U y) 4 \<and> \<not> bit (gf_mul U y) 5 \<and> \<not> bit (gf_mul U y) 6 \<and> \<not> bit (gf_mul U y) 7"
proof -
  obtain A1 A2 A3 A4 A5 A6 A7 c0 c1 c2 c3 c4 c5 c6 where
    A: "A1 = xtime U" "A2 = xtime A1" "A3 = xtime A2" "A4 = xtime A3" "A5 = xtime A4" "A6 = xtime A5" "A7 = xtime A6"
    and c: "c0 = (if bit y 0 then U else 0)" "c1 = c0 XOR (if bit y 1 then A1 else 0)"
    "c2 = c1 XOR (if bit y 2 then A2 else 0)" "c3 = c2 XOR (if bit y 3 then A3 else 0)"
    "c4 = c3 XOR (if bit y 4 then A4 else 0)" "c5 = c4 XOR (if bit y 5 then A5 else 0)"
    "c6 = c5 XOR (if bit y 6 then A6 else 0)" "gf_mul U y = c6 XOR (if bit y 7 then A7 else 0)"
    by (rule gf_mul_steps)
  note A_bits = xtime_bits [of U, folded A(1)] xtime_bits [of A1, folded A(2)] xtime_bits [of A2, folded A(3)]
    xtime_bits [of A3, folded A(4)] xtime_bits [of A4, folded A(5)] xtime_bits [of A5, folded A(6)]
    xtime_bits [of A6, folded A(7)]
  have c0: "bit c0 k = (bit y 0 \<and> bit U k)" for k unfolding c(1) by (rule gf_base_bits)
  note c_bits =
    c0 [of 0] c0 [of 1] c0 [of 2] c0 [of 3] c0 [of 4] c0 [of 5] c0 [of 6] c0 [of 7]
    gf_acc_bits [of c0 "bit y 1" A1 0, folded c(2)] gf_acc_bits [of c0 "bit y 1" A1 1, folded c(2)] gf_acc_bits [of c0 "bit y 1" A1 2, folded c(2)] gf_acc_bits [of c0 "bit y 1" A1 3, folded c(2)] gf_acc_bits [of c0 "bit y 1" A1 4, folded c(2)] gf_acc_bits [of c0 "bit y 1" A1 5, folded c(2)] gf_acc_bits [of c0 "bit y 1" A1 6, folded c(2)] gf_acc_bits [of c0 "bit y 1" A1 7, folded c(2)]
    gf_acc_bits [of c1 "bit y 2" A2 0, folded c(3)] gf_acc_bits [of c1 "bit y 2" A2 1, folded c(3)] gf_acc_bits [of c1 "bit y 2" A2 2, folded c(3)] gf_acc_bits [of c1 "bit y 2" A2 3, folded c(3)] gf_acc_bits [of c1 "bit y 2" A2 4, folded c(3)] gf_acc_bits [of c1 "bit y 2" A2 5, folded c(3)] gf_acc_bits [of c1 "bit y 2" A2 6, folded c(3)] gf_acc_bits [of c1 "bit y 2" A2 7, folded c(3)]
    gf_acc_bits [of c2 "bit y 3" A3 0, folded c(4)] gf_acc_bits [of c2 "bit y 3" A3 1, folded c(4)] gf_acc_bits [of c2 "bit y 3" A3 2, folded c(4)] gf_acc_bits [of c2 "bit y 3" A3 3, folded c(4)] gf_acc_bits [of c2 "bit y 3" A3 4, folded c(4)] gf_acc_bits [of c2 "bit y 3" A3 5, folded c(4)] gf_acc_bits [of c2 "bit y 3" A3 6, folded c(4)] gf_acc_bits [of c2 "bit y 3" A3 7, folded c(4)]
    gf_acc_bits [of c3 "bit y 4" A4 0, folded c(5)] gf_acc_bits [of c3 "bit y 4" A4 1, folded c(5)] gf_acc_bits [of c3 "bit y 4" A4 2, folded c(5)] gf_acc_bits [of c3 "bit y 4" A4 3, folded c(5)] gf_acc_bits [of c3 "bit y 4" A4 4, folded c(5)] gf_acc_bits [of c3 "bit y 4" A4 5, folded c(5)] gf_acc_bits [of c3 "bit y 4" A4 6, folded c(5)] gf_acc_bits [of c3 "bit y 4" A4 7, folded c(5)]
    gf_acc_bits [of c4 "bit y 5" A5 0, folded c(6)] gf_acc_bits [of c4 "bit y 5" A5 1, folded c(6)] gf_acc_bits [of c4 "bit y 5" A5 2, folded c(6)] gf_acc_bits [of c4 "bit y 5" A5 3, folded c(6)] gf_acc_bits [of c4 "bit y 5" A5 4, folded c(6)] gf_acc_bits [of c4 "bit y 5" A5 5, folded c(6)] gf_acc_bits [of c4 "bit y 5" A5 6, folded c(6)] gf_acc_bits [of c4 "bit y 5" A5 7, folded c(6)]
    gf_acc_bits [of c5 "bit y 6" A6 0, folded c(7)] gf_acc_bits [of c5 "bit y 6" A6 1, folded c(7)] gf_acc_bits [of c5 "bit y 6" A6 2, folded c(7)] gf_acc_bits [of c5 "bit y 6" A6 3, folded c(7)] gf_acc_bits [of c5 "bit y 6" A6 4, folded c(7)] gf_acc_bits [of c5 "bit y 6" A6 5, folded c(7)] gf_acc_bits [of c5 "bit y 6" A6 6, folded c(7)] gf_acc_bits [of c5 "bit y 6" A6 7, folded c(7)]
    gf_acc_bits [of c6 "bit y 7" A7 0, folded c(8)] gf_acc_bits [of c6 "bit y 7" A7 1, folded c(8)] gf_acc_bits [of c6 "bit y 7" A7 2, folded c(8)] gf_acc_bits [of c6 "bit y 7" A7 3, folded c(8)] gf_acc_bits [of c6 "bit y 7" A7 4, folded c(8)] gf_acc_bits [of c6 "bit y 7" A7 5, folded c(8)] gf_acc_bits [of c6 "bit y 7" A7 6, folded c(8)] gf_acc_bits [of c6 "bit y 7" A7 7, folded c(8)]
  show ?thesis
    using assms(1-17) nz A_bits c_bits affine_inv_bits [of X, folded y]
    unfolding sbox_tops unfolding sbox_push unfolding sbox_mids unfolding sbox_push unfolding sbox_bots
    apply (elim LetE_gates)
    apply (erule LetE_wire)
    apply (elim LetE_gates)
    unfolding prod.inject
    apply (elim conjE)
    apply hypsubst
    apply (cases "bit U 7"; cases "bit U 6"; cases "bit U 5"; sat)
    done
qed

lemma sbox_layers_zero:
  assumes "sbox_bot (sbox_mid (sbox_top (U0, U1, U2, U3, U4, U5, U6, U7))) = (S0, S1, S2, S3, S4, S5, S6, S7)"
    and "\<not> bit U0 0" "\<not> bit U1 0" "\<not> bit U2 0" "\<not> bit U3 0"
    "\<not> bit U4 0" "\<not> bit U5 0" "\<not> bit U6 0" "\<not> bit U7 0"
  shows "\<not> bit S0 0 \<and> bit S1 0 \<and> bit S2 0 \<and> \<not> bit S3 0 \<and> \<not> bit S4 0 \<and> \<not> bit S5 0 \<and> bit S6 0 \<and> bit S7 0"
  using assms
  unfolding sbox_tops unfolding sbox_push unfolding sbox_mids unfolding sbox_push unfolding sbox_bots
  apply (elim LetE_gates)
  apply (erule LetE_wire)
  apply (elim LetE_gates)
  unfolding prod.inject
  apply (elim conjE)
  apply hypsubst
  apply sat
  done

lemma aes_sbox_field:
  "\<exists>y. aes_sbox U False = sbox_affine y \<and> (if U = 0 then y = 0 else gf_mul U y = 1)"
proof -
  obtain U0 U1 U2 U3 U4 U5 U6 U7 where u: "sbox_split U = (U0, U1, U2, U3, U4, U5, U6, U7)"
    by (rule sbox_in_exhaust)
  obtain S0 S1 S2 S3 S4 S5 S6 S7 where s: "sbox_bot (sbox_mid (sbox_top (U0, U1, U2, U3, U4, U5, U6, U7)))
      = (S0, S1, S2, S3, S4, S5, S6, S7)" by (rule sbox_in_exhaust)
  define X where "X = aes_sbox U False"
  have X: "X = sbox_join (S0, S1, S2, S3, S4, S5, S6, S7)" by (simp add: X_def aes_sbox_def u s Let_def)
  note ub = sbox_split_bits [OF u]
  note xb = sbox_join_bits [of S0 S1 S2 S3 S4 S5 S6 S7, folded X]
  define y where "y = sbox_affine_inv X"
  have "X = sbox_affine y" by (simp add: y_def affine_inverse)
  moreover have "y = 0" if "U = 0"
  proof -
    have "X = 0x63"
      using sbox_layers_zero [OF s] ub xb that by (intro u8_eqI) simp_all
    then show ?thesis unfolding y_def by (intro u8_eqI; unfold affine_inv_bits) simp_all
  qed
  moreover have "gf_mul U y = 1" if "U \<noteq> 0"
  proof -
    have "bit U 0 \<or> bit U 1 \<or> bit U 2 \<or> bit U 3 \<or> bit U 4 \<or> bit U 5 \<or> bit U 6 \<or> bit U 7"
      using that u8_eqI [of U 0] by auto
    from sbox_layers_field [OF s ub xb(8,7,6,5,4,3,2,1) y_def this] show ?thesis
      by (intro u8_eqI) (simp_all add: bit_1_iff)
  qed
  ultimately show ?thesis unfolding X_def by auto
qed

end
