(* ===== verification/Sw_Aes.thy ===== *)
theory Sw_Aes
  imports Sw_Aes_Sbox
begin

text \<open>
  The software AES of \<^verbatim>\<open>driver/swcrypto/sw_aes.c\<close>: key schedule, rounds, and the two ECB block
  operations. The state is the code's array of 16 bytes in row-major order (row \<open>j\<close>, column
  \<open>i\<close> at \<open>4 * j + i\<close>); loops are folds over the loop indices, array stores are list updates.
\<close>

section \<open>Key schedule\<close>

abbreviation Nb :: nat where "Nb \<equiv> 4"
abbreviation AES_BLOCK_SIZE :: nat where "AES_BLOCK_SIZE \<equiv> 16"

record sw_aes_ctx =
  aes_algo :: nat
  aes_ks :: "u32 list"

definition Rcon :: "u32 list" where
  "Rcon = [0x00, 0x01, 0x02, 0x04, 0x08, 0x10, 0x20, 0x40, 0x80, 0x1b, 0x36, 0x6c, 0xd8, 0xab, 0x4d, 0x9a]"

definition RotWord :: "u32 \<Rightarrow> u32" where
  "RotWord x = push_bit 8 x OR drop_bit 24 x"

definition SubWord :: "u32 \<Rightarrow> u32" where
  "SubWord x =
     push_bit 24 (ucast (aes_sbox (ucast (drop_bit 24 x)) False))
     OR push_bit 16 (ucast (aes_sbox (ucast (drop_bit 16 x)) False))
     OR push_bit 8 (ucast (aes_sbox (ucast (drop_bit 8 x)) False))
     OR push_bit 0 (ucast (aes_sbox (ucast (drop_bit 0 x)) False))"

definition aes_Nk :: "nat \<Rightarrow> nat" where "aes_Nk algo = algo * 2 + 4"
definition aes_Nr :: "nat \<Rightarrow> nat" where "aes_Nr algo = algo * 2 + 10"

text \<open>One word of the key, and one turn of the expansion loop; the loop variable \<open>j\<close> is part of
  the loop state.\<close>

definition key_word :: "bytes \<Rightarrow> nat \<Rightarrow> u32" where
  "key_word kptr i =
     push_bit 24 (ucast (kptr ! (i * 4 + 0))) OR push_bit 16 (ucast (kptr ! (i * 4 + 1)))
     OR push_bit 8 (ucast (kptr ! (i * 4 + 2))) OR push_bit 0 (ucast (kptr ! (i * 4 + 3)))"

definition expand_step :: "nat \<Rightarrow> nat \<Rightarrow> u32 list \<times> nat \<Rightarrow> u32 list \<times> nat" where
  "expand_step Nk i = (\<lambda>(ks, j).
     let temp = ks ! (i - 1);
         (temp, j) =
           (if j = Nk then (SubWord (RotWord temp) XOR push_bit 24 (Rcon ! (i div Nk)), 0)
            else if Nk > 6 \<and> j = 4 then (SubWord temp, j)
            else (temp, j))
     in (ks[i := ks ! (i - Nk) XOR temp], j + 1))"

definition sw_aes_setkey :: "nat \<Rightarrow> bytes \<Rightarrow> sw_aes_ctx" where
  "sw_aes_setkey algo key =
     (let Nk = aes_Nk algo; Nr = aes_Nr algo;
          ks0 = replicate 60 0;
          ks1 = fold (\<lambda>i ks. ks[i := key_word key i]) [0..<Nk] ks0;
          (ks2, j) = fold (expand_step Nk) [Nk..<Nb * (Nr + 1)] (ks1, Nk)
      in \<lparr>aes_algo = algo, aes_ks = ks2\<rparr>)"

section \<open>Rounds\<close>

definition SubBytes :: "bytes \<Rightarrow> bytes" where
  "SubBytes state = fold (\<lambda>i st. st[i := aes_sbox (st ! i) False]) [0..<AES_BLOCK_SIZE] state"

definition InvSubBytes :: "bytes \<Rightarrow> bytes" where
  "InvSubBytes state = fold (\<lambda>i st. st[i := aes_sbox (st ! i) True]) [0..<AES_BLOCK_SIZE] state"

definition ShiftRows :: "bytes \<Rightarrow> bytes" where
  "ShiftRows st =
     (let S0 = st ! (1 * 4 + 0); S1 = st ! (1 * 4 + 1); S2 = st ! (1 * 4 + 2); S3 = st ! (1 * 4 + 3);
          st = st[1 * 4 + 0 := S1, 1 * 4 + 1 := S2, 1 * 4 + 2 := S3, 1 * 4 + 3 := S0];
          S0 = st ! (2 * 4 + 0); S1 = st ! (2 * 4 + 1); S2 = st ! (2 * 4 + 2); S3 = st ! (2 * 4 + 3);
          st = st[2 * 4 + 0 := S2, 2 * 4 + 1 := S3, 2 * 4 + 2 := S0, 2 * 4 + 3 := S1];
          S0 = st ! (3 * 4 + 0); S1 = st ! (3 * 4 + 1); S2 = st ! (3 * 4 + 2); S3 = st ! (3 * 4 + 3)
      in st[3 * 4 + 0 := S3, 3 * 4 + 1 := S0, 3 * 4 + 2 := S1, 3 * 4 + 3 := S2])"

definition InvShiftRows :: "bytes \<Rightarrow> bytes" where
  "InvShiftRows st =
     (let S0 = st ! (1 * 4 + 0); S1 = st ! (1 * 4 + 1); S2 = st ! (1 * 4 + 2); S3 = st ! (1 * 4 + 3);
          st = st[1 * 4 + 0 := S3, 1 * 4 + 1 := S0, 1 * 4 + 2 := S1, 1 * 4 + 3 := S2];
          S0 = st ! (2 * 4 + 0); S1 = st ! (2 * 4 + 1); S2 = st ! (2 * 4 + 2); S3 = st ! (2 * 4 + 3);
          st = st[2 * 4 + 0 := S2, 2 * 4 + 1 := S3, 2 * 4 + 2 := S0, 2 * 4 + 3 := S1];
          S0 = st ! (3 * 4 + 0); S1 = st ! (3 * 4 + 1); S2 = st ! (3 * 4 + 2); S3 = st ! (3 * 4 + 3)
      in st[3 * 4 + 0 := S1, 3 * 4 + 1 := S2, 3 * 4 + 2 := S3, 3 * 4 + 3 := S0])"

definition mix_column :: "nat \<Rightarrow> bytes \<Rightarrow> bytes" where
  "mix_column i st =
     (let S0 = st ! (0 * 4 + i); S1 = st ! (1 * 4 + i); S2 = st ! (2 * 4 + i); S3 = st ! (3 * 4 + i);
          tmp = S0 XOR S1 XOR S2 XOR S3;
          st = st[0 * 4 + i := st ! (0 * 4 + i) XOR (xtime (S0 XOR S1) XOR tmp)];
          st = st[1 * 4 + i := st ! (1 * 4 + i) XOR (xtime (S1 XOR S2) XOR tmp)];
          st = st[2 * 4 + i := st ! (2 * 4 + i) XOR (xtime (S2 XOR S3) XOR tmp)];
          st = st[3 * 4 + i := st ! (3 * 4 + i) XOR (xtime (S3 XOR S0) XOR tmp)]
      in st)"

definition MixColumns :: "bytes \<Rightarrow> bytes" where
  "MixColumns state = fold mix_column [0..<Nb] state"

definition inv_mix_column :: "nat \<Rightarrow> bytes \<Rightarrow> bytes" where
  "inv_mix_column i st =
     (let S0_1 = st ! (0 * 4 + i); S1_1 = st ! (1 * 4 + i); S2_1 = st ! (2 * 4 + i); S3_1 = st ! (3 * 4 + i);
          S0_2 = xtime S0_1; S1_2 = xtime S1_1; S2_2 = xtime S2_1; S3_2 = xtime S3_1;
          S0_4 = xtime S0_2; S1_4 = xtime S1_2; S2_4 = xtime S2_2; S3_4 = xtime S3_2;
          S0_8 = xtime S0_4; S1_8 = xtime S1_4; S2_8 = xtime S2_4; S3_8 = xtime S3_4
      in st[0 * 4 + i := (S0_8 XOR S0_4 XOR S0_2) XOR (S1_8 XOR S1_2 XOR S1_1)
                XOR (S2_8 XOR S2_4 XOR S2_1) XOR (S3_8 XOR S3_1),
            1 * 4 + i := (S0_8 XOR S0_1) XOR (S1_8 XOR S1_4 XOR S1_2)
                XOR (S2_8 XOR S2_2 XOR S2_1) XOR (S3_8 XOR S3_4 XOR S3_1),
            2 * 4 + i := (S0_8 XOR S0_4 XOR S0_1) XOR (S1_8 XOR S1_1)
                XOR (S2_8 XOR S2_4 XOR S2_2) XOR (S3_8 XOR S3_2 XOR S3_1),
            3 * 4 + i := (S0_8 XOR S0_2 XOR S0_1) XOR (S1_8 XOR S1_4 XOR S1_1)
                XOR (S2_8 XOR S2_1) XOR (S3_8 XOR S3_4 XOR S3_2)])"

definition InvMixColumns :: "bytes \<Rightarrow> bytes" where
  "InvMixColumns state = fold inv_mix_column [0..<Nb] state"

text \<open>The second argument is the pointer \<^verbatim>\<open>w\<close> into the key schedule: the words from there on.\<close>

definition AddRoundKey :: "bytes \<Rightarrow> u32 list \<Rightarrow> bytes" where
  "AddRoundKey state w =
     fold (\<lambda>i st.
        let st = st[0 * Nb + i := st ! (0 * Nb + i) XOR ucast (drop_bit 24 (w ! i))];
            st = st[1 * Nb + i := st ! (1 * Nb + i) XOR ucast (drop_bit 16 (w ! i))];
            st = st[2 * Nb + i := st ! (2 * Nb + i) XOR ucast (drop_bit 8 (w ! i))]
        in st[3 * Nb + i := st ! (3 * Nb + i) XOR ucast (drop_bit 0 (w ! i))]) [0..<Nb] state"

section \<open>Block operations\<close>

text \<open>The copy loops between a block and the state; \<^verbatim>\<open>inptr\<close> and \<^verbatim>\<open>outptr\<close> advance by one byte
  per turn of the inner loop.\<close>

definition load_state :: "bytes \<Rightarrow> bytes" where
  "load_state inp = fold (\<lambda>k st. st[(k mod 4) * Nb + k div 4 := inp ! k]) [0..<AES_BLOCK_SIZE] (replicate AES_BLOCK_SIZE 0)"

definition store_state :: "bytes \<Rightarrow> bytes" where
  "store_state st = map (\<lambda>k. st ! ((k mod 4) * Nb + k div 4)) [0..<AES_BLOCK_SIZE]"

definition enc_round :: "u32 list \<Rightarrow> nat \<Rightarrow> bytes \<Rightarrow> bytes" where
  "enc_round ks round st = AddRoundKey (MixColumns (ShiftRows (SubBytes st))) (drop (round * Nb) ks)"

definition dec_round :: "u32 list \<Rightarrow> nat \<Rightarrow> bytes \<Rightarrow> bytes" where
  "dec_round ks round st = InvMixColumns (AddRoundKey (InvSubBytes (InvShiftRows st)) (drop (round * Nb) ks))"

definition sw_aes_ecb_encrypt :: "sw_aes_ctx \<Rightarrow> bytes \<Rightarrow> bytes" where
  "sw_aes_ecb_encrypt ctx data_in =
     (let Nr = aes_Nr (aes_algo ctx); ks = aes_ks ctx;
          st = load_state data_in;
          st = AddRoundKey st (drop (0 * Nb) ks);
          st = fold (enc_round ks) [1..<Nr] st;
          st = AddRoundKey (ShiftRows (SubBytes st)) (drop (Nr * Nb) ks)
      in store_state st)"

definition sw_aes_ecb_decrypt :: "sw_aes_ctx \<Rightarrow> bytes \<Rightarrow> bytes" where
  "sw_aes_ecb_decrypt ctx data_in =
     (let Nr = aes_Nr (aes_algo ctx); ks = aes_ks ctx;
          st = load_state data_in;
          st = AddRoundKey st (drop (Nr * Nb) ks);
          st = fold (dec_round ks) (rev [1..<Nr]) st;
          st = AddRoundKey (InvSubBytes (InvShiftRows st)) (drop (0 * Nb) ks)
      in store_state st)"

section \<open>The inverse operations\<close>

lemma list16E:
  assumes "length xs = 16"
  obtains a0 a1 a2 a3 a4 a5 a6 a7 a8 a9 a10 a11 a12 a13 a14 a15
  where "xs = [a0, a1, a2, a3, a4, a5, a6, a7, a8, a9, a10, a11, a12, a13, a14, a15]"
  using assms by (auto simp: length_Suc_conv numeral_eq_Suc)

lemma upt_4: "[0..<4] = [0, 1, 2, 3::nat]" and upt_16: "[0..<16] = [0, 1, 2, 3, 4, 5, 6, 7, 8, 9, 10, 11, 12, 13, 14, 15::nat]"
  by (simp_all add: upt_rec)

lemma fold_length: "(\<And>i st. length (f i st) = length st) \<Longrightarrow> length (fold f is st) = length st"
  by (induction "is" arbitrary: st) simp_all

lemma aes_length [simp]:
  "length (SubBytes st) = length st" "length (InvSubBytes st) = length st"
  "length (ShiftRows st) = length st" "length (InvShiftRows st) = length st"
  "length (MixColumns st) = length st" "length (InvMixColumns st) = length st"
  "length (AddRoundKey st w) = length st" "length (store_state st) = 16" "length (load_state st) = 16"
  by (simp_all add: SubBytes_def InvSubBytes_def ShiftRows_def InvShiftRows_def MixColumns_def InvMixColumns_def
      AddRoundKey_def store_state_def load_state_def mix_column_def inv_mix_column_def Let_def fold_length)

lemma ShiftRows_inverse: "length st = 16 \<Longrightarrow> InvShiftRows (ShiftRows st) = st"
  by (elim list16E) (simp add: ShiftRows_def InvShiftRows_def Let_def)

lemma SubBytes_inverse: "length st = 16 \<Longrightarrow> InvSubBytes (SubBytes st) = st"
  by (elim list16E) (simp add: SubBytes_def InvSubBytes_def upt_16 aes_sbox_inverse)

lemma AddRoundKey_inverse: "length st = 16 \<Longrightarrow> AddRoundKey (AddRoundKey st w) w = st"
  by (elim list16E) (simp add: AddRoundKey_def upt_4 Let_def)

lemma replicate_16: "replicate 16 x = [x, x, x, x, x, x, x, x, x, x, x, x, x, x, x, x]"
  by (simp add: numeral_eq_Suc)

lemma load_store: "length st = 16 \<Longrightarrow> load_state (store_state st) = st"
  by (elim list16E) (simp add: load_state_def store_state_def upt_16 replicate_16 numeral_2_eq_2)

lemma store_load: "length b = 16 \<Longrightarrow> store_state (load_state b) = b"
  by (elim list16E) (simp add: load_state_def store_state_def upt_16 replicate_16 numeral_2_eq_2)

lemma xtime_xor: "xtime (a XOR b) = xtime a XOR xtime b"
  by (rule u8_eqI; unfold bit_xor_iff xtime_bits) auto

text \<open>The rows of a mixed column are one function of the rotated column, and so are the rows of
  the inverse.\<close>

definition mix_row :: "u8 \<Rightarrow> u8 \<Rightarrow> u8 \<Rightarrow> u8 \<Rightarrow> u8" where
  "mix_row a b c d = a XOR (xtime (a XOR b) XOR (a XOR b XOR c XOR d))"

definition inv_mix_row :: "u8 \<Rightarrow> u8 \<Rightarrow> u8 \<Rightarrow> u8 \<Rightarrow> u8" where
  "inv_mix_row a b c d =
     (xtime (xtime (xtime a)) XOR xtime (xtime a) XOR xtime a) XOR (xtime (xtime (xtime b)) XOR xtime b XOR b)
     XOR (xtime (xtime (xtime c)) XOR xtime (xtime c) XOR c) XOR (xtime (xtime (xtime d)) XOR d)"

lemmas xor_ac = xor.assoc xor.commute xor.left_commute

lemma mix_row_inverse:
  "inv_mix_row (mix_row a b c d) (mix_row b c d a) (mix_row c d a b) (mix_row d a b c) = a"
  unfolding inv_mix_row_def mix_row_def xtime_xor by (simp add: xor_ac)

lemma mix_row_rot:
  "a XOR (xtime (a XOR b) XOR (a XOR b XOR c XOR d)) = mix_row a b c d"
  "b XOR (xtime (b XOR c) XOR (a XOR b XOR c XOR d)) = mix_row b c d a"
  "c XOR (xtime (c XOR d) XOR (a XOR b XOR c XOR d)) = mix_row c d a b"
  "d XOR (xtime (d XOR a) XOR (a XOR b XOR c XOR d)) = mix_row d a b c"
  by (simp_all add: mix_row_def xor_ac)

lemma inv_mix_row_rot:
  fixes a1 a2 a4 a8 :: u8
  assumes "a2 = xtime a1" "a4 = xtime a2" "a8 = xtime a4" "b2 = xtime b1" "b4 = xtime b2" "b8 = xtime b4"
    "c2 = xtime c1" "c4 = xtime c2" "c8 = xtime c4" "d2 = xtime d1" "d4 = xtime d2" "d8 = xtime d4"
  shows
  "(a8 XOR a4 XOR a2) XOR (b8 XOR b2 XOR b1) XOR (c8 XOR c4 XOR c1) XOR (d8 XOR d1) = inv_mix_row a1 b1 c1 d1"
  "(a8 XOR a1) XOR (b8 XOR b4 XOR b2) XOR (c8 XOR c2 XOR c1) XOR (d8 XOR d4 XOR d1) = inv_mix_row b1 c1 d1 a1"
  "(a8 XOR a4 XOR a1) XOR (b8 XOR b1) XOR (c8 XOR c4 XOR c2) XOR (d8 XOR d2 XOR d1) = inv_mix_row c1 d1 a1 b1"
  "(a8 XOR a2 XOR a1) XOR (b8 XOR b4 XOR b1) XOR (c8 XOR c1) XOR (d8 XOR d4 XOR d2) = inv_mix_row d1 a1 b1 c1"
  unfolding assms by (simp_all add: inv_mix_row_def xor_ac)

lemma MixColumns_rows:
  "MixColumns [a0, a1, a2, a3, b0, b1, b2, b3, c0, c1, c2, c3, d0, d1, d2, d3] =
     [mix_row a0 b0 c0 d0, mix_row a1 b1 c1 d1, mix_row a2 b2 c2 d2, mix_row a3 b3 c3 d3,
      mix_row b0 c0 d0 a0, mix_row b1 c1 d1 a1, mix_row b2 c2 d2 a2, mix_row b3 c3 d3 a3,
      mix_row c0 d0 a0 b0, mix_row c1 d1 a1 b1, mix_row c2 d2 a2 b2, mix_row c3 d3 a3 b3,
      mix_row d0 a0 b0 c0, mix_row d1 a1 b1 c1, mix_row d2 a2 b2 c2, mix_row d3 a3 b3 c3]"
  by (simp add: MixColumns_def upt_4 mix_column_def Let_def mix_row_rot)

lemma InvMixColumns_rows:
  "InvMixColumns [a0, a1, a2, a3, b0, b1, b2, b3, c0, c1, c2, c3, d0, d1, d2, d3] =
     [inv_mix_row a0 b0 c0 d0, inv_mix_row a1 b1 c1 d1, inv_mix_row a2 b2 c2 d2, inv_mix_row a3 b3 c3 d3,
      inv_mix_row b0 c0 d0 a0, inv_mix_row b1 c1 d1 a1, inv_mix_row b2 c2 d2 a2, inv_mix_row b3 c3 d3 a3,
      inv_mix_row c0 d0 a0 b0, inv_mix_row c1 d1 a1 b1, inv_mix_row c2 d2 a2 b2, inv_mix_row c3 d3 a3 b3,
      inv_mix_row d0 a0 b0 c0, inv_mix_row d1 a1 b1 c1, inv_mix_row d2 a2 b2 c2, inv_mix_row d3 a3 b3 c3]"
  by (simp add: InvMixColumns_def upt_4 inv_mix_column_def Let_def inv_mix_row_rot [OF refl refl refl refl refl refl refl refl refl refl refl refl])

lemma MixColumns_inverse: "length st = 16 \<Longrightarrow> InvMixColumns (MixColumns st) = st"
  by (elim list16E) (simp add: MixColumns_rows InvMixColumns_rows mix_row_inverse)

section \<open>Decryption inverts encryption\<close>

lemma enc_round_length [simp]: "length (enc_round ks r st) = length st" "length (dec_round ks r st) = length st"
  by (simp_all add: enc_round_def dec_round_def)

lemma fold_enc_length [simp]: "length (fold (enc_round ks) rs st) = length st"
  by (induction rs arbitrary: st) simp_all

text \<open>One decryption round undoes one encryption round, shifted by the substitution and the row
  shift.\<close>

lemma dec_round_inverse:
  "length st = 16 \<Longrightarrow> dec_round ks r (ShiftRows (SubBytes (enc_round ks r st))) = ShiftRows (SubBytes st)"
  by (simp add: dec_round_def enc_round_def ShiftRows_inverse SubBytes_inverse AddRoundKey_inverse MixColumns_inverse)

lemma dec_rounds_inverse:
  "length st = 16 \<Longrightarrow> fold (dec_round ks) (rev rs) (ShiftRows (SubBytes (fold (enc_round ks) rs st)))
     = ShiftRows (SubBytes st)"
  by (induction rs rule: rev_induct) (simp_all add: dec_round_inverse)

lemma ecb_decrypt_encrypt:
  "length p = 16 \<Longrightarrow> sw_aes_ecb_decrypt ctx (sw_aes_ecb_encrypt ctx p) = p"
  unfolding sw_aes_ecb_decrypt_def sw_aes_ecb_encrypt_def Let_def
  by (simp add: load_store store_load AddRoundKey_inverse dec_rounds_inverse ShiftRows_inverse SubBytes_inverse)

lemma ecb_length [simp]: "length (sw_aes_ecb_encrypt ctx p) = 16" "length (sw_aes_ecb_decrypt ctx p) = 16"
  by (simp_all add: sw_aes_ecb_encrypt_def sw_aes_ecb_decrypt_def Let_def)

section \<open>The key schedule follows the standard\<close>

text \<open>The recurrence of FIPS 197, Figure 11, for the word with index \<open>i\<close>.\<close>

definition fips_word :: "nat \<Rightarrow> u32 list \<Rightarrow> nat \<Rightarrow> u32" where
  "fips_word Nk w i =
     w ! (i - Nk) XOR
       (if i mod Nk = 0 then SubWord (RotWord (w ! (i - 1))) XOR push_bit 24 (Rcon ! (i div Nk))
        else if Nk > 6 \<and> i mod Nk = 4 then SubWord (w ! (i - 1))
        else w ! (i - 1))"

definition sched_ok :: "nat \<Rightarrow> bytes \<Rightarrow> nat \<Rightarrow> u32 list \<Rightarrow> bool" where
  "sched_ok Nk key n w \<longleftrightarrow> length w = 60 \<and> (\<forall>i < Nk. w ! i = key_word key i) \<and> (\<forall>i < n. Nk \<le> i \<longrightarrow> w ! i = fips_word Nk w i)"

text \<open>The loop counter \<open>j\<close> stands for \<open>i mod Nk\<close>, with \<open>Nk\<close> for 0.\<close>

lemma expand_step_ok:
  assumes ok: "sched_ok Nk key i ks" and j: "0 < j" "j \<le> Nk" "j mod Nk = i mod Nk" and i: "Nk \<le> i" "i < 60" and Nk: "4 \<le> Nk"
  obtains ks' j' where "expand_step Nk i (ks, j) = (ks', j')" "sched_ok Nk key (Suc i) ks'"
    "0 < j'" "j' \<le> Nk" "j' mod Nk = Suc i mod Nk"
proof -
  define ks' where "ks' = ks[i := fips_word Nk ks i]"
  define j' where "j' = (if j = Nk then 1 else j + 1)"
  have jm: "(j = Nk) = (i mod Nk = 0)" "j \<noteq> Nk \<Longrightarrow> i mod Nk = j"
    using j by (auto simp: le_less)
  have step: "expand_step Nk i (ks, j) = (ks', j')"
    using jm(1) jm(2) [symmetric] by (cases "j = Nk") (simp_all add: expand_step_def ks'_def j'_def fips_word_def Let_def)
  have same: "fips_word Nk ks' k = fips_word Nk ks k" if "k \<le> i" "Nk \<le> k" for k
    using that Nk by (simp add: fips_word_def ks'_def)
  have "sched_ok Nk key (Suc i) ks'"
    unfolding sched_ok_def
  proof (intro conjI allI impI)
    show "length ks' = 60" using ok by (simp add: ks'_def sched_ok_def)
    show "ks' ! k = key_word key k" if "k < Nk" for k using ok that i by (simp add: ks'_def sched_ok_def)
    show "ks' ! k = fips_word Nk ks' k" if "k < Suc i" "Nk \<le> k" for k
      using that ok i same [of k] by (cases "k = i") (auto simp: ks'_def sched_ok_def)
  qed
  moreover have "0 < j'" "j' \<le> Nk" using j by (auto simp: j'_def)
  moreover have "j' mod Nk = Suc i mod Nk"
    using jm Nk j(2) by (cases "j = Nk") (auto simp: j'_def mod_Suc le_less)
  ultimately show thesis using that step by blast
qed

lemma expand_loop_ok:
  assumes "sched_ok Nk key Nk ks" "4 \<le> Nk" "Nk \<le> n" "n \<le> 60"
  shows "\<exists>ks' j. fold (expand_step Nk) [Nk..<n] (ks, Nk) = (ks', j) \<and> sched_ok Nk key n ks'
    \<and> 0 < j \<and> j \<le> Nk \<and> j mod Nk = n mod Nk"
  using assms(3,4)
proof (induction n rule: dec_induct)
  case base
  then show ?case using assms(1,2) by auto
next
  case (step n)
  then obtain ks' j where *: "fold (expand_step Nk) [Nk..<n] (ks, Nk) = (ks', j)" "sched_ok Nk key n ks'"
    "0 < j" "j \<le> Nk" "j mod Nk = n mod Nk" by auto
  have "n < 60" using step by simp
  obtain ks2 j2 where "expand_step Nk n (ks', j) = (ks2, j2)" "sched_ok Nk key (Suc n) ks2"
    "0 < j2" "j2 \<le> Nk" "j2 mod Nk = Suc n mod Nk"
    by (rule expand_step_ok [OF *(2-5) step(1) \<open>n < 60\<close> assms(2)])
  then show ?case using * step(1) by auto
qed

lemma key_words_ok:
  assumes "Nk \<le> 60"
  shows "sched_ok Nk key Nk (fold (\<lambda>i ks. ks[i := key_word key i]) [0..<Nk] (replicate 60 0))"
proof -
  have "length (fold (\<lambda>i ks. ks[i := key_word key i]) [0..<n] (replicate 60 0)) = 60
    \<and> (\<forall>k < n. fold (\<lambda>i ks. ks[i := key_word key i]) [0..<n] (replicate 60 0) ! k = key_word key k)"
    if "n \<le> 60" for n
    using that by (induction n) (auto simp: nth_list_update less_Suc_eq)
  then show ?thesis using assms by (simp add: sched_ok_def)
qed

lemma setkey_sched:
  assumes "algo \<le> 2"
  shows "sched_ok (aes_Nk algo) key (4 * (aes_Nr algo + 1)) (aes_ks (sw_aes_setkey algo key))"
proof -
  have *: "4 \<le> aes_Nk algo" "aes_Nk algo \<le> 4 * (aes_Nr algo + 1)" "4 * (aes_Nr algo + 1) \<le> 60" "aes_Nk algo \<le> 60"
    using assms by (auto simp: aes_Nk_def aes_Nr_def)
  from expand_loop_ok [OF key_words_ok [OF *(4), of key] *(1-3)] show ?thesis
    by (auto simp: sw_aes_setkey_def Let_def)
qed

section \<open>Properties\<close>

text \<open>
  C4. For every key schedule and every 16-byte block, decryption inverts encryption.
\<close>

theorem aes_ecb_roundtrip:
  assumes "length p = AES_BLOCK_SIZE"
  shows "sw_aes_ecb_decrypt ctx (sw_aes_ecb_encrypt ctx p) = p"
  using assms by (rule ecb_decrypt_encrypt)

theorem aes_ecb_roundtrip_witness:
  "sw_aes_ecb_decrypt (sw_aes_setkey 2 (replicate 32 7)) (sw_aes_ecb_encrypt (sw_aes_setkey 2 (replicate 32 7)) (replicate 16 1))
     = replicate 16 1"
  by (rule aes_ecb_roundtrip) simp

text \<open>
  For the three key sizes, the expanded key starts with the key words and every later word
  satisfies the recurrence of FIPS 197: the counter \<open>j\<close> of the loop is the index modulo the key
  length.
\<close>

theorem aes_key_schedule_fips:
  assumes "algo \<le> 2" "w = aes_ks (sw_aes_setkey algo key)"
  shows "(\<forall>i < aes_Nk algo. w ! i = key_word key i)
    \<and> (\<forall>i < 4 * (aes_Nr algo + 1). aes_Nk algo \<le> i \<longrightarrow> w ! i = fips_word (aes_Nk algo) w i)"
  using setkey_sched [OF assms(1), of key] unfolding assms(2) sched_ok_def by blast

theorem aes_key_schedule_fips_witness:
  "aes_ks (sw_aes_setkey 0 (replicate 16 1)) ! 4 = fips_word 4 (aes_ks (sw_aes_setkey 0 (replicate 16 1))) 4"
  using aes_key_schedule_fips [of 0, OF _ refl, of "replicate 16 1"] by (auto simp: aes_Nk_def aes_Nr_def)


text \<open>
  The inverse circuit undoes the S-box on every byte.
\<close>

theorem aes_sbox_roundtrip: "aes_sbox (aes_sbox U False) True = U"
  by (rule aes_sbox_inverse)

end
