(* ===== verification/Aes_Modes.thy ===== *)
theory Aes_Modes
  imports Sw_Aes
begin

text \<open>
  From the AES driver to the modes of operation: \<^verbatim>\<open>driver/aes_driver.c\<close> (\<^verbatim>\<open>msel_do_aes\<close> with the
  software implementation), the task-side wrappers of \<^verbatim>\<open>lib/crypto/aes.c\<close>, and XTS mode,
  \<^verbatim>\<open>lib/crypto/aes_xts.c\<close>.
\<close>

section \<open>The driver\<close>

record aes_driver_ctx =
  drv_enc :: bool
  drv_key_size :: nat
  drv_key :: bytes
  drv_din :: bytes
  drv_dout :: bytes
  drv_data_len :: nat

text \<open>The status and the contents of \<^verbatim>\<open>dout\<close> after the call.\<close>

definition msel_do_aes :: "aes_driver_ctx \<Rightarrow> msel_status \<times> bytes" where
  "msel_do_aes ctx =
     (if drv_key_size ctx > 2 then (MSEL_EINVAL, drv_dout ctx)
      else if drv_data_len ctx mod 16 \<noteq> 0 then (MSEL_EINVAL, drv_dout ctx)
      else let sw = sw_aes_setkey (drv_key_size ctx) (drv_key ctx)
           in (MSEL_OK,
               fold (\<lambda>b out.
                   let i = b * AES_BLOCK_SIZE;
                       din = take AES_BLOCK_SIZE (drop i (drv_din ctx));
                       dout = (if drv_enc ctx then sw_aes_ecb_encrypt sw din else sw_aes_ecb_decrypt sw din)
                   in blit out i dout)
                 [0..<drv_data_len ctx div AES_BLOCK_SIZE] (drv_dout ctx)))"

section \<open>The task-side calls\<close>

record aes_ctx =
  actx_algo :: nat
  actx_key :: bytes

definition aes_setkey :: "nat \<Rightarrow> bytes \<Rightarrow> aes_ctx" where
  "aes_setkey algo key = \<lparr>actx_algo = algo, actx_key = key\<rparr>"

definition aes_ecb_encrypt :: "aes_ctx \<Rightarrow> bytes \<Rightarrow> bytes \<Rightarrow> bytes" where
  "aes_ecb_encrypt ctx data_in data_out =
     snd (msel_do_aes \<lparr>drv_enc = True, drv_key_size = actx_algo ctx, drv_key = actx_key ctx,
            drv_din = data_in, drv_dout = data_out, drv_data_len = 16\<rparr>)"

definition aes_ecb_decrypt :: "aes_ctx \<Rightarrow> bytes \<Rightarrow> bytes \<Rightarrow> bytes" where
  "aes_ecb_decrypt ctx data_in data_out =
     snd (msel_do_aes \<lparr>drv_enc = False, drv_key_size = actx_algo ctx, drv_key = actx_key ctx,
            drv_din = data_in, drv_dout = data_out, drv_data_len = 16\<rparr>)"

section \<open>XTS\<close>

record aes_xts_ctx =
  xts_algo :: nat
  xts_t_ctx :: aes_ctx
  xts_e_ctx :: aes_ctx

abbreviation AES_XTS_128 :: nat where "AES_XTS_128 \<equiv> 0"
abbreviation AES_XTS_256 :: nat where "AES_XTS_256 \<equiv> 2"

text \<open>An algorithm other than the two supported ones sets the field and leaves the contexts.\<close>

definition aes_xts_setkey :: "aes_xts_ctx \<Rightarrow> nat \<Rightarrow> bytes \<Rightarrow> aes_xts_ctx" where
  "aes_xts_setkey ctx algo key =
     (if algo = AES_XTS_128 \<or> algo = AES_XTS_256 then
        let subalgo = (if algo = AES_XTS_128 then 0 else 2);
            subkey_size = (if algo = AES_XTS_128 then 128 div 8 else 256 div 8)
        in \<lparr>xts_algo = algo, xts_t_ctx = aes_setkey subalgo (drop subkey_size key),
            xts_e_ctx = aes_setkey subalgo key\<rparr>
      else ctx\<lparr>xts_algo := algo\<rparr>)"

definition gf_mulx_reduce :: bytes where "gf_mulx_reduce = [0x00, 0x87]"

definition xts_tweak :: "u64 \<Rightarrow> bytes" where
  "xts_tweak sequence =
     fst (fold (\<lambda>j (T, sequence). (T[j := ucast sequence], drop_bit 8 sequence)) [0..<AES_BLOCK_SIZE]
            (replicate AES_BLOCK_SIZE 0, sequence))"

definition mulx_step :: "nat \<Rightarrow> bytes \<times> u8 \<Rightarrow> bytes \<times> u8" where
  "mulx_step j = (\<lambda>(T, Cin).
     let Cout = drop_bit 7 (T ! j) in (T[j := push_bit 1 (T ! j) OR Cin], Cout))"

definition xts_mulx :: "bytes \<Rightarrow> bytes" where
  "xts_mulx T =
     (let (T, Cout) = fold mulx_step [0..<AES_BLOCK_SIZE] (T, 0)
      in T[0 := T ! 0 XOR gf_mulx_reduce ! unat Cout])"

text \<open>The loop over the blocks, for the block operation \<open>cipher\<close>: encryption and decryption
  differ only in that call.\<close>

fun xts_loop :: "(bytes \<Rightarrow> bytes) \<Rightarrow> nat \<Rightarrow> bytes \<Rightarrow> bytes \<Rightarrow> bytes" where
  "xts_loop cipher 0 T din = []"
| "xts_loop cipher (Suc n) T din =
     (let x = xor_bytes (take AES_BLOCK_SIZE din) T;
          x = cipher x
      in xor_bytes x T @ xts_loop cipher n (xts_mulx T) (drop AES_BLOCK_SIZE din))"

definition aes_xts_encrypt :: "aes_xts_ctx \<Rightarrow> bytes \<Rightarrow> nat \<Rightarrow> u64 \<Rightarrow> bytes" where
  "aes_xts_encrypt ctx data_in block_count sequence =
     (let T = xts_tweak sequence;
          T = aes_ecb_encrypt (xts_t_ctx ctx) T T
      in xts_loop (\<lambda>x. aes_ecb_encrypt (xts_e_ctx ctx) x x) block_count T data_in)"

definition aes_xts_decrypt :: "aes_xts_ctx \<Rightarrow> bytes \<Rightarrow> nat \<Rightarrow> u64 \<Rightarrow> bytes" where
  "aes_xts_decrypt ctx data_in block_count sequence =
     (let T = xts_tweak sequence;
          T = aes_ecb_encrypt (xts_t_ctx ctx) T T
      in xts_loop (\<lambda>x. aes_ecb_decrypt (xts_e_ctx ctx) x x) block_count T data_in)"

section \<open>The block cipher interface\<close>

text \<open>What the modes rely on: for a valid key the block operations keep the block length and
  decryption inverts encryption.\<close>

locale block_cipher =
  fixes valid :: "'k \<Rightarrow> bool" and enc dec :: "'k \<Rightarrow> bytes \<Rightarrow> bytes"
  assumes enc_length: "valid k \<Longrightarrow> length p = 16 \<Longrightarrow> length (enc k p) = 16"
    and dec_length: "valid k \<Longrightarrow> length p = 16 \<Longrightarrow> length (dec k p) = 16"
    and dec_enc: "valid k \<Longrightarrow> length p = 16 \<Longrightarrow> dec k (enc k p) = p"
begin

lemma xts_loop_length:
  assumes "valid k" "length T = 16" "length d = 16 * n" "\<And>T. length (xts_mulx T) = length T"
  shows "length (xts_loop (enc k) n T d) = 16 * n"
  using assms(2,3) by (induction n arbitrary: T d) (simp_all add: assms(1,4) enc_length Let_def)

lemma xts_roundtrip:
  assumes "valid k" "length T = 16" "length d = 16 * n" "\<And>T. length (xts_mulx T) = length T"
  shows "xts_loop (dec k) n T (xts_loop (enc k) n T d) = d"
  using assms(2,3)
proof (induction n arbitrary: T d)
  case (Suc n)
  define x where "x = xor_bytes (take 16 d) T"
  have x: "length x = 16" using Suc.prems by (simp add: x_def)
  define c where "c = xor_bytes (enc k x) T"
  have c: "length c = 16" using Suc.prems enc_length [OF assms(1) x] by (simp add: c_def)
  have "xor_bytes c T = enc k x"
    using Suc.prems enc_length [OF assms(1) x] by (simp add: c_def xor_bytes_cancel)
  then have "xor_bytes (dec k (xor_bytes c T)) T = take 16 d"
    using Suc.prems dec_enc [OF assms(1) x] by (simp add: x_def xor_bytes_cancel)
  moreover have "xts_loop (dec k) n (xts_mulx T) (xts_loop (enc k) n (xts_mulx T) (drop 16 d)) = drop 16 d"
    using Suc.prems by (intro Suc.IH) (simp_all add: assms(4))
  ultimately show ?case
    using c by (simp add: Let_def x_def [symmetric] c_def [symmetric])
qed simp

end

definition aes_valid :: "aes_ctx \<Rightarrow> bool" where
  "aes_valid ctx \<longleftrightarrow> actx_algo ctx \<le> 2"

lemma aes_ecb_valid:
  assumes "aes_valid ctx" "length p = 16" "length out = 16"
  shows "aes_ecb_encrypt ctx p out = sw_aes_ecb_encrypt (sw_aes_setkey (actx_algo ctx) (actx_key ctx)) p"
    and "aes_ecb_decrypt ctx p out = sw_aes_ecb_decrypt (sw_aes_setkey (actx_algo ctx) (actx_key ctx)) p"
  using assms by (simp_all add: aes_valid_def aes_ecb_encrypt_def aes_ecb_decrypt_def msel_do_aes_def Let_def)

interpretation aes: block_cipher aes_valid "\<lambda>ctx p. aes_ecb_encrypt ctx p p" "\<lambda>ctx p. aes_ecb_decrypt ctx p p"
  by unfold_locales (simp_all add: aes_ecb_valid ecb_decrypt_encrypt)

section \<open>Tweak arithmetic\<close>

lemma mulx_length: "length (fst (mulx_step j s)) = length (fst s)"
  by (simp add: mulx_step_def Let_def split: prod.split)

lemma mulx_fold_length: "length (fst (fold mulx_step js s)) = length (fst s)"
  by (induction js arbitrary: s) (simp_all add: mulx_length)

lemma xts_mulx_length [simp]: "length (xts_mulx T) = length T"
  using mulx_fold_length [of "[0..<16]" "(T, 0)"] by (auto simp: xts_mulx_def Let_def prod.case_eq_if)

lemma xts_tweak_length [simp]: "length (xts_tweak s) = 16"
proof -
  have "length (fst (fold (\<lambda>j (T, q). (T[j := ucast q], drop_bit 8 q)) js (T, q))) = length (T :: bytes)"
    for js T and q :: u64 by (induction js arbitrary: T q) simp_all
  then show ?thesis by (simp add: xts_tweak_def)
qed

text \<open>A byte of the shift with its carries.\<close>

lemma mulx_byte:
  assumes "c = 0 \<or> c = (1 :: u8)"
  shows "unat (push_bit 1 b OR c) + 256 * unat (drop_bit 7 b) = 2 * unat b + unat c"
    "drop_bit 7 b = 0 \<or> drop_bit 7 b = 1"
proof -
  have d: "unat (drop_bit 7 b) = unat b div 128" 
    unfolding unsigned_drop_bit_eq by (simp add: drop_bit_eq_div take_bit_eq_mod)
  then have "unat (drop_bit 7 b) < 2" using unat_u8_less [of b] by linarith
  then show "drop_bit 7 b = 0 \<or> drop_bit 7 b = 1"
    by (auto simp: word_unat_eq_iff less_2_cases_iff)
  have p: "unat (push_bit 1 b) = 2 * unat b mod 256" 
    unfolding unsigned_push_bit_eq by (simp add: take_bit_eq_mod push_bit_eq_mult mult.commute)
  have "unat (push_bit 1 b OR c) = 2 * unat b mod 256 + unat c"
  proof (cases "c = 0")
    case False
    then have "push_bit 1 b OR c = push_bit 1 b + 1" using assms by (simp add: or_one_eq)
    moreover have "unat (push_bit 1 b + 1) = unat (push_bit 1 b) + 1"
    proof -
      have "2 * unat b mod 256 < 255" by presburger
      then have "unat (push_bit 1 b) + unat (1 :: u8) < 2 ^ LENGTH(8)" unfolding p by simp
      then have "unat (push_bit 1 b + 1) = unat (push_bit 1 b) + unat (1 :: u8)" by (rule unat_add_lem [THEN iffD1])
      then show ?thesis by (simp only: unat_1)
    qed
    ultimately show ?thesis using p assms False by simp
  qed (use p in simp)
  moreover have "2 * unat b mod 256 + 256 * (unat b div 128) = 2 * unat b"
    using mult_div_mod_eq [of 256 "2 * unat b"] by simp
  ultimately show "unat (push_bit 1 b OR c) + 256 * unat (drop_bit 7 b) = 2 * unat b + unat c"
    using d by simp
qed

lemma mulx_loop:
  assumes "k \<le> length T"
  shows "\<exists>S c. fold mulx_step [0..<k] (T, 0) = (S @ drop k T, c) \<and> length S = k \<and> (c = 0 \<or> c = 1)
    \<and> le_num S + 256 ^ k * unat c = 2 * le_num (take k T)"
  using assms
proof (induction k)
  case (Suc k)
  then obtain S c where *: "fold mulx_step [0..<k] (T, 0) = (S @ drop k T, c)" "length S = k" "c = 0 \<or> c = 1"
    "le_num S + 256 ^ k * unat c = 2 * le_num (take k T)" by auto
  define b where "b = T ! k"
  have dr: "drop k T = b # drop (Suc k) T" using Suc.prems by (simp add: b_def Cons_nth_drop_Suc)
  note mb = mulx_byte [OF *(3), of b]
  have "fold mulx_step [0..<Suc k] (T, 0) = ((S @ [push_bit 1 b OR c]) @ drop (Suc k) T, drop_bit 7 b)"
    using *(1,2) dr by (simp add: mulx_step_def Let_def nth_append list_update_append)
  moreover have "le_num (S @ [push_bit 1 b OR c]) + 256 ^ Suc k * unat (drop_bit 7 b) = 2 * le_num (take (Suc k) T)"
  proof -
    have "take (Suc k) T = take k T @ [b]" using Suc.prems by (simp add: b_def take_Suc_conv_app_nth)
    then have "2 * le_num (take (Suc k) T) = 2 * le_num (take k T) + 256 ^ k * (2 * unat b)"
      using Suc.prems by (simp add: le_num_append algebra_simps)
    also have "\<dots> = le_num S + 256 ^ k * (unat c + 2 * unat b)" using *(4) by (simp add: algebra_simps)
    also have "\<dots> = le_num S + 256 ^ k * (unat (push_bit 1 b OR c) + 256 * unat (drop_bit 7 b))" using mb(1) by simp
    finally show ?thesis using *(2) by (simp add: le_num_append algebra_simps)
  qed
  ultimately show ?case using *(2) mb(2) by (intro exI [of _ "S @ [push_bit 1 b OR c]"] exI [of _ "drop_bit 7 b"]) auto
qed simp

lemma xts_mulx_num:
  assumes "length T = 16"
  shows "le_num (xts_mulx T) = (2 * le_num T mod 2 ^ 128) XOR (if 2 ^ 128 \<le> 2 * le_num T then 0x87 else 0)"
proof -
  obtain S c where *: "fold mulx_step [0..<16] (T, 0) = (S, c)" "length S = 16" "c = 0 \<or> c = 1"
    "le_num S + 256 ^ 16 * unat c = 2 * le_num T"
    using mulx_loop [of 16 T] assms by auto
  have S: "le_num S < 2 ^ 128" using le_num_less [of S] *(2) by simp
  obtain b bs where bs: "S = b # bs" using *(2) by (cases S) auto
  have "xts_mulx T = (b XOR gf_mulx_reduce ! unat c) # bs" by (simp add: xts_mulx_def *(1) bs)
  then have "le_num (xts_mulx T) = le_num S XOR unat (gf_mulx_reduce ! unat c)"
    using le_num_xor_low [of b "le_num bs" "le_num S"] bs by simp
  moreover have "2 * le_num T mod 2 ^ 128 = le_num S"
    unfolding *(4) [symmetric] using S by (simp add: power_mult [of 2 8, symmetric])
  moreover have "(2 ^ 128 \<le> 2 * le_num T) = (c = 1)" using *(3,4) S by auto
  ultimately show ?thesis using *(3) by (auto simp: gf_mulx_reduce_def)
qed

section \<open>The driver on several blocks\<close>

lemma blit_blocks:
  assumes "\<And>b. length (f b) = 16" "16 * k \<le> length out"
  shows "fold (\<lambda>b out. blit out (b * 16) (f b)) [0..<k] out = concat (map f [0..<k]) @ drop (16 * k) out"
  using assms(2)
proof (induction k)
  case (Suc k)
  have "length (concat (map f [0..<k])) = 16 * k" using assms(1) by (induction k) auto
  then show ?case using Suc assms(1) by (simp add: blit_def mult.commute add.commute)
qed simp

lemma concat_block:
  assumes "\<And>b. length (f b) = 16" "b < n"
  shows "take 16 (drop (b * 16) (concat (map f [0..<n]))) = f b"
proof -
  have l: "length (concat (map f [0..<b])) = b * 16" using assms(1) by (induction b) auto
  have "[0..<n] = [0..<b] @ b # [Suc b..<n]"
    using assms(2) upt_add_eq_append [of 0 b "n - b"] by (simp add: upt_conv_Cons)
  then show ?thesis using l assms(1) by simp
qed

lemma concat_blocks_id: "length d = 16 * n \<Longrightarrow> concat (map (\<lambda>b. take 16 (drop (b * 16) d)) [0..<n]) = d"
proof (induction n arbitrary: d)
  case (Suc n)
  have "concat (map (\<lambda>b. take 16 (drop (b * 16) (drop 16 d))) [0..<n]) = drop 16 d"
    using Suc.prems by (intro Suc.IH) simp
  then have "take 16 d @ concat (map (\<lambda>b. take 16 (drop (16 + b * 16) d)) [0..<n]) = d"
    by (simp add: add.commute)
  moreover have "[0..<Suc n] = 0 # map Suc [0..<n]" by (simp add: map_Suc_upt upt_conv_Cons)
  ultimately show ?case by (simp only: list.map map_map concat.simps o_def) simp
qed simp

lemma msel_do_aes_ok:
  assumes "ks \<le> 2" "length dout = 16 * n"
  shows "msel_do_aes \<lparr>drv_enc = e, drv_key_size = ks, drv_key = key, drv_din = din, drv_dout = dout, drv_data_len = 16 * n\<rparr>
    = (MSEL_OK, concat (map (\<lambda>b. (if e then sw_aes_ecb_encrypt else sw_aes_ecb_decrypt) (sw_aes_setkey ks key)
          (take 16 (drop (b * 16) din))) [0..<n]))"
  using assms by (cases e) (simp_all add: msel_do_aes_def Let_def blit_blocks)

section \<open>Properties\<close>

text \<open>
  C23. The driver accepts exactly the three key sizes and whole numbers of blocks; otherwise it
  reports an invalid argument and leaves the output buffer alone. For accepted calls decryption
  of the encrypted data gives the data back, block by block.
\<close>

theorem aes_driver_roundtrip:
  fixes key :: bytes
  defines "call \<equiv> \<lambda>e ks n din dout. msel_do_aes \<lparr>drv_enc = e, drv_key_size = ks, drv_key = key,
      drv_din = din, drv_dout = dout, drv_data_len = n\<rparr>"
  shows "(2 < ks \<or> n mod 16 \<noteq> 0 \<longrightarrow> call e ks n din dout = (MSEL_EINVAL, dout))
    \<and> (ks \<le> 2 \<and> length din = 16 * b \<and> length dout = 16 * b \<and> length dout' = 16 * b \<longrightarrow>
         (\<exists>c. call True ks (16 * b) din dout = (MSEL_OK, c) \<and> length c = 16 * b
            \<and> call False ks (16 * b) c dout' = (MSEL_OK, din)))"
proof (intro conjI impI)
  show "2 < ks \<or> n mod 16 \<noteq> 0 \<Longrightarrow> call e ks n din dout = (MSEL_EINVAL, dout)"
    by (auto simp: call_def msel_do_aes_def)
  assume a: "ks \<le> 2 \<and> length din = 16 * b \<and> length dout = 16 * b \<and> length dout' = 16 * b"
  define f where "f i = sw_aes_ecb_encrypt (sw_aes_setkey ks key) (take 16 (drop (i * 16) din))" for i
  define c where "c = concat (map f [0..<b])"
  have f: "length (f i) = 16" for i by (simp add: f_def)
  then have lc: "length c = 16 * b" unfolding c_def by (induction b) auto
  have "call True ks (16 * b) din dout = (MSEL_OK, c)"
    using a by (simp add: call_def msel_do_aes_ok c_def f_def [abs_def])
  moreover have "call False ks (16 * b) c dout' = (MSEL_OK, concat (map (\<lambda>i. sw_aes_ecb_decrypt (sw_aes_setkey ks key) (f i)) [0..<b]))"
    using a concat_block [of f _ b] f by (auto simp: call_def msel_do_aes_ok c_def intro!: arg_cong [where f = concat])
  moreover have "map (\<lambda>i. sw_aes_ecb_decrypt (sw_aes_setkey ks key) (f i)) [0..<b] = map (\<lambda>i. take 16 (drop (i * 16) din)) [0..<b]"
    using a by (auto simp: f_def intro!: ecb_decrypt_encrypt)
  ultimately show "\<exists>c. call True ks (16 * b) din dout = (MSEL_OK, c) \<and> length c = 16 * b \<and> call False ks (16 * b) c dout' = (MSEL_OK, din)"
    using lc a concat_blocks_id [of din b] by auto
qed

theorem aes_driver_roundtrip_witness:
  "msel_do_aes \<lparr>drv_enc = True, drv_key_size = 3, drv_key = [], drv_din = [], drv_dout = [5], drv_data_len = 0\<rparr> = (MSEL_EINVAL, [5])"
  using aes_driver_roundtrip [of 3 0 True "[]" "[]" "[5]"] by simp

text \<open>
  C5. For the two supported XTS key sizes, any number of whole blocks and any sequence number,
  XTS decryption inverts XTS encryption.
\<close>

theorem xts_decrypt_encrypt:
  assumes "algo = AES_XTS_128 \<or> algo = AES_XTS_256" "length d = 16 * n"
    and ctx_def: "ctx = aes_xts_setkey ctx0 algo key"
  shows "aes_xts_decrypt ctx (aes_xts_encrypt ctx d n sequence) n sequence = d"
proof -
  have v: "aes_valid (xts_e_ctx ctx)" "aes_valid (xts_t_ctx ctx)"
    using assms(1) by (auto simp: ctx_def aes_xts_setkey_def aes_setkey_def aes_valid_def Let_def)
  define T where "T = aes_ecb_encrypt (xts_t_ctx ctx) (xts_tweak sequence) (xts_tweak sequence)"
  have "length T = 16" using aes.enc_length [OF v(2)] by (simp add: T_def)
  then show ?thesis
    using aes.xts_roundtrip [OF v(1) _ assms(2)] by (simp add: aes_xts_decrypt_def aes_xts_encrypt_def T_def [symmetric] Let_def)
qed

theorem xts_decrypt_encrypt_witness:
  "\<forall>ctx0. aes_xts_decrypt (aes_xts_setkey ctx0 2 (replicate 64 1)) (aes_xts_encrypt (aes_xts_setkey ctx0 2 (replicate 64 1))
       (replicate 32 9) 2 5) 2 5 = replicate 32 9"
  using xts_decrypt_encrypt [of 2 "replicate 32 9" 2, OF _ _ refl] by simp

text \<open>
  The tweak update of XTS multiplies by the primitive element: read as a little-endian number
  the tweak is doubled, and reduced with 0x87 when the doubling overflows 128 bits.
\<close>

theorem xts_mulx_doubles:
  assumes "length T = AES_BLOCK_SIZE"
  shows "le_num (xts_mulx T) = (2 * le_num T mod 2 ^ 128) XOR (if 2 ^ 128 \<le> 2 * le_num T then 0x87 else 0)"
  using assms by (rule xts_mulx_num)

theorem xts_mulx_doubles_witness: "le_num (xts_mulx (replicate 15 0 @ [0x80])) = 0x87"
  using xts_mulx_doubles [of "replicate 15 0 @ [0x80]"] by (simp add: le_num_append le_num_zeros)

end
