(* ===== verification/Aes_Gcm.thy ===== *)
theory Aes_Gcm
  imports Aes_Modes
begin

text \<open>
  Galois counter mode, \<^verbatim>\<open>lib/crypto/aes_gcm.c\<close>, and the random number generator built on AES,
  \<^verbatim>\<open>lib/crypto/prng.c\<close>. Local buffers that the code leaves uninitialised before the block
  operation fills them are zero here; for a valid key size they are overwritten.
\<close>

section \<open>Counter and field multiplication\<close>

definition inc_step :: "nat \<Rightarrow> bytes \<times> u8 \<Rightarrow> bytes \<times> u8" where
  "inc_step i = (\<lambda>(a, c).
     let a = a[i := a ! i + c] in (a, c AND (if a ! i \<noteq> 0 then 0 else 1)))"

definition gcm_inc_ctr :: "bytes \<Rightarrow> bytes" where
  "gcm_inc_ctr a = fst (fold inc_step (rev [0..<AES_BLOCK_SIZE]) (a, 1))"

definition gf_mul_reduce :: bytes where "gf_mul_reduce = [0x00, 0xe1]"

definition shr_step :: "nat \<Rightarrow> bytes \<times> u8 \<Rightarrow> bytes \<times> u8" where
  "shr_step k = (\<lambda>(v, Cin).
     let Cout = v ! k AND 1 in (v[k := drop_bit 1 (v ! k) OR push_bit 7 Cin], Cout))"

definition gf_shift :: "bytes \<Rightarrow> bytes" where
  "gf_shift v =
     (let (v, Cin) = fold shr_step [0..<AES_BLOCK_SIZE] (v, 0)
      in v[0 := v ! 0 XOR gf_mul_reduce ! unat Cin])"

text \<open>One turn of the loop over the bits of a byte \<open>t\<close>, and the function \<^verbatim>\<open>gf_mul\<close>.\<close>

definition gf_bit_step :: "bytes \<times> bytes \<times> u8 \<Rightarrow> bytes \<times> bytes \<times> u8" where
  "gf_bit_step = (\<lambda>(x, v1, t).
     let s = drop_bit 7 t;
         t = push_bit 1 t;
         x = xor_bytes x ([replicate AES_BLOCK_SIZE 0, v1] ! unat s)
     in (x, gf_shift v1, t))"

definition gcm_gf_mul :: "bytes \<Rightarrow> bytes \<Rightarrow> bytes" where
  "gcm_gf_mul x y =
     fst (fold (\<lambda>i (x, v1). let (x, v1, t) = (gf_bit_step ^^ 8) (x, v1, y ! i) in (x, v1))
            [0..<AES_BLOCK_SIZE] (replicate AES_BLOCK_SIZE 0, x))"

section \<open>Context and operations\<close>

record aes_gcm_ctx =
  gcm_algo :: nat
  gcm_aad_len :: u64
  gcm_input_len :: u64
  gcm_tag :: bytes
  gcm_h :: bytes
  gcm_iv :: bytes
  gcm_civ :: bytes
  gcm_e_ctx :: aes_ctx

definition gcm_ghash_add :: "aes_gcm_ctx \<Rightarrow> bytes \<Rightarrow> aes_gcm_ctx" where
  "gcm_ghash_add ctx x = ctx\<lparr>gcm_tag := gcm_gf_mul (xor_bytes (gcm_tag ctx) x) (gcm_h ctx)\<rparr>"

text \<open>The hash of an initialisation vector that is not 12 bytes long: whole blocks, a last partial
  block, and the bit length.\<close>

function gcm_iv_blocks :: "bytes \<Rightarrow> bytes \<Rightarrow> bytes \<Rightarrow> bytes" where
  "gcm_iv_blocks h civ iv =
     (if length iv \<ge> AES_BLOCK_SIZE then
        gcm_iv_blocks h (gcm_gf_mul (xor_bytes civ (take AES_BLOCK_SIZE iv)) h) (drop AES_BLOCK_SIZE iv)
      else if length iv \<noteq> 0 then
        gcm_gf_mul (xor_bytes (take (length iv) civ) iv @ drop (length iv) civ) h
      else civ)"
  by pat_completeness auto
termination by (relation "measure (\<lambda>(h, civ, iv). length iv)") auto

declare gcm_iv_blocks.simps [simp del]

definition gcm_iv_length :: "bytes \<Rightarrow> u32 \<Rightarrow> bytes" where
  "gcm_iv_length civ bit_len =
     fst (fold (\<lambda>i (iv, bl). (iv[i := iv ! i XOR ucast bl], drop_bit 8 bl)) (rev [0..<AES_BLOCK_SIZE]) (civ, bit_len))"

definition aes_gcm_setkey :: "nat \<Rightarrow> bytes \<Rightarrow> bytes \<Rightarrow> aes_gcm_ctx" where
  "aes_gcm_setkey algo key iv =
     (let zero = replicate AES_BLOCK_SIZE 0;
          ctx = \<lparr>gcm_algo = algo, gcm_aad_len = 0, gcm_input_len = 0, gcm_tag = zero, gcm_h = zero,
                 gcm_iv = zero, gcm_civ = zero, gcm_e_ctx = aes_setkey 0 []\<rparr>
      in if algo > 2 then ctx
         else
           let e = aes_setkey algo key;
               h = aes_ecb_encrypt e zero zero;
               iv' = (if length iv = 12 then (blit zero 0 iv)[15 := 1]
                      else gcm_gf_mul (gcm_iv_length (gcm_iv_blocks h zero iv) (push_bit 3 (of_nat (length iv)))) h)
           in ctx\<lparr>gcm_e_ctx := e, gcm_h := h, gcm_iv := iv', gcm_civ := iv'\<rparr>)"

function gcm_aad_loop :: "aes_gcm_ctx \<Rightarrow> bytes \<Rightarrow> aes_gcm_ctx" where
  "gcm_aad_loop ctx din =
     (if length din \<ge> AES_BLOCK_SIZE then
        gcm_aad_loop (gcm_ghash_add ctx (take AES_BLOCK_SIZE din)) (drop AES_BLOCK_SIZE din)
      else if length din \<noteq> 0 then gcm_ghash_add ctx (blit (replicate AES_BLOCK_SIZE 0) 0 din)
      else ctx)"
  by pat_completeness auto
termination by (relation "measure (\<lambda>(ctx, din). length din)") auto

declare gcm_aad_loop.simps [simp del]

definition aes_gcm_aad :: "aes_gcm_ctx \<Rightarrow> bytes \<Rightarrow> aes_gcm_ctx" where
  "aes_gcm_aad ctx data_in =
     gcm_aad_loop (ctx\<lparr>gcm_aad_len := gcm_aad_len ctx + of_nat (length data_in)\<rparr>) data_in"

text \<open>The next key stream block.\<close>

definition gcm_stream :: "aes_gcm_ctx \<Rightarrow> aes_gcm_ctx \<times> bytes" where
  "gcm_stream ctx =
     (let ctx = ctx\<lparr>gcm_civ := gcm_inc_ctr (gcm_civ ctx)\<rparr>
      in (ctx, aes_ecb_encrypt (gcm_e_ctx ctx) (gcm_civ ctx) (replicate AES_BLOCK_SIZE 0)))"

function gcm_enc_loop :: "aes_gcm_ctx \<Rightarrow> bytes \<Rightarrow> aes_gcm_ctx \<times> bytes" where
  "gcm_enc_loop ctx din =
     (if length din \<ge> AES_BLOCK_SIZE then
        let (ctx, x) = gcm_stream ctx;
            dout = xor_bytes (take AES_BLOCK_SIZE din) x;
            (ctx, rest) = gcm_enc_loop (gcm_ghash_add ctx dout) (drop AES_BLOCK_SIZE din)
        in (ctx, dout @ rest)
      else if length din \<noteq> 0 then
        let (ctx, x) = gcm_stream ctx;
            x = xor_bytes (take (length din) x) din @ replicate (AES_BLOCK_SIZE - length din) 0
        in (gcm_ghash_add ctx x, take (length din) x)
      else (ctx, []))"
  by pat_completeness auto
termination by (relation "measure (\<lambda>(ctx, din). length din)") auto

declare gcm_enc_loop.simps [simp del]

definition aes_gcm_encrypt :: "aes_gcm_ctx \<Rightarrow> bytes \<Rightarrow> aes_gcm_ctx \<times> bytes" where
  "aes_gcm_encrypt ctx data_in =
     gcm_enc_loop (ctx\<lparr>gcm_input_len := gcm_input_len ctx + of_nat (length data_in)\<rparr>) data_in"

function gcm_dec_loop :: "aes_gcm_ctx \<Rightarrow> bytes \<Rightarrow> aes_gcm_ctx \<times> bytes" where
  "gcm_dec_loop ctx din =
     (if length din \<ge> AES_BLOCK_SIZE then
        let (ctx, x) = gcm_stream ctx;
            ctx = gcm_ghash_add ctx (take AES_BLOCK_SIZE din);
            dout = xor_bytes x (take AES_BLOCK_SIZE din);
            (ctx, rest) = gcm_dec_loop ctx (drop AES_BLOCK_SIZE din)
        in (ctx, dout @ rest)
      else if length din > 0 then
        let ctx = ctx\<lparr>gcm_civ := gcm_inc_ctr (gcm_civ ctx)\<rparr>;
            x = din @ replicate (AES_BLOCK_SIZE - length din) 0;
            ctx = gcm_ghash_add ctx x;
            x = aes_ecb_encrypt (gcm_e_ctx ctx) (gcm_civ ctx) x
        in (ctx, xor_bytes din (take (length din) x))
      else (ctx, []))"
  by pat_completeness auto
termination by (relation "measure (\<lambda>(ctx, din). length din)") auto

declare gcm_dec_loop.simps [simp del]

definition aes_gcm_decrypt :: "aes_gcm_ctx \<Rightarrow> bytes \<Rightarrow> aes_gcm_ctx \<times> bytes" where
  "aes_gcm_decrypt ctx data_in =
     gcm_dec_loop (ctx\<lparr>gcm_input_len := gcm_input_len ctx + of_nat (length data_in)\<rparr>) data_in"

text \<open>Eight bytes of a 64-bit value, most significant first, as the loops with \<open>v >> 56\<close> and
  \<open>v <<= 8\<close> produce them.\<close>

definition be_bytes64 :: "u64 \<Rightarrow> bytes" where
  "be_bytes64 v = fst (fold (\<lambda>i (x, v). (x @ [ucast (drop_bit 56 v)], push_bit 8 v)) [0..<8] ([], v))"

definition aes_gcm_final :: "aes_gcm_ctx \<Rightarrow> aes_gcm_ctx \<times> bytes" where
  "aes_gcm_final ctx =
     (let x = be_bytes64 (push_bit 3 (gcm_aad_len ctx)) @ be_bytes64 (push_bit 3 (gcm_input_len ctx));
          ctx = gcm_ghash_add ctx x;
          x = aes_ecb_encrypt (gcm_e_ctx ctx) (gcm_iv ctx) x
      in (ctx, xor_bytes (gcm_tag ctx) x))"

section \<open>The random number generator\<close>

text \<open>The generator keeps two 64-bit words and hands them to AES as 16 bytes of memory, so the byte
  order of the machine is an argument: \<open>big\<close> holds on OpenRISC and fails on ARM.\<close>

definition mem_bytes :: "bool \<Rightarrow> u64 \<times> u64 \<Rightarrow> bytes" where
  "mem_bytes big = (\<lambda>(lo, hi). if big then be_bytes 8 lo @ be_bytes 8 hi else le_bytes 8 lo @ le_bytes 8 hi)"

definition mem_words :: "bool \<Rightarrow> bytes \<Rightarrow> u64 \<times> u64" where
  "mem_words big bs =
     (let num = (if big then be_num else le_num) in (of_nat (num (take 8 bs)), of_nat (num (drop 8 bs))))"

record prng_ctx =
  prng_aes :: aes_ctx
  prng_v :: "u64 \<times> u64"
  prng_dt :: "u64 \<times> u64"

definition prng_init :: "nat \<Rightarrow> bytes \<Rightarrow> u64 \<Rightarrow> u64 \<Rightarrow> prng_ctx" where
  "prng_init algo k v_lo v_hi = \<lparr>prng_aes = aes_setkey algo k, prng_v = (v_lo, v_hi), prng_dt = (1, 0)\<rparr>"

definition words_xor :: "u64 \<times> u64 \<Rightarrow> u64 \<times> u64 \<Rightarrow> u64 \<times> u64" where
  "words_xor a b = (fst a XOR fst b, snd a XOR snd b)"

definition prng_tick :: "u64 \<times> u64 \<Rightarrow> u64 \<times> u64" where
  "prng_tick = (\<lambda>(lo, hi). let lo = lo + 1 in (lo, hi + (if lo = 0 then 1 else 0)))"

definition prng_output :: "bool \<Rightarrow> prng_ctx \<Rightarrow> bytes \<Rightarrow> prng_ctx \<times> bytes" where
  "prng_output big ctx data_out =
     (let aes = prng_aes ctx;
          I = mem_words big (aes_ecb_encrypt aes (mem_bytes big (prng_dt ctx)) (mem_bytes big (0, 0)));
          ctx = ctx\<lparr>prng_dt := prng_tick (prng_dt ctx)\<rparr>;
          t = words_xor I (prng_v ctx);
          R = aes_ecb_encrypt aes (mem_bytes big t) data_out;
          t = words_xor (mem_words big R) I;
          v = aes_ecb_encrypt aes (mem_bytes big t) (mem_bytes big (prng_v ctx))
      in (ctx\<lparr>prng_v := mem_words big v\<rparr>, R))"

section \<open>The counter counts\<close>

lemma inc_byte:
  assumes "c = 0 \<or> c = (1 :: u8)"
  shows "unat (b + c) + 256 * unat (c AND (if b + c \<noteq> 0 then 0 else 1)) = unat b + unat c"
    "(c AND (if b + c \<noteq> 0 then 0 else 1)) = 0 \<or> (c AND (if b + c \<noteq> 0 then 0 else 1)) = 1"
proof -
  show "unat (b + c) + 256 * unat (c AND (if b + c \<noteq> 0 then 0 else 1)) = unat b + unat c"
  proof (cases "c = 1 \<and> b + c = 0")
    case True
    then have "b + 1 = 0" by metis
    then have "b = - 1" by (rule eq_neg_iff_add_eq_0 [THEN iffD2])
    then show ?thesis using True by (simp add: unsigned_minus_1_eq_mask mask_eq_exp_minus_1)
  next
    case False
    then have "unat (b + c) = unat b + unat c" using assms
      by (auto simp: add.commute [of b] unatSuc)
    then show ?thesis using False assms by auto
  qed
qed (use assms in auto)

lemma inc_loop:
  assumes "c = 0 \<or> c = (1 :: u8)"
  shows "\<exists>S c'. fold inc_step (rev [0..<length a]) (a @ r, c) = (S @ r, c') \<and> length S = length a \<and> (c' = 0 \<or> c' = 1)
    \<and> be_num S + 256 ^ length a * unat c' = be_num a + unat c"
  using assms
proof (induction a arbitrary: r c rule: rev_induct)
  case (snoc b a)
  define v c1 where "v = b + c" and "c1 = c AND (if v \<noteq> 0 then 0 else 1)"
  have ib: "unat v + 256 * unat c1 = unat b + unat c" "c1 = 0 \<or> c1 = 1"
    unfolding v_def c1_def by (rule inc_byte [OF snoc.prems])+
  obtain S c' where *: "fold inc_step (rev [0..<length a]) (a @ v # r, c1) = (S @ v # r, c')" "length S = length a"
    "c' = 0 \<or> c' = 1" "be_num S + 256 ^ length a * unat c' = be_num a + unat c1"
    using snoc.IH [OF ib(2), of "v # r"] by auto
  have "inc_step (length a) (a @ b # r, c) = (a @ v # r, c1)"
    by (simp add: inc_step_def Let_def v_def c1_def)
  then have "fold inc_step (rev [0..<length (a @ [b])]) ((a @ [b]) @ r, c) = ((S @ [v]) @ r, c')" using *(1) by simp
  moreover have "be_num (S @ [v]) + 256 ^ length (a @ [b]) * unat c' = be_num (a @ [b]) + unat c"
    using *(4) ib(1) by (simp add: be_num_snoc algebra_simps)
  ultimately show ?case using *(2,3) by (intro exI [of _ "S @ [v]"] exI [of _ c']) auto
qed auto

lemma gcm_inc_ctr_num:
  assumes "length a = 16"
  shows "be_num (gcm_inc_ctr a) = (be_num a + 1) mod 2 ^ 128" "length (gcm_inc_ctr a) = 16"
proof -
  obtain S c where *: "fold inc_step (rev [0..<16]) (a, 1) = (S, c)" "length S = 16" "c = 0 \<or> c = 1"
    "be_num S + 256 ^ 16 * unat c = be_num a + 1"
    using inc_loop [of 1 a "[]"] assms by auto
  have "be_num S < 2 ^ 128" using be_num_less [of S] *(2) by simp
  then have "(be_num a + 1) mod 2 ^ 128 = be_num S"
    unfolding *(4) [symmetric] by (simp add: power_mult [of 2 8, symmetric])
  then show "be_num (gcm_inc_ctr a) = (be_num a + 1) mod 2 ^ 128" "length (gcm_inc_ctr a) = 16"
    using * by (simp_all add: gcm_inc_ctr_def)
qed

section \<open>Field multiplication against the standard\<close>

text \<open>The multiplication of NIST SP 800-38D, algorithm 1: \<open>ys\<close> is the bit string of one factor,
  \<open>v\<close> the number of the other, both most significant bit first.\<close>

definition gcm_mult :: "bool list \<Rightarrow> nat \<Rightarrow> nat" where
  "gcm_mult ys v =
     fst (fold (\<lambda>y (z, v). (if y then z XOR v else z, (v div 2) XOR (if odd v then 0xe1 * 2 ^ 120 else 0))) ys (0, v))"

definition block_bits :: "bytes \<Rightarrow> bool list" where
  "block_bits bs = concat (map (\<lambda>t. map (\<lambda>j. bit t (7 - j)) [0..<8]) bs)"

lemma shr_byte:
  assumes "c = 0 \<or> c = (1 :: u8)"
  shows "unat b + 256 * unat c = 2 * unat (drop_bit 1 b OR push_bit 7 c) + unat (b AND 1)" "b AND 1 = 0 \<or> b AND 1 = 1"
proof -
  have b: "b AND 1 = of_bool (odd b)" by (simp add: and_one_eq mod_2_eq_odd)
  then show "b AND 1 = 0 \<or> b AND 1 = 1" by simp
  have d: "unat (drop_bit 1 b) = unat b div 2"
    unfolding unsigned_drop_bit_eq by (simp add: drop_bit_eq_div take_bit_eq_mod)
  have o: "unat (b AND 1) = unat b mod 2" unfolding unsigned_and_eq by (simp add: and_one_eq)
  have or128: "a OR 128 = a + 128" if "a < 128" for a :: nat
  proof -
    have "\<not> bit a 7" using that by (simp add: bit_iff_odd)
    then have "a AND 128 = 0" using and_exp_eq_0_iff_not_bit [of a 7] by simp
    then show ?thesis using disjunctive_add_eq_or by metis
  qed
  have "unat (drop_bit 1 b OR push_bit 7 c) = unat b div 2 + 128 * unat c"
  proof (cases "c = 0")
    case False
    then have "push_bit 7 c = 128" using assms by simp
    moreover have "unat b div 2 < 128" by (rule less_mult_imp_div_less) simp
    ultimately show ?thesis using False assms or128 [of "unat b div 2"] by (simp only: unsigned_or_eq d) simp
  qed (use d in simp)
  then show "unat b + 256 * unat c = 2 * unat (drop_bit 1 b OR push_bit 7 c) + unat (b AND 1)"
    using o by (simp add: algebra_simps)
qed

text \<open>The shift of a block: the carry enters each byte at the top.\<close>

lemma shr_loop:
  assumes "k \<le> length v"
  shows "\<exists>S c. fold shr_step [0..<k] (v, 0) = (S @ drop k v, c) \<and> length S = k \<and> (c = 0 \<or> c = 1)
    \<and> be_num (take k v) = 2 * be_num S + unat c"
  using assms
proof (induction k)
  case (Suc k)
  then obtain S c where *: "fold shr_step [0..<k] (v, 0) = (S @ drop k v, c)" "length S = k" "c = 0 \<or> c = 1"
    "be_num (take k v) = 2 * be_num S + unat c" by auto
  define b where "b = v ! k"
  have dr: "drop k v = b # drop (Suc k) v" using Suc.prems by (simp add: b_def Cons_nth_drop_Suc)
  note sb = shr_byte [OF *(3), of b]
  let ?b = "drop_bit 1 b OR push_bit 7 c"
  have "fold shr_step [0..<Suc k] (v, 0) = ((S @ [?b]) @ drop (Suc k) v, b AND 1)"
    using *(1,2) dr by (simp add: shr_step_def Let_def nth_append list_update_append)
  moreover have "be_num (take (Suc k) v) = 2 * be_num (S @ [?b]) + unat (b AND 1)"
  proof -
    have "take (Suc k) v = take k v @ [b]" using Suc.prems by (simp add: b_def take_Suc_conv_app_nth)
    then have "be_num (take (Suc k) v) = unat b + 256 * (2 * be_num S + unat c)" by (simp add: be_num_snoc *(4))
    also have "\<dots> = (unat b + 256 * unat c) + 512 * be_num S" by simp
    finally show ?thesis unfolding sb(1) be_num_snoc by simp
  qed
  ultimately show ?case using *(2) sb(2) by (intro exI [of _ "S @ [?b]"] exI [of _ "b AND 1"]) auto
qed auto

lemma gf_shift_num:
  assumes "length v = 16"
  shows "be_num (gf_shift v) = (be_num v div 2) XOR (if odd (be_num v) then 0xe1 * 2 ^ 120 else 0)"
    "length (gf_shift v) = 16"
proof -
  obtain S c where *: "fold shr_step [0..<16] (v, 0) = (S, c)" "length S = 16" "c = 0 \<or> c = 1"
    "be_num v = 2 * be_num S + unat c"
    using shr_loop [of 16 v] assms by auto
  obtain b bs where bs: "S = b # bs" using *(2) by (cases S) auto
  define r where "r = gf_mul_reduce ! unat c"
  have g: "gf_shift v = xor_bytes S (r # replicate 15 0)"
    using *(2) bs by (simp add: gf_shift_def *(1) r_def xor_bytes_Cons xor_bytes_zeros)
  have "be_num (r # replicate 15 0) = 2 ^ 120 * unat r"
    by (simp add: be_num_def le_num_append le_num_zeros power_mult [of 2 8, symmetric])
  then have "be_num (gf_shift v) = be_num S XOR 2 ^ 120 * unat r"
    using g *(2) be_num_xor [of S "r # replicate 15 0"] by simp
  then show "be_num (gf_shift v) = (be_num v div 2) XOR (if odd (be_num v) then 0xe1 * 2 ^ 120 else 0)"
    using *(3,4) by (auto simp: r_def gf_mul_reduce_def)
  show "length (gf_shift v) = 16" using g *(2) by simp
qed

text \<open>The loop over bytes and bits as one pass over the bit string.\<close>

definition gf_step :: "bool \<Rightarrow> bytes \<times> bytes \<Rightarrow> bytes \<times> bytes" where
  "gf_step y = (\<lambda>(x, v). (if y then xor_bytes x v else x, gf_shift v))"

lemma gf_step_length: "length x = 16 \<Longrightarrow> length v = 16 \<Longrightarrow> gf_step y (x, v) = (x', v') \<Longrightarrow> length x' = 16 \<and> length v' = 16"
  by (auto simp: gf_step_def gf_shift_num(2) split: if_splits)

lemma gf_steps_length:
  "length x = 16 \<Longrightarrow> length v = 16 \<Longrightarrow> fold gf_step ys (x, v) = (x', v') \<Longrightarrow> length x' = 16 \<and> length v' = 16"
proof (induction ys arbitrary: x v)
  case (Cons y ys)
  obtain x1 v1 where s: "gf_step y (x, v) = (x1, v1)" by fastforce
  have "length x1 = 16 \<and> length v1 = 16" using gf_step_length [OF Cons.prems(1,2) s] .
  then show ?case using Cons.IH [of x1 v1] Cons.prems(3) s by simp
qed simp

lemma gf_bit_step_eq:
  assumes "length x = 16"
  shows "gf_bit_step (x, v, t) = (let (x, v) = gf_step (bit t 7) (x, v) in (x, v, push_bit 1 t))"
proof -
  have "drop_bit 7 t = of_bool (bit t 7)"
  proof (rule bit_word_eqI)
    show "bit (drop_bit 7 t) n = bit (of_bool (bit t 7) :: u8) n" for n
      by (cases n) (auto simp: bit_drop_bit_eq bit_of_bool_iff dest: bit_imp_le_length)
  qed
  then show ?thesis using assms by (simp add: gf_bit_step_def gf_step_def Let_def xor_bytes_zeros)
qed

lemma gf_byte_steps:
  assumes "length x = 16" "length v = 16" "n \<le> 8"
  shows "(gf_bit_step ^^ n) (x, v, t)
    = (let (x, v) = fold gf_step (map (\<lambda>j. bit t (7 - j)) [0..<n]) (x, v) in (x, v, push_bit n t))"
  using assms(3)
proof (induction n)
  case (Suc n)
  obtain x1 v1 where f: "fold gf_step (map (\<lambda>j. bit t (7 - j)) [0..<n]) (x, v) = (x1, v1)" by fastforce
  have l: "length x1 = 16" using gf_steps_length [OF assms(1,2) f] by simp
  have "bit (push_bit n t) 7 = bit t (7 - n)" using Suc.prems by (auto simp: bit_push_bit_iff)
  then show ?case
    using Suc f gf_bit_step_eq [OF l, of v1 "push_bit n t"] by (simp add: Let_def push_bit_push_bit prod.case_eq_if)
qed simp

lemma gcm_gf_mul_steps:
  assumes "length x = 16" "length y = 16"
  shows "gcm_gf_mul x y = fst (fold gf_step (block_bits y) (replicate 16 0, x))"
proof -
  have "fold (\<lambda>i (x, v1). let (x, v1, t) = (gf_bit_step ^^ 8) (x, v1, y ! i) in (x, v1)) [0..<k] (replicate 16 0, x)
      = fold gf_step (block_bits (take k y)) (replicate 16 0, x)" if "k \<le> 16" for k
    using that
  proof (induction k)
    case (Suc k)
    obtain x1 v1 where f: "fold gf_step (block_bits (take k y)) (replicate 16 0, x) = (x1, v1)" by fastforce
    have l: "length x1 = 16" "length v1 = 16" using gf_steps_length [OF _ assms(1) f] by simp_all
    have "take (Suc k) y = take k y @ [y ! k]" using Suc.prems assms(2) by (simp add: take_Suc_conv_app_nth)
    then have "block_bits (take (Suc k) y) = block_bits (take k y) @ map (\<lambda>j. bit (y ! k) (7 - j)) [0..<8]"
      by (simp add: block_bits_def)
    then show ?case using Suc f gf_byte_steps [OF l, of 8 "y ! k"] by (simp add: Let_def prod.case_eq_if)
  qed (simp add: block_bits_def)
  from this [of 16] assms(2) show ?thesis by (simp add: gcm_gf_mul_def)
qed

lemma gf_steps_num:
  assumes "length x = 16" "length v = 16" "fold gf_step ys (x, v) = (x', v')"
  shows "fold (\<lambda>y (z, v). (if y then z XOR v else z, (v div 2) XOR (if odd v then 0xe1 * 2 ^ 120 else 0))) ys (be_num x, be_num v)
    = (be_num x', be_num v')"
  using assms
proof (induction ys arbitrary: x v)
  case (Cons y ys)
  obtain x1 v1 where s: "gf_step y (x, v) = (x1, v1)" by fastforce
  have l: "length x1 = 16" "length v1 = 16" using gf_step_length [OF Cons.prems(1,2) s] by simp_all
  have "be_num x1 = (if y then be_num x XOR be_num v else be_num x)"
    "be_num v1 = (be_num v div 2) XOR (if odd (be_num v) then 0xe1 * 2 ^ 120 else 0)"
    using s Cons.prems(1,2) by (auto simp: gf_step_def be_num_xor gf_shift_num(1))
  then show ?case using Cons.IH [OF l] Cons.prems(3) s by simp
qed simp

lemma gcm_gf_mul_num:
  assumes "length x = 16" "length y = 16"
  shows "be_num (gcm_gf_mul x y) = gcm_mult (block_bits y) (be_num x)" "length (gcm_gf_mul x y) = 16"
proof -
  obtain z v where f: "fold gf_step (block_bits y) (replicate 16 0, x) = (z, v)" by fastforce
  have "be_num (replicate 16 0) = 0" by (simp add: be_num_def le_num_zeros)
  then show "be_num (gcm_gf_mul x y) = gcm_mult (block_bits y) (be_num x)"
    using gf_steps_num [OF _ assms(1) f] gcm_gf_mul_steps [OF assms] f by (simp add: gcm_mult_def)
  show "length (gcm_gf_mul x y) = 16"
    using gf_steps_length [OF _ assms(1) f] gcm_gf_mul_steps [OF assms] f by simp
qed

section \<open>Encryption and decryption\<close>

definition gcm_valid :: "aes_gcm_ctx \<Rightarrow> bool" where
  "gcm_valid ctx \<longleftrightarrow> aes_valid (gcm_e_ctx ctx) \<and> length (gcm_civ ctx) = 16"

lemma gcm_stream_valid:
  assumes "gcm_valid ctx" "gcm_stream ctx = (ctx', x)"
  shows "gcm_valid (gcm_ghash_add ctx' y)" "length x = 16"
    "ctx' = ctx\<lparr>gcm_civ := gcm_inc_ctr (gcm_civ ctx)\<rparr>"
    "length out = 16 \<Longrightarrow> aes_ecb_encrypt (gcm_e_ctx ctx) (gcm_inc_ctr (gcm_civ ctx)) out = x"
  using assms aes.enc_length [of "gcm_e_ctx ctx" "gcm_inc_ctr (gcm_civ ctx)"]
  by (auto simp: gcm_valid_def gcm_stream_def Let_def gcm_ghash_add_def gcm_inc_ctr_num(2) aes_ecb_valid)

lemma gcm_loop_roundtrip:
  "gcm_valid ctx \<Longrightarrow> gcm_enc_loop ctx d = (ctx', c) \<Longrightarrow> gcm_dec_loop ctx c = (ctx', d) \<and> length c = length d"
proof (induction ctx d arbitrary: ctx' c rule: gcm_enc_loop.induct)
  case (1 ctx d)
  obtain ctx1 x where s: "gcm_stream ctx = (ctx1, x)" by fastforce
  note v = gcm_stream_valid [OF "1.prems"(1) s]
  consider (block) "length d \<ge> 16" | (part) "0 < length d" "length d < 16" | (none) "d = []" by force
  then show ?case
  proof cases
    case block
    define y where "y = xor_bytes (take 16 d) x"
    obtain ctx2 r where r: "gcm_enc_loop (gcm_ghash_add ctx1 y) (drop 16 d) = (ctx2, r)" by fastforce
    have c: "ctx' = ctx2" "c = y @ r"
      using "1.prems"(2) block s r by (simp_all add: gcm_enc_loop.simps [of ctx d] y_def Let_def)
    have "gcm_dec_loop (gcm_ghash_add ctx1 y) r = (ctx2, drop 16 d) \<and> length r = length (drop 16 d)"
      by (rule "1.IH" (1) [OF _ s [symmetric] refl y_def _ r]) (use block v(1) in simp_all)
    moreover have "length y = 16" "xor_bytes x y = take 16 d"
      using block v(2) by (simp_all add: y_def xor_bytes_commute [of x] xor_bytes_cancel)
    ultimately show ?thesis using block s c by (simp add: gcm_dec_loop.simps [of ctx "y @ r"] Let_def)
  next
    case part
    define y where "y = xor_bytes (take (length d) x) d"
    have y: "length y = length d" using v(2) part by (simp add: y_def)
    have c: "ctx' = gcm_ghash_add ctx1 (y @ replicate (16 - length d) 0)" "c = y"
      using "1.prems"(2) part s y by (auto simp: gcm_enc_loop.simps [of ctx d] y_def Let_def)
    have "xor_bytes y (take (length d) x) = d"
      using part v(2) by (simp add: y_def xor_bytes_commute [of _ d] xor_bytes_cancel)
    then show ?thesis using part y c v(3,4)
      by (simp add: gcm_dec_loop.simps [of ctx y] Let_def gcm_ghash_add_def)
  next
    case none
    then show ?thesis using "1.prems"(2) by (simp add: gcm_enc_loop.simps gcm_dec_loop.simps)
  qed
qed

lemma gcm_iv_lengths:
  assumes "length h = 16" "length civ = 16"
  shows "length (gcm_iv_length civ n) = 16" "length (gcm_iv_blocks h civ iv) = 16"
proof -
  have "length (fst (fold (\<lambda>i (iv, bl). (iv[i := iv ! i XOR ucast bl], drop_bit 8 bl)) is s)) = length (fst s)"
    for "is" and s :: "bytes \<times> u32"
    by (induction "is" arbitrary: s) (auto simp: case_prod_unfold)
  then show "length (gcm_iv_length civ n) = 16" using assms(2) by (simp add: gcm_iv_length_def)
  show "length (gcm_iv_blocks h civ iv) = 16" using assms
  proof (induction h civ iv rule: gcm_iv_blocks.induct)
    case (1 h civ iv)
    then show ?case by (subst gcm_iv_blocks.simps) (auto simp: gcm_gf_mul_num(2))
  qed
qed

lemma gcm_setkey_valid:
  assumes "algo \<le> 2"
  shows "gcm_valid (aes_gcm_setkey algo key iv)"
proof -
  let ?z = "replicate 16 (0 :: u8)"
  have v: "aes_valid (aes_setkey algo key)" using assms by (simp add: aes_valid_def aes_setkey_def)
  have h: "length (aes_ecb_encrypt (aes_setkey algo key) ?z ?z) = 16" using aes.enc_length [OF v] by simp
  then show ?thesis using assms v
    by (auto simp: gcm_valid_def aes_gcm_setkey_def Let_def gcm_gf_mul_num(2) gcm_iv_lengths)
qed

lemma gcm_valid_fields:
  "gcm_valid (ctx\<lparr>gcm_input_len := n\<rparr>) = gcm_valid ctx" "gcm_valid (ctx\<lparr>gcm_aad_len := n\<rparr>) = gcm_valid ctx"
  "gcm_valid (gcm_ghash_add ctx x) = gcm_valid ctx"
  by (simp_all add: gcm_valid_def gcm_ghash_add_def)

lemma gcm_aad_valid: "gcm_valid (aes_gcm_aad ctx d) = gcm_valid ctx"
proof -
  have "gcm_valid (gcm_aad_loop ctx d) = gcm_valid ctx" for ctx
  proof (induction ctx d rule: gcm_aad_loop.induct)
    case (1 ctx d)
    then show ?case by (subst gcm_aad_loop.simps) (auto simp: gcm_valid_fields)
  qed
  then show ?thesis by (simp add: aes_gcm_aad_def gcm_valid_fields)
qed

section \<open>The generator\<close>

lemma words_xor_bytes: "mem_bytes big (words_xor a b) = xor_bytes (mem_bytes big a) (mem_bytes big b)"
  by (cases a; cases b) (simp add: mem_bytes_def words_xor_def be_bytes_xor le_bytes_xor xor_bytes_def)

lemma mem_words_inverse: "length bs = 16 \<Longrightarrow> mem_bytes big (mem_words big bs) = bs"
  using le_bytes_num [where 'a = 64, of "take 8 bs"] le_bytes_num [where 'a = 64, of "drop 8 bs"]
    be_bytes_num [where 'a = 64, of "take 8 bs"] be_bytes_num [where 'a = 64, of "drop 8 bs"]
  by (simp add: mem_bytes_def mem_words_def Let_def)

lemma mem_bytes_length [simp]: "length (mem_bytes big p) = 16"
  by (cases p) (simp add: mem_bytes_def)

definition words_num :: "u64 \<times> u64 \<Rightarrow> nat" where
  "words_num p = unat (fst p) + 2 ^ 64 * unat (snd p)"

lemma two_digit_inc:
  fixes a b M :: nat
  assumes "a < M" "b < M"
  shows "(a + 1) mod M + M * ((b + (if (a + 1) mod M = 0 then 1 else 0)) mod M) = (a + M * b + 1) mod (M * M)"
proof (cases "a + 1 = M")
  case True
  then have "(a + M * b + 1) = M * (b + 1)" by (simp add: algebra_simps)
  then show ?thesis using True by (simp only: mult_mod_right [symmetric]) simp
next
  case False
  then have "a + 1 < M" using assms(1) by simp
  moreover have "M * Suc b \<le> M * M" using assms(2) by (intro mult_le_mono2) simp
  ultimately have "a + M * b + 1 < M * M" by simp
  then show ?thesis using \<open>a + 1 < M\<close> assms(2) by simp
qed

lemma prng_tick_num: "words_num (prng_tick p) = (words_num p + 1) mod 2 ^ 128"
proof -
  obtain lo hi where p: "p = (lo, hi)" by fastforce
  have u: "unat (x + 1) = (unat x + 1) mod 2 ^ 64" for x :: u64 by (simp add: unat_word_ariths)
  have z: "lo + 1 = 0 \<longleftrightarrow> (unat lo + 1) mod 2 ^ 64 = 0" by (simp only: u [symmetric] unat_eq_0)
  have h: "unat hi < 2 ^ 64" "unat lo < 2 ^ 64" using unsigned_less [of hi] unsigned_less [of lo] by simp_all
  have "unat (hi + (if lo + 1 = 0 then 1 else 0)) = (unat hi + (if (unat lo + 1) mod 2 ^ 64 = 0 then 1 else 0)) mod 2 ^ 64"
    unfolding z using u [of hi] h(1) by simp
  then have "words_num (prng_tick p)
    = (unat lo + 1) mod 2 ^ 64 + 2 ^ 64 * ((unat hi + (if (unat lo + 1) mod 2 ^ 64 = 0 then 1 else 0)) mod 2 ^ 64)"
    by (simp only: p prng_tick_def words_num_def case_prod_conv Let_def fst_conv snd_conv u)
  also have "\<dots> = (unat lo + 2 ^ 64 * unat hi + 1) mod (2 ^ 64 * 2 ^ 64)" by (rule two_digit_inc [OF h(2,1)])
  also have "2 ^ 64 * 2 ^ 64 = (2 ^ 128 :: nat)" by simp
  finally show ?thesis by (simp only: p words_num_def fst_conv snd_conv)
qed

section \<open>Properties\<close>

text \<open>
  C6. For each of the three key sizes, any initialisation vector and additional data, GCM decryption
  inverts GCM encryption: the plain text comes back and both sides end in the same context, so with
  the same authentication tag.
\<close>

theorem gcm_decrypt_encrypt:
  assumes "algo \<le> 2" and ctx_def: "ctx = aes_gcm_aad (aes_gcm_setkey algo key iv) aad"
    and enc: "aes_gcm_encrypt ctx d = (ctx', c)"
  shows "aes_gcm_decrypt ctx c = (ctx', d) \<and> length c = length d"
proof -
  have "gcm_valid ctx" using gcm_setkey_valid [OF assms(1)] by (simp add: ctx_def gcm_aad_valid)
  then have "gcm_dec_loop (ctx\<lparr>gcm_input_len := gcm_input_len ctx + of_nat (length d)\<rparr>) c = (ctx', d) \<and> length c = length d"
    using enc by (intro gcm_loop_roundtrip) (simp_all add: gcm_valid_fields aes_gcm_encrypt_def)
  then show ?thesis by (simp add: aes_gcm_decrypt_def)
qed

theorem gcm_decrypt_encrypt_witness:
  "let ctx = aes_gcm_aad (aes_gcm_setkey 0 (replicate 16 7) (replicate 12 3)) [1, 2]; e = aes_gcm_encrypt ctx (replicate 20 9)
   in aes_gcm_decrypt ctx (snd e) = (fst e, replicate 20 9)"
  using gcm_decrypt_encrypt [of 0 _ "replicate 16 7" "replicate 12 3" "[1, 2]" "replicate 20 9", OF _ refl]
  unfolding Let_def by (metis less_eq_nat.simps(1) prod.collapse)

text \<open>
  C24. The multiplication of blocks, a loop over bytes and bits with a shift register, is the
  multiplication of NIST SP 800-38D on the numbers the blocks denote.
\<close>

theorem gf_mul_standard:
  assumes "length x = AES_BLOCK_SIZE" "length y = AES_BLOCK_SIZE"
  shows "be_num (gcm_gf_mul x y) = gcm_mult (block_bits y) (be_num x) \<and> length (gcm_gf_mul x y) = AES_BLOCK_SIZE"
  using gcm_gf_mul_num [OF assms] by simp

theorem gf_mul_standard_witness:
  "be_num (gcm_gf_mul (replicate 16 0xff) (0x80 # replicate 15 0)) = gcm_mult (block_bits (0x80 # replicate 15 0)) (be_num (replicate 16 0xff))"
  using gf_mul_standard [of "replicate 16 0xff" "0x80 # replicate 15 0"] by simp

text \<open>
  The counter block is incremented as one big-endian 128-bit number that wraps to zero; it is
  not the 32-bit increment of NIST SP 800-38D, which would leave the first twelve bytes alone.
\<close>

theorem gcm_counter_128:
  assumes "length a = AES_BLOCK_SIZE"
  shows "be_num (gcm_inc_ctr a) = (be_num a + 1) mod 2 ^ 128 \<and> length (gcm_inc_ctr a) = AES_BLOCK_SIZE
    \<and> (be_num a mod 2 ^ 32 = 2 ^ 32 - 1 \<longrightarrow> be_num (gcm_inc_ctr a) div 2 ^ 32 = (be_num a div 2 ^ 32 + 1) mod 2 ^ 96)"
proof (intro conjI impI)
  assume "be_num a mod 2 ^ 32 = 2 ^ 32 - 1"
  then have e: "be_num a + 1 = 2 ^ 32 * (be_num a div 2 ^ 32 + 1)"
    using div_mult_mod_eq [of "be_num a" "2 ^ 32"] by simp
  have p: "2 ^ 128 = (2 ^ 32 * 2 ^ 96 :: nat)" by simp
  have "(be_num a + 1) mod 2 ^ 128 = 2 ^ 32 * ((be_num a div 2 ^ 32 + 1) mod 2 ^ 96)"
    by (simp only: e p mult_mod_right)
  then show "be_num (gcm_inc_ctr a) div 2 ^ 32 = (be_num a div 2 ^ 32 + 1) mod 2 ^ 96"
    unfolding gcm_inc_ctr_num(1) [OF assms] by simp
qed (use gcm_inc_ctr_num [OF assms] in simp_all)

theorem gcm_counter_128_witness: "be_num (gcm_inc_ctr (replicate 12 0 @ [0xff, 0xff, 0xff, 0xff])) = 2 ^ 32"
  using gcm_counter_128 [of "replicate 12 0 @ [0xff, 0xff, 0xff, 0xff]"]
  by (simp add: be_num_def le_num_zeros)

text \<open>
  C25. The generator is the one of ANSI X9.31: with \<open>E\<close> the block encryption under the key, the
  output is \<open>E (I xor V)\<close> for \<open>I = E DT\<close>, the new seed is \<open>E (R xor I)\<close>, and the counter \<open>DT\<close> goes up
  by one modulo \<open>2 ^ 128\<close>; on either byte order.
\<close>

theorem prng_x931:
  assumes "actx_algo (prng_aes ctx) \<le> 2" "length data_out = 16" and out: "prng_output big ctx data_out = (ctx', R)"
  shows "let E = sw_aes_ecb_encrypt (sw_aes_setkey (actx_algo (prng_aes ctx)) (actx_key (prng_aes ctx)));
             I = E (mem_bytes big (prng_dt ctx))
         in R = E (xor_bytes I (mem_bytes big (prng_v ctx))) \<and> mem_bytes big (prng_v ctx') = E (xor_bytes R I)
          \<and> words_num (prng_dt ctx') = (words_num (prng_dt ctx) + 1) mod 2 ^ 128 \<and> prng_aes ctx' = prng_aes ctx"
proof -
  have v: "aes_valid (prng_aes ctx)" using assms(1) by (simp add: aes_valid_def)
  have len: "length (aes_ecb_encrypt (prng_aes ctx) p q) = 16" if "length p = 16" "length q = 16" for p q
    using aes.enc_length [OF v that(1)] aes_ecb_valid(1) [OF v that] aes_ecb_valid(1) [OF v that(1) that(1)] by simp
  define I where "I = aes_ecb_encrypt (prng_aes ctx) (mem_bytes big (prng_dt ctx)) (mem_bytes big (0, 0))"
  have I: "length I = 16" by (simp add: I_def len)
  have R: "R = aes_ecb_encrypt (prng_aes ctx) (xor_bytes I (mem_bytes big (prng_v ctx))) data_out"
    using out by (simp add: prng_output_def Let_def I_def [symmetric] words_xor_bytes mem_words_inverse I prod_eq_iff)
  have l: "length R = 16" by (simp add: R len I assms(2))
  have "prng_v ctx' = mem_words big (aes_ecb_encrypt (prng_aes ctx) (xor_bytes R I) (mem_bytes big (prng_v ctx)))"
    using out by (auto simp: prng_output_def Let_def I_def [symmetric] words_xor_bytes mem_words_inverse I R [symmetric] l)
  then have V: "mem_bytes big (prng_v ctx') = aes_ecb_encrypt (prng_aes ctx) (xor_bytes R I) (mem_bytes big (prng_v ctx))"
    by (simp add: mem_words_inverse len I l)
  have "prng_dt ctx' = prng_tick (prng_dt ctx)" "prng_aes ctx' = prng_aes ctx"
    using out by (auto simp: prng_output_def Let_def)
  moreover note R V I_def
  ultimately show ?thesis using I l assms(2) by (simp add: Let_def prng_tick_num aes_ecb_valid(1) [OF v])
qed

theorem prng_x931_witness:
  "let ctx = prng_init 0 (replicate 16 7) 1 2; (ctx', R) = prng_output True ctx (replicate 16 0)
   in R = sw_aes_ecb_encrypt (sw_aes_setkey 0 (replicate 16 7))
            (xor_bytes (sw_aes_ecb_encrypt (sw_aes_setkey 0 (replicate 16 7)) (mem_bytes True (1, 0))) (mem_bytes True (1, 2)))"
  using prng_x931 [of "prng_init 0 (replicate 16 7) 1 2" "replicate 16 0" True]
  by (simp add: prng_init_def aes_setkey_def Let_def case_prod_unfold prod_eq_iff)

end
