(* ===== verification/Stdc.thy ===== *)
theory Stdc
  imports Prelude "HOL-Library.Monad_Syntax"
begin

text \<open>
  The string and memory functions of \<^verbatim>\<open>os/stdc.c\<close> and \<^verbatim>\<open>ilog2\<close> of \<^verbatim>\<open>os/util.c\<close>. Memory is a
  function from byte addresses to bytes. The loops of the string functions run until a zero byte,
  so they are partial: \<open>None\<close> is a loop that does not end.
\<close>

type_synonym mem = "addr \<Rightarrow> u8"

section \<open>Memory functions\<close>

definition msel_memset :: "addr \<Rightarrow> u8 \<Rightarrow> nat \<Rightarrow> mem \<Rightarrow> mem" where
  "msel_memset dst val sz m = fold (\<lambda>idx m. m(dst + idx := val)) [0..<sz] m"

definition msel_memcpy :: "addr \<Rightarrow> addr \<Rightarrow> nat \<Rightarrow> mem \<Rightarrow> mem" where
  "msel_memcpy dst src sz m = fold (\<lambda>idx m. m(dst + idx := m (src + idx))) [0..<sz] m"

text \<open>The bound of the loop of \<^verbatim>\<open>msel_memcmp\<close> is \<open>sz - 1\<close> in 32-bit arithmetic.\<close>

function memcmp_loop :: "mem \<Rightarrow> addr \<Rightarrow> addr \<Rightarrow> nat \<Rightarrow> nat \<Rightarrow> nat" where
  "memcmp_loop m a b lim idx =
     (if idx < lim \<and> m (a + idx) = m (b + idx) then memcmp_loop m a b lim (idx + 1) else idx)"
  by pat_completeness auto
termination by (relation "measure (\<lambda>(m, a, b, lim, idx). lim - idx)") auto

declare memcmp_loop.simps [simp del]

definition msel_memcmp :: "addr \<Rightarrow> addr \<Rightarrow> nat \<Rightarrow> mem \<Rightarrow> int" where
  "msel_memcmp a b sz m =
     (let idx = memcmp_loop m a b ((sz + 2 ^ 32 - 1) mod 2 ^ 32) 0
      in if m (a + idx) < m (b + idx) then -1
         else if m (b + idx) < m (a + idx) then 1 else 0)"

section \<open>String functions\<close>

partial_function (option) strlen_loop :: "mem \<Rightarrow> addr \<Rightarrow> nat \<Rightarrow> nat option" where
  "strlen_loop m src ctr = (if m (src + ctr) \<noteq> 0 then strlen_loop m src (ctr + 1) else Some ctr)"

definition msel_strlen :: "addr \<Rightarrow> mem \<Rightarrow> nat option" where
  "msel_strlen src m = strlen_loop m src 0"

text \<open>\<open>char_val\<close> is the value of a plain \<^verbatim>\<open>char\<close>, whose signedness the compiler chooses.\<close>

partial_function (option) strcmp_loop :: "mem \<Rightarrow> addr \<Rightarrow> addr \<Rightarrow> nat \<Rightarrow> nat option" where
  "strcmp_loop m a b idx =
     (if m (a + idx) \<noteq> 0 \<and> m (a + idx) = m (b + idx) then strcmp_loop m a b (idx + 1) else Some idx)"

definition msel_strcmp :: "(u8 \<Rightarrow> int) \<Rightarrow> addr \<Rightarrow> addr \<Rightarrow> mem \<Rightarrow> int option" where
  "msel_strcmp char_val a b m = do {
     idx \<leftarrow> strcmp_loop m a b 0;
     Some (if char_val (m (a + idx)) < char_val (m (b + idx)) then -1
           else if char_val (m (b + idx)) < char_val (m (a + idx)) then 1 else 0) }"

partial_function (option) strcpy_loop :: "addr \<Rightarrow> addr \<Rightarrow> nat \<Rightarrow> mem \<Rightarrow> mem option" where
  "strcpy_loop dst src idx m =
     (if m (src + idx) \<noteq> 0 then strcpy_loop dst src (idx + 1) (m(dst + idx := m (src + idx))) else Some m)"

definition msel_strcpy :: "addr \<Rightarrow> addr \<Rightarrow> mem \<Rightarrow> mem option" where
  "msel_strcpy dst src m = strcpy_loop dst src 0 m"

section \<open>Logarithm\<close>

definition ilog2 :: "u32 \<Rightarrow> int" where
  "ilog2 op =
     (let last = fold (\<lambda>pos last. if op AND push_bit pos 1 \<noteq> 0 then pos else last) [0..<32] 0
      in if op \<noteq> push_bit last 1 then -1 else int last)"

section \<open>Memory lemmas\<close>

lemma memset_apply: "msel_memset dst v n m y = (if dst \<le> y \<and> y < dst + n then v else m y)"
  unfolding msel_memset_def by (induction n) auto

text \<open>A copy moves the block when the destination does not overlap the rest of the source.\<close>

lemma memcpy_apply:
  assumes "dst \<le> src \<or> src + n \<le> dst"
  shows "msel_memcpy dst src n m y = (if dst \<le> y \<and> y < dst + n then m (src + (y - dst)) else m y)"
proof -
  define F where "F k = fold (\<lambda>idx m. m(dst + idx := m (src + idx))) [0..<k] m" for k
  have F: "F 0 = m" "F (Suc k) = (F k)(dst + k := F k (src + k))" for k by (simp_all add: F_def)
  have "F k y = (if dst \<le> y \<and> y < dst + k then m (src + (y - dst)) else m y)" if "k \<le> n" for k y
    using that
  proof (induction k arbitrary: y)
    case (Suc k)
    have "F k (src + k) = m (src + k)" using assms Suc.IH [of "src + k"] Suc.prems by auto
    then show ?case using Suc.IH [of y] Suc.prems by (auto simp: F)
  qed (auto simp: F)
  then show ?thesis unfolding msel_memcpy_def F_def by simp
qed

lemma memcmp_loop_spec:
  assumes "\<And>i. i < idx \<Longrightarrow> m (a + i) = m (b + i)" "idx \<le> lim"
  shows "memcmp_loop m a b lim idx \<le> lim \<and> (\<forall>i < memcmp_loop m a b lim idx. m (a + i) = m (b + i))
    \<and> (memcmp_loop m a b lim idx < lim \<longrightarrow> m (a + memcmp_loop m a b lim idx) \<noteq> m (b + memcmp_loop m a b lim idx))"
  using assms
proof (induction m a b lim idx rule: memcmp_loop.induct)
  case (1 m a b lim idx)
  show ?case
  proof (cases "idx < lim \<and> m (a + idx) = m (b + idx)")
    case True
    have "m (a + i) = m (b + i)" if "i < idx + 1" for i using that 1 True by (cases "i = idx") auto
    then show ?thesis using 1 True by (subst (1 2 3 4 5) memcmp_loop.simps) auto
  qed (use 1 in \<open>auto simp: memcmp_loop.simps [of m a b lim idx]\<close>)
qed

lemma memcmp_zero_iff:
  assumes "0 < sz" "sz < 2 ^ 32"
  shows "msel_memcmp a b sz m = 0 \<longleftrightarrow> (\<forall>i < sz. m (a + i) = m (b + i))"
proof -
  have lim: "(sz + 2 ^ 32 - 1) mod 2 ^ 32 = sz - 1" using assms by (simp add: mod_if)
  define k where "k = memcmp_loop m a b (sz - 1) 0"
  have k: "k \<le> sz - 1" "\<forall>i < k. m (a + i) = m (b + i)" "k < sz - 1 \<longrightarrow> m (a + k) \<noteq> m (b + k)"
    using memcmp_loop_spec [of 0 m a b "sz - 1"] by (auto simp: k_def)
  have z: "msel_memcmp a b sz m = 0 \<longleftrightarrow> m (a + k) = m (b + k)"
    unfolding msel_memcmp_def lim Let_def k_def by auto
  show ?thesis
  proof
    assume "msel_memcmp a b sz m = 0"
    then have e: "m (a + k) = m (b + k)" "k = sz - 1" using z k by auto
    show "\<forall>i < sz. m (a + i) = m (b + i)"
    proof (intro allI impI)
      fix i assume "i < sz"
      then show "m (a + i) = m (b + i)" using e k(2) by (cases "i = k") auto
    qed
  next
    assume "\<forall>i < sz. m (a + i) = m (b + i)"
    then show "msel_memcmp a b sz m = 0" using z k(1) assms(1) by auto
  qed
qed

lemma strlen_loop_ends:
  assumes "m (src + n) = 0" "\<And>i. k \<le> i \<Longrightarrow> i < n \<Longrightarrow> m (src + i) \<noteq> 0" "k \<le> n"
  shows "strlen_loop m src k = Some n"
  using assms
proof (induction "n - k" arbitrary: k)
  case 0
  then show ?case by (simp add: strlen_loop.simps)
next
  case (Suc d)
  then have "strlen_loop m src (k + 1) = Some n" by (intro Suc.hyps) auto
  then show ?case using Suc by (subst strlen_loop.simps) auto
qed

lemma strcpy_loop_result:
  assumes "m (src + n) = 0" "\<And>i. k \<le> i \<Longrightarrow> i < n \<Longrightarrow> m (src + i) \<noteq> 0" "k \<le> n"
    "dst + n \<le> src \<or> src + n < dst"
  shows "strcpy_loop dst src k m = Some (\<lambda>y. if dst + k \<le> y \<and> y < dst + n then m (src + (y - dst)) else m y)"
  using assms
proof (induction "n - k" arbitrary: k m)
  case 0
  then show ?case by (subst strcpy_loop.simps) (auto simp: fun_eq_iff)
next
  case (Suc d)
  let ?m = "m(dst + k := m (src + k))"
  have same: "?m (src + i) = m (src + i)" if "i \<le> n" for i using Suc.prems(4) Suc.hyps(2) that by auto
  have "strcpy_loop dst src (k + 1) ?m = Some (\<lambda>y. if dst + (k + 1) \<le> y \<and> y < dst + n then ?m (src + (y - dst)) else ?m y)"
    using Suc same by (intro Suc.hyps(1)) auto
  moreover have "\<dots> = Some (\<lambda>y. if dst + k \<le> y \<and> y < dst + n then m (src + (y - dst)) else m y)"
  proof -
    have "?m (src + (y - dst)) = m (src + (y - dst))" if "dst + (k + 1) \<le> y" "y < dst + n" for y
      using that by (intro same) auto
    then show ?thesis using Suc.hyps(2) by (auto simp: fun_eq_iff)
  qed
  ultimately show ?case using Suc by (subst strcpy_loop.simps) auto
qed

section \<open>Properties\<close>

text \<open>
  \<^verbatim>\<open>msel_memcpy\<close> copies the block and changes nothing else, also for overlapping blocks as long
  as the destination does not start inside the source.
\<close>

theorem memcpy_correct:
  assumes "dst \<le> src \<or> src + n \<le> dst"
  shows "msel_memcpy dst src n m = (\<lambda>y. if dst \<le> y \<and> y < dst + n then m (src + (y - dst)) else m y)"
  by (rule ext) (rule memcpy_apply [OF assms])

theorem memcpy_correct_witness:
  "msel_memcpy 100 102 3 (\<lambda>y. of_nat y) 101 = (103 :: u8)"
  using memcpy_correct [of 100 102 3 "\<lambda>y. of_nat y"] by (simp add: fun_eq_iff)

text \<open>
  \<^verbatim>\<open>msel_memcmp\<close> returns 0 exactly for equal blocks when the size is positive; for size 0 its
  loop bound wraps around and it compares bytes outside the blocks.
\<close>

theorem memcmp_correct:
  assumes "sz < 2 ^ 32"
  shows "(0 < sz \<longrightarrow> (msel_memcmp a b sz m = 0 \<longleftrightarrow> (\<forall>i < sz. m (a + i) = m (b + i))))
    \<and> (sz = 0 \<longrightarrow> m a \<noteq> m b \<longrightarrow> msel_memcmp a b sz m \<noteq> 0)"
proof (intro conjI impI)
  show "0 < sz \<Longrightarrow> msel_memcmp a b sz m = 0 \<longleftrightarrow> (\<forall>i < sz. m (a + i) = m (b + i))"
    using assms by (rule memcmp_zero_iff [rotated])
  assume "sz = 0" "m a \<noteq> m b"
  then show "msel_memcmp a b sz m \<noteq> 0"
    by (auto simp: msel_memcmp_def Let_def memcmp_loop.simps [of m a b _ 0])
qed

theorem memcmp_correct_witness:
  "msel_memcmp 0 10 2 (\<lambda>y. of_nat y) \<noteq> 0 \<and> msel_memcmp 0 10 0 (\<lambda>y. of_nat y) \<noteq> 0"
proof -
  have "(of_nat 0 :: u8) \<noteq> of_nat 10" by simp
  then show ?thesis
    using memcmp_correct [of 2 0 10 "\<lambda>y. of_nat y"] memcmp_correct [of 0 0 10 "\<lambda>y. of_nat y"]
    by (auto simp: less_2_cases_iff)
qed

text \<open>
  \<^verbatim>\<open>msel_strcpy\<close> copies the characters before the terminating zero but not the zero itself:
  the byte after the copy keeps its old value.
\<close>

theorem strcpy_not_terminated:
  assumes "m (src + n) = 0" "\<forall>i < n. m (src + i) \<noteq> 0" "dst + n \<le> src \<or> src + n < dst"
  shows "\<exists>m'. msel_strcpy dst src m = Some m' \<and> (\<forall>i < n. m' (dst + i) = m (src + i)) \<and> m' (dst + n) = m (dst + n)"
  using strcpy_loop_result [of m src n 0 dst] assms by (simp add: msel_strcpy_def)

theorem strcpy_not_terminated_witness:
  "\<exists>m'. msel_strcpy 10 0 (\<lambda>y. if y = 2 then 0 else 7) = Some m' \<and> m' 12 = 7"
  using strcpy_not_terminated [of "\<lambda>y. if y = 2 then 0 else 7" 0 2 10] by auto

end
