(* ===== verification/Tidl.thy ===== *)
theory Tidl
  imports Stdc
begin

unbundle bit_operations_syntax

text \<open>
  The serialisation routines of \<^verbatim>\<open>lib/tidl.c\<close> that every application protocol is built on: integers of
  8 to 64 bits and strings. A buffer is the memory from the pointer on, so that a store behind the
  end of the buffer is visible; the position is the 32-bit counter of the code.
\<close>

section \<open>Operations\<close>

type_synonym sbuf = "nat \<Rightarrow> u8"

text \<open>The output buffer (none for the null pointer, where only the size is counted) and position.\<close>

type_synonym ser_st = "sbuf option \<times> u32"

primrec ser_bytes :: "nat \<Rightarrow> 'a :: len word \<Rightarrow> sbuf \<times> u32 \<Rightarrow> sbuf \<times> u32" where
  "ser_bytes 0 p s = s"
| "ser_bytes (Suc shift) p s =
     ser_bytes shift p ((fst s)(unat (snd s) := ucast (if shift > 0 then drop_bit (8 * shift) p else p)), snd s + 1)"

definition integral_serialize :: "nat \<Rightarrow> u32 \<Rightarrow> ser_st \<Rightarrow> 'a :: len word \<Rightarrow> int \<times> ser_st" where
  "integral_serialize serial_size l_buf st p =
     (case st of
        (None, pos) \<Rightarrow> (0, None, pos + of_nat serial_size)
      | (Some buf, pos) \<Rightarrow>
          if l_buf < pos + of_nat serial_size then (-1, Some buf, pos)
          else let (buf, pos) = ser_bytes serial_size p (buf, pos) in (0, Some buf, pos))"

primrec deser_bytes :: "nat \<Rightarrow> sbuf \<Rightarrow> u32 \<Rightarrow> 'a :: len word \<Rightarrow> u32 \<times> 'a word" where
  "deser_bytes 0 buf pos v = (pos, v)"
| "deser_bytes (Suc i) buf pos v = deser_bytes i buf (pos + 1) (push_bit 8 v OR ucast (buf (unat pos)))"

text \<open>The value behind the result pointer changes on success only.\<close>

definition integral_deserialize :: "nat \<Rightarrow> sbuf \<Rightarrow> u32 \<Rightarrow> u32 \<Rightarrow> 'a :: len word \<Rightarrow> int \<times> u32 \<times> 'a word" where
  "integral_deserialize serial_size buf l_buf pos p =
     (if l_buf < pos + of_nat serial_size then (-1, pos, p)
      else let (pos, v) = deser_bytes serial_size buf pos 0 in (0, pos, v))"

definition int8_serialize :: "u32 \<Rightarrow> ser_st \<Rightarrow> 8 word \<Rightarrow> int \<times> ser_st" where "int8_serialize = integral_serialize 1"
definition int16_serialize :: "u32 \<Rightarrow> ser_st \<Rightarrow> 16 word \<Rightarrow> int \<times> ser_st" where "int16_serialize = integral_serialize 2"
definition int32_serialize :: "u32 \<Rightarrow> ser_st \<Rightarrow> 32 word \<Rightarrow> int \<times> ser_st" where "int32_serialize = integral_serialize 4"
definition int64_serialize :: "u32 \<Rightarrow> ser_st \<Rightarrow> 64 word \<Rightarrow> int \<times> ser_st" where "int64_serialize = integral_serialize 8"

definition int8_deserialize :: "sbuf \<Rightarrow> u32 \<Rightarrow> u32 \<Rightarrow> 8 word \<Rightarrow> int \<times> u32 \<times> 8 word" where "int8_deserialize = integral_deserialize 1"
definition int16_deserialize :: "sbuf \<Rightarrow> u32 \<Rightarrow> u32 \<Rightarrow> 16 word \<Rightarrow> int \<times> u32 \<times> 16 word" where "int16_deserialize = integral_deserialize 2"
definition int32_deserialize :: "sbuf \<Rightarrow> u32 \<Rightarrow> u32 \<Rightarrow> 32 word \<Rightarrow> int \<times> u32 \<times> 32 word" where "int32_deserialize = integral_deserialize 4"
definition int64_deserialize :: "sbuf \<Rightarrow> u32 \<Rightarrow> u32 \<Rightarrow> 64 word \<Rightarrow> int \<times> u32 \<times> 64 word" where "int64_deserialize = integral_deserialize 8"

definition uint8_serialize :: "u32 \<Rightarrow> ser_st \<Rightarrow> 8 word \<Rightarrow> int \<times> ser_st" where "uint8_serialize = integral_serialize 1"
definition uint16_serialize :: "u32 \<Rightarrow> ser_st \<Rightarrow> 16 word \<Rightarrow> int \<times> ser_st" where "uint16_serialize = integral_serialize 2"
definition uint32_serialize :: "u32 \<Rightarrow> ser_st \<Rightarrow> 32 word \<Rightarrow> int \<times> ser_st" where "uint32_serialize = integral_serialize 4"
definition uint64_serialize :: "u32 \<Rightarrow> ser_st \<Rightarrow> 64 word \<Rightarrow> int \<times> ser_st" where "uint64_serialize = integral_serialize 8"

definition uint8_deserialize :: "sbuf \<Rightarrow> u32 \<Rightarrow> u32 \<Rightarrow> 8 word \<Rightarrow> int \<times> u32 \<times> 8 word" where "uint8_deserialize = integral_deserialize 1"
definition uint16_deserialize :: "sbuf \<Rightarrow> u32 \<Rightarrow> u32 \<Rightarrow> 16 word \<Rightarrow> int \<times> u32 \<times> 16 word" where "uint16_deserialize = integral_deserialize 2"
definition uint32_deserialize :: "sbuf \<Rightarrow> u32 \<Rightarrow> u32 \<Rightarrow> 32 word \<Rightarrow> int \<times> u32 \<times> 32 word" where "uint32_deserialize = integral_deserialize 4"
definition uint64_deserialize :: "sbuf \<Rightarrow> u32 \<Rightarrow> u32 \<Rightarrow> 64 word \<Rightarrow> int \<times> u32 \<times> 64 word" where "uint64_deserialize = integral_deserialize 8"

lemmas tidl_defs =
  int8_serialize_def int16_serialize_def int32_serialize_def int64_serialize_def
  int8_deserialize_def int16_deserialize_def int32_deserialize_def int64_deserialize_def
  uint8_serialize_def uint16_serialize_def uint32_serialize_def uint64_serialize_def
  uint8_deserialize_def uint16_deserialize_def uint32_deserialize_def uint64_deserialize_def

text \<open>The loops over byte arrays, which stop at the first failure.\<close>

fun array_serialize :: "u32 \<Rightarrow> ser_st \<Rightarrow> bytes \<Rightarrow> int \<times> ser_st" where
  "array_serialize l_out st [] = (0, st)"
| "array_serialize l_out st (x # xs) =
     (let (ret, st) = uint8_serialize l_out st x
      in if ret \<noteq> 0 then (ret, st) else array_serialize l_out st xs)"

fun array_deserialize :: "sbuf \<Rightarrow> u32 \<Rightarrow> u32 \<Rightarrow> bytes \<Rightarrow> int \<times> u32 \<times> bytes" where
  "array_deserialize buf l_in pos [] = (0, pos, [])"
| "array_deserialize buf l_in pos (x # out) =
     (let (ret, pos, x) = uint8_deserialize buf l_in pos x
      in if ret \<noteq> 0 then (ret, pos, x # out)
         else let (ret, pos, out) = array_deserialize buf l_in pos out in (ret, pos, x # out))"

text \<open>A string is its characters before the terminating zero; the length is cut to 16 bits.\<close>

definition string_serialize :: "u32 \<Rightarrow> ser_st \<Rightarrow> bytes \<Rightarrow> int \<times> ser_st" where
  "string_serialize l_out st s =
     (let len = of_nat (length s) :: 16 word;
          (r, st) = uint16_serialize l_out st len
      in if r \<noteq> 0 then (r, st) else array_serialize l_out st (take (unat len) s))"

text \<open>
  \<^verbatim>\<open>string_deserialize\<close> on the memory \<open>m\<close>, with the input at \<open>inp\<close>: the result pointer is stored at
  \<open>out\<close> as a big-endian word, and the characters at \<open>&out[i]\<close>, four bytes apart from \<open>out\<close> on.
  \<open>malloc\<close> is the allocator's answer for a size.
\<close>

fun string_chars :: "nat \<Rightarrow> nat \<Rightarrow> addr \<Rightarrow> u32 \<Rightarrow> u32 \<Rightarrow> addr \<Rightarrow> mem \<Rightarrow> int \<times> u32 \<times> mem" where
  "string_chars 0 i inp l_in pos out m = (0, pos, m)"
| "string_chars (Suc n) i inp l_in pos out m =
     (let (r, pos, c) = uint8_deserialize (\<lambda>k. m (inp + k)) l_in pos (m (out + 4 * i));
          m = m(out + 4 * i := c)
      in if r \<noteq> 0 then (r, pos, m) else string_chars n (i + 1) inp l_in pos out m)"

definition store_ptr :: "addr \<Rightarrow> addr \<Rightarrow> mem \<Rightarrow> mem" where
  "store_ptr a p m = fold (\<lambda>i m. m(a + i := be_bytes 4 (of_nat p :: u32) ! i)) [0..<4] m"

definition string_deserialize :: "(nat \<Rightarrow> addr option) \<Rightarrow> addr \<Rightarrow> u32 \<Rightarrow> u32 \<Rightarrow> addr \<Rightarrow> mem \<Rightarrow> int \<times> u32 \<times> mem" where
  "string_deserialize malloc inp l_in pos out m =
     (let (r, pos, len) = uint16_deserialize (\<lambda>k. m (inp + k)) l_in pos 0
      in if r \<noteq> 0 then (r, pos, m)
         else (case malloc (1 + unat len) of
                 None \<Rightarrow> (-1, pos, store_ptr out 0 m)
               | Some p \<Rightarrow>
                   let m = store_ptr out p m;
                       m = msel_memset p 0 (1 + unat len) m
                   in string_chars (unat len) 0 inp l_in pos out m))"

section \<open>The codec interface\<close>

definition put :: "sbuf \<Rightarrow> nat \<Rightarrow> bytes \<Rightarrow> sbuf" where
  "put b i xs = (\<lambda>k. if i \<le> k \<and> k < i + length xs then xs ! (k - i) else b k)"

definition get :: "sbuf \<Rightarrow> nat \<Rightarrow> nat \<Rightarrow> bytes" where
  "get b i n = map (\<lambda>k. b (i + k)) [0..<n]"

lemma put_Nil [simp]: "put b i [] = b"
  by (rule ext) (auto simp: put_def)

lemma put_other: "k < i \<or> i + length xs \<le> k \<Longrightarrow> put b i xs k = b k"
  by (auto simp: put_def)

lemma put_append: "put (put b i xs) (i + length xs) ys = put b i (xs @ ys)"
  by (rule ext) (auto simp: put_def nth_append)

lemma put_Cons: "put (b(i := x)) (Suc i) xs = put b i (x # xs)"
  by (rule ext) (auto simp: put_def nth_Cons' dest: le_neq_implies_less)

lemma get_put: "get (put b i xs) i (length xs) = xs"
  by (rule nth_equalityI) (simp_all add: get_def put_def)

lemma put_get: "put b i (get b i n) = b"
  by (rule ext) (auto simp: get_def put_def less_diff_conv2)

lemma get_append: "get b i (m + n) = get b i m @ get b (i + m) n"
proof (rule nth_equalityI)
  fix k assume "k < length (get b i (m + n))"
  then show "get b i (m + n) ! k = (get b i m @ get b (i + m) n) ! k"
    by (cases "k < m") (simp_all add: get_def nth_append not_less less_diff_conv2)
qed (simp add: get_def)

lemma get_split: "get b i (length xs + n) = xs @ ys \<longleftrightarrow> get b i (length xs) = xs \<and> get b (i + length xs) n = ys"
proof -
  have "length (get b i (length xs)) = length xs" by (simp add: get_def)
  then show ?thesis by (simp add: get_append)
qed

lemma get_Suc: "get b i (Suc n) = b i # get b (Suc i) n"
  using get_append [of b i 1 n] by (simp add: get_def)

text \<open>What a protocol needs of a pair of routines: a value has a wire format of fixed size, written
  when there is room, only counted for a null buffer, and read back; without room both fail, and
  bytes that are no wire format are refused.\<close>

locale codec =
  fixes ser :: "u32 \<Rightarrow> ser_st \<Rightarrow> 'v \<Rightarrow> int \<times> ser_st"
    and deser :: "sbuf \<Rightarrow> u32 \<Rightarrow> u32 \<Rightarrow> 'v \<Rightarrow> int \<times> u32 \<times> 'v"
    and wire :: "'v \<Rightarrow> bytes" and sz :: nat and ok :: "'v \<Rightarrow> bool"
  assumes wire_size: "ok v \<Longrightarrow> length (wire v) = sz"
    and ser_ok: "ok v \<Longrightarrow> unat pos + sz \<le> unat l \<Longrightarrow>
      ser l (Some b, pos) v = (0, Some (put b (unat pos) (wire v)), pos + of_nat sz)"
    and ser_null: "ok v \<Longrightarrow> ser l (None, pos) v = (0, None, pos + of_nat sz)"
    and ser_short: "ok v \<Longrightarrow> unat pos \<le> unat l \<Longrightarrow> unat l < unat pos + sz \<Longrightarrow> unat pos + sz < 2 ^ 32 \<Longrightarrow>
      fst (ser l (Some b, pos) v) = -1"
    and deser_ok: "ok v \<Longrightarrow> ok v0 \<Longrightarrow> unat pos + sz \<le> unat l \<Longrightarrow> get b (unat pos) sz = wire v \<Longrightarrow>
      deser b l pos v0 = (0, pos + of_nat sz, v)"
    and deser_short: "ok v0 \<Longrightarrow> unat pos \<le> unat l \<Longrightarrow> unat l < unat pos + sz \<Longrightarrow> unat pos + sz < 2 ^ 32 \<Longrightarrow>
      fst (deser b l pos v0) = -1"
    and deser_cases: "ok v0 \<Longrightarrow> unat pos + sz \<le> unat l \<Longrightarrow>
      (\<exists>v. ok v \<and> get b (unat pos) sz = wire v) \<or> fst (deser b l pos v0) = -1"

text \<open>The contract of a pair of routines that applications rely on.\<close>

definition roundtrips :: "(u32 \<Rightarrow> ser_st \<Rightarrow> 'v \<Rightarrow> int \<times> ser_st) \<Rightarrow> (sbuf \<Rightarrow> u32 \<Rightarrow> u32 \<Rightarrow> 'v \<Rightarrow> int \<times> u32 \<times> 'v)
    \<Rightarrow> nat \<Rightarrow> ('v \<Rightarrow> bool) \<Rightarrow> bool" where
  "roundtrips ser deser sz ok \<longleftrightarrow> (\<forall>v v0 l pos b. ok v \<longrightarrow> ok v0 \<longrightarrow> unat pos \<le> unat l \<longrightarrow> unat pos + sz < 2 ^ 32 \<longrightarrow>
     ser l (None, pos) v = (0, None, pos + of_nat sz)
   \<and> (if unat pos + sz \<le> unat l
      then (\<exists>b'. ser l (Some b, pos) v = (0, Some b', pos + of_nat sz)
             \<and> deser b' l pos v0 = (0, pos + of_nat sz, v)
             \<and> (\<forall>k. k < unat pos \<or> unat pos + sz \<le> k \<longrightarrow> b' k = b k))
         \<and> (case deser b l pos v0 of (r, pos', w) \<Rightarrow>
              r = -1 \<or> r = 0 \<and> pos' = pos + of_nat sz \<and> ser l (Some b, pos) w = (0, Some b, pos'))
      else fst (ser l (Some b, pos) v) = -1 \<and> fst (deser b l pos v0) = -1))"

context codec
begin

lemma codec_roundtrips: "roundtrips ser deser sz ok"
proof (unfold roundtrips_def, intro allI impI)
  fix v v0 and l pos :: u32 and b
  assume a: "ok v" "ok v0" "unat pos \<le> unat l" "unat pos + sz < 2 ^ 32"
  let ?b = "put b (unat pos) (wire v)"
  have "get ?b (unat pos) sz = wire v" using get_put [of b "unat pos" "wire v"] wire_size [OF a(1)] by simp
  then have d: "deser ?b l pos v0 = (0, pos + of_nat sz, v)" if "unat pos + sz \<le> unat l"
    using deser_ok [OF a(1,2) that] by simp
  show "ser l (None, pos) v = (0, None, pos + of_nat sz)
   \<and> (if unat pos + sz \<le> unat l
      then (\<exists>b'. ser l (Some b, pos) v = (0, Some b', pos + of_nat sz)
             \<and> deser b' l pos v0 = (0, pos + of_nat sz, v)
             \<and> (\<forall>k. k < unat pos \<or> unat pos + sz \<le> k \<longrightarrow> b' k = b k))
         \<and> (case deser b l pos v0 of (r, pos', w) \<Rightarrow>
              r = -1 \<or> r = 0 \<and> pos' = pos + of_nat sz \<and> ser l (Some b, pos) w = (0, Some b, pos'))
      else fst (ser l (Some b, pos) v) = -1 \<and> fst (deser b l pos v0) = -1)"
  proof (cases "unat pos + sz \<le> unat l")
    case True
    then have "ser l (Some b, pos) v = (0, Some ?b, pos + of_nat sz)" by (rule ser_ok [OF a(1)])
    moreover have "case deser b l pos v0 of (r, pos', w) \<Rightarrow>
        r = -1 \<or> r = 0 \<and> pos' = pos + of_nat sz \<and> ser l (Some b, pos) w = (0, Some b, pos')"
      using deser_cases [OF a(2) True, of b]
    proof
      assume "\<exists>w. ok w \<and> get b (unat pos) sz = wire w"
      then obtain w where w: "ok w" "get b (unat pos) sz = wire w" by auto
      show ?thesis using deser_ok [OF w(1) a(2) True w(2)] ser_ok [OF w(1) True, of b] put_get [of b "unat pos" sz] w(2) by simp
    qed (simp add: split_beta)
    ultimately show ?thesis using True d put_other [of _ "unat pos" "wire v" b] wire_size [OF a(1)] ser_null [OF a(1)] by auto
  next
    case False
    then show ?thesis using a by (simp add: ser_null ser_short deser_short)
  qed
qed

end

section \<open>Integers\<close>

lemma be_bytes_Suc: "be_bytes (Suc n) p = ucast (drop_bit (8 * n) p) # be_bytes n p"
  by (simp add: be_bytes_def le_bytes_def)

lemma unat_step: "unat pos + Suc n < 2 ^ 32 \<Longrightarrow> unat (pos + 1 :: u32) = Suc (unat pos)"
  by (subst unat_add_lem [THEN iffD1]) simp_all

lemma ser_bytes_put: "unat pos + n < 2 ^ 32 \<Longrightarrow> ser_bytes n p (b, pos) = (put b (unat pos) (be_bytes n p), pos + of_nat n)"
proof (induction n arbitrary: b pos)
  case (Suc n)
  have "(if n > 0 then drop_bit (8 * n) p else p) = drop_bit (8 * n) p" by simp
  then show ?case using Suc.IH [of "pos + 1"] Suc.prems
    by (simp add: unat_step be_bytes_Suc put_Cons add.assoc)
qed (simp add: be_bytes_def le_bytes_def)

lemma deser_bytes_get:
  "unat pos + n < 2 ^ 32 \<Longrightarrow> get b (unat pos) n = be_bytes n v \<Longrightarrow>
   deser_bytes n b pos w = (pos + of_nat n, push_bit (8 * n) w OR take_bit (8 * n) v)"
proof (induction n arbitrary: pos w)
  case (Suc n)
  have h: "b (unat pos) = ucast (drop_bit (8 * n) v)" "get b (unat (pos + 1)) n = be_bytes n v"
    using Suc.prems by (simp_all add: get_Suc be_bytes_Suc unat_step)
  have "push_bit (8 * n) (push_bit 8 w OR ucast (ucast (drop_bit (8 * n) v) :: u8)) OR take_bit (8 * n) v
    = push_bit (8 * Suc n) w OR take_bit (8 * Suc n) v"
    by (rule bit_word_eqI)
      (auto simp: bit_or_iff bit_push_bit_iff bit_take_bit_iff bit_ucast_iff bit_drop_bit_eq algebra_simps)
  then show ?case using Suc.IH [OF _ h(2)] Suc.prems by (simp add: unat_step h(1) add.assoc)
qed simp

lemma room_iff:
  assumes "unat pos + n < 2 ^ 32"
  shows "l < pos + of_nat n \<longleftrightarrow> unat l < unat (pos :: u32) + n"
proof -
  have "unat (pos + of_nat n) = unat pos + n"
    using assms by (simp add: unat_word_ariths unsigned_of_nat take_bit_eq_mod)
  then show ?thesis by (simp add: word_less_nat_alt)
qed

lemma u32_room: "unat pos + n \<le> unat (l :: u32) \<Longrightarrow> unat pos + n < 2 ^ 32"
  using unsigned_less [of l, where 'a = nat] by simp

lemma integral_codec:
  assumes "LENGTH('a :: len) = 8 * n"
  shows "codec (integral_serialize n) (integral_deserialize n) (be_bytes n :: 'a word \<Rightarrow> bytes) n (\<lambda>v. True)"
proof
  fix v v0 :: "'a word" and pos l :: u32 and b :: sbuf
  show "length (be_bytes n v) = n" by simp
  show "integral_serialize n l (None, pos) v = (0, None, pos + of_nat n)" by (simp add: integral_serialize_def)
  {
    assume "unat pos + n \<le> unat l"
    from u32_room [OF this] this show "integral_serialize n l (Some b, pos) v = (0, Some (put b (unat pos) (be_bytes n v)), pos + of_nat n)"
      by (simp add: integral_serialize_def room_iff ser_bytes_put)
  }
  {
    assume "unat pos + n \<le> unat l" "get b (unat pos) n = be_bytes n v"
    from u32_room [OF this(1)] this assms show "integral_deserialize n b l pos v0 = (0, pos + of_nat n, v)"
      by (simp add: integral_deserialize_def room_iff deser_bytes_get take_bit_length_eq flip: assms)
  }
  have "get b (unat pos) n = be_bytes n (of_nat (be_num (get b (unat pos) n)) :: 'a word)"
    using be_bytes_num [where 'a = 'a, of "get b (unat pos) n"] assms by (simp add: get_def)
  then show "(\<exists>v :: 'a word. True \<and> get b (unat pos) n = be_bytes n v) \<or> fst (integral_deserialize n b l pos v0) = -1"
    by blast
  assume "unat l < unat pos + n" "unat pos + n < 2 ^ 32"
  then show "fst (integral_serialize n l (Some b, pos) v) = -1" "fst (integral_deserialize n b l pos v0) = -1"
    by (simp_all add: integral_serialize_def integral_deserialize_def room_iff)
qed

interpretation u8c: codec uint8_serialize uint8_deserialize "be_bytes 1" 1 "\<lambda>v. True"
  unfolding tidl_defs by (rule integral_codec) simp

interpretation u16c: codec uint16_serialize uint16_deserialize "be_bytes 2" 2 "\<lambda>v. True"
  unfolding tidl_defs by (rule integral_codec) simp

interpretation i32c: codec int32_serialize int32_deserialize "be_bytes 4" 4 "\<lambda>v. True"
  unfolding tidl_defs by (rule integral_codec) simp

interpretation u32c: codec uint32_serialize uint32_deserialize "be_bytes 4" 4 "\<lambda>v. True"
  unfolding tidl_defs by (rule integral_codec) simp

interpretation u64c: codec uint64_serialize uint64_deserialize "be_bytes 8" 8 "\<lambda>v. True"
  unfolding tidl_defs by (rule integral_codec) simp

section \<open>Arrays of bytes\<close>

lemma be_bytes_1: "be_bytes (Suc 0) (x :: u8) = [x]"
  by (simp add: be_bytes_def le_bytes_def)

lemma u8_ser:
  "unat pos + 1 \<le> unat l \<Longrightarrow> uint8_serialize l (Some b, pos) x = (0, Some (put b (unat pos) [x]), pos + 1)"
  "uint8_serialize l (None, pos) x = (0, None, pos + 1)"
  "unat pos = unat l \<Longrightarrow> unat pos + 1 < 2 ^ 32 \<Longrightarrow> fst (uint8_serialize l (Some b, pos) x) = -1"
  using u8c.ser_ok [of pos l b x] u8c.ser_null [of l pos x] u8c.ser_short [of pos l b x] by (simp_all add: be_bytes_1)

lemma u8_deser:
  "unat pos + 1 \<le> unat l \<Longrightarrow> uint8_deserialize b l pos x = (0, pos + 1, b (unat pos))"
  "unat pos = unat l \<Longrightarrow> unat pos + 1 < 2 ^ 32 \<Longrightarrow> fst (uint8_deserialize b l pos x) = -1"
  using u8c.deser_ok [of pos l b "b (unat pos)" x] u8c.deser_short [of pos l b x] by (simp_all add: be_bytes_1 get_def)

lemma array_ser:
  "unat pos + length xs \<le> unat l \<Longrightarrow>
    array_serialize l (Some b, pos) xs = (0, Some (put b (unat pos) xs), pos + of_nat (length xs))"
proof (induction xs arbitrary: b pos)
  case (Cons x xs)
  have "unat (pos + 1) = Suc (unat pos)" using Cons.prems u32_room [OF Cons.prems] by (simp add: unat_step)
  then show ?case using Cons.IH [of "pos + 1"] Cons.prems put_append [of b "unat pos" "[x]" xs] by (simp add: u8_ser(1))
qed simp

lemma array_ser_null: "array_serialize l (None, pos) xs = (0, None, pos + of_nat (length xs))"
  by (induction xs arbitrary: pos) (simp_all add: u8_ser(2) add.assoc)

lemma array_short:
  "unat pos \<le> unat l \<Longrightarrow> unat l < unat pos + length xs \<Longrightarrow> unat pos + length xs < 2 ^ 32 \<Longrightarrow>
    fst (array_serialize l (Some b, pos) xs) = -1 \<and> fst (array_deserialize c l pos xs) = -1"
proof (induction xs arbitrary: b pos)
  case (Cons x xs)
  show ?case
  proof (cases "unat pos = unat l")
    case True
    then show ?thesis using Cons.prems u8_ser(3) [OF True, of b x] u8_deser(2) [OF True, of c x]
      by (auto simp: prod.case_eq_if)
  next
    case False
    then have "unat pos + 1 \<le> unat l" "unat (pos + 1) = Suc (unat pos)" using Cons.prems by (simp_all add: unat_step)
    then show ?thesis using Cons.IH [of "pos + 1"] Cons.prems by (simp add: u8_ser(1) u8_deser(1) prod.case_eq_if)
  qed
qed simp

lemma array_deser:
  "unat pos + length xs \<le> unat l \<Longrightarrow> get b (unat pos) (length xs) = v \<Longrightarrow>
    array_deserialize b l pos xs = (0, pos + of_nat (length xs), v)"
proof (induction xs arbitrary: v pos)
  case (Cons x xs)
  have "unat (pos + 1) = Suc (unat pos)" using Cons.prems u32_room [OF Cons.prems(1)] by (simp add: unat_step)
  moreover have "v = b (unat pos) # get b (Suc (unat pos)) (length xs)" using Cons.prems(2) by (simp add: get_Suc)
  ultimately show ?case using Cons.IH [of "pos + 1"] Cons.prems(1) by (simp add: u8_deser(1))
qed (simp add: get_def)

lemma array_codec: "codec array_serialize array_deserialize (\<lambda>v. v) n (\<lambda>v. length v = n)"
  by unfold_locales (auto simp: array_ser array_ser_null array_short array_deser get_def)

interpretation bytes16: codec array_serialize array_deserialize "\<lambda>v. v" 16 "\<lambda>v. length v = 16"
  by (rule array_codec)

interpretation bytes32: codec array_serialize array_deserialize "\<lambda>v. v" 32 "\<lambda>v. length v = 32"
  by (rule array_codec)

interpretation bytes128: codec array_serialize array_deserialize "\<lambda>v. v" 128 "\<lambda>v. length v = 128"
  by (rule array_codec)

section \<open>Enumerations and structures\<close>

text \<open>An enumeration travels as the 32-bit integer of its value; an unknown one is refused.\<close>

locale enum_codec =
  fixes ser :: "u32 \<Rightarrow> ser_st \<Rightarrow> 'e \<Rightarrow> int \<times> ser_st"
    and deser :: "sbuf \<Rightarrow> u32 \<Rightarrow> u32 \<Rightarrow> 'e \<Rightarrow> int \<times> u32 \<times> 'e"
    and code :: "'e \<Rightarrow> u32"
  assumes ser_code: "ser l st v = int32_serialize l st (code v)"
    and deser_code: "int32_deserialize b l pos 0 = (0, pos', code v) \<Longrightarrow> deser b l pos v0 = (0, pos', v)"
    and deser_fail: "fst (int32_deserialize b l pos 0) \<noteq> 0 \<Longrightarrow>
      deser b l pos v0 = (fst (int32_deserialize b l pos 0), fst (snd (int32_deserialize b l pos 0)), v0)"
    and deser_unknown: "int32_deserialize b l pos 0 = (0, pos', c) \<Longrightarrow> c \<notin> range code \<Longrightarrow> deser b l pos v0 = (-1, pos', v0)"

sublocale enum_codec \<subseteq> codec ser deser "\<lambda>v. be_bytes 4 (code v)" 4 "\<lambda>v. True"
proof
  fix v v0 and pos l :: u32 and b :: sbuf
  show "length (be_bytes 4 (code v)) = 4" by simp
  show "ser l (None, pos) v = (0, None, pos + of_nat 4)" by (simp add: ser_code i32c.ser_null)
  show "ser l (Some b, pos) v = (0, Some (put b (unat pos) (be_bytes 4 (code v))), pos + of_nat 4)" if "unat pos + 4 \<le> unat l"
    using that by (simp add: ser_code i32c.ser_ok)
  show "deser b l pos v0 = (0, pos + of_nat 4, v)" if "unat pos + 4 \<le> unat l" "get b (unat pos) 4 = be_bytes 4 (code v)"
    using that by (intro deser_code) (simp add: i32c.deser_ok)
  show "(\<exists>v. True \<and> get b (unat pos) 4 = be_bytes 4 (code v)) \<or> fst (deser b l pos v0) = -1" if r: "unat pos + 4 \<le> unat l"
  proof -
    obtain c :: u32 where c: "get b (unat pos) 4 = be_bytes 4 c"
      using be_bytes_num [where 'a = 32, of "get b (unat pos) 4"] by (auto simp: get_def intro: that [OF sym])
    then show ?thesis using i32c.deser_ok [OF _ _ r c, of 0] deser_unknown [of b l pos _ c v0] by (cases "c \<in> range code") auto
  qed
  assume s: "unat pos \<le> unat l" "unat l < unat pos + 4" "unat pos + 4 < 2 ^ 32"
  then show "fst (ser l (Some b, pos) v) = -1" by (simp add: ser_code i32c.ser_short)
  show "fst (deser b l pos v0) = -1" using i32c.deser_short [of pos l b 0] s by (simp add: deser_fail)
qed

text \<open>A structure with one field, and one with two fields written one after the other.\<close>

locale codec1 = a: codec ser1 deser1 wire1 n1 ok1
  for ser1 :: "u32 \<Rightarrow> ser_st \<Rightarrow> 'a \<Rightarrow> int \<times> ser_st" and deser1 wire1 n1 ok1 +
  fixes ser :: "u32 \<Rightarrow> ser_st \<Rightarrow> 'r \<Rightarrow> int \<times> ser_st"
    and deser :: "sbuf \<Rightarrow> u32 \<Rightarrow> u32 \<Rightarrow> 'r \<Rightarrow> int \<times> u32 \<times> 'r"
    and f :: "'r \<Rightarrow> 'a" and mk :: "'a \<Rightarrow> 'r"
  assumes ser_def: "ser l st v = ser1 l st (f v)"
    and deser_def: "deser b l pos v = (let (ret, pos, x) = deser1 b l pos (f v) in (ret, pos, mk x))"
    and mk: "f (mk x) = x" "mk (f v) = v"

sublocale codec1 \<subseteq> codec ser deser "\<lambda>v. wire1 (f v)" n1 "\<lambda>v. ok1 (f v)"
proof
  fix v0 and pos l :: u32 and b :: sbuf
  assume "ok1 (f v0)" "unat pos + n1 \<le> unat l"
  from a.deser_cases [OF this, of b]
  show "(\<exists>v. ok1 (f v) \<and> get b (unat pos) n1 = wire1 (f v)) \<or> fst (deser b l pos v0) = -1"
    by (auto simp: deser_def split_beta) (metis mk(1))
qed (auto simp: ser_def deser_def a.wire_size a.ser_ok a.ser_null a.ser_short a.deser_ok a.deser_short mk split_beta)

locale codec2 = a: codec ser1 deser1 wire1 n1 ok1 + b: codec ser2 deser2 wire2 n2 ok2
  for ser1 :: "u32 \<Rightarrow> ser_st \<Rightarrow> 'a \<Rightarrow> int \<times> ser_st" and deser1 wire1 n1 ok1
    and ser2 :: "u32 \<Rightarrow> ser_st \<Rightarrow> 'b \<Rightarrow> int \<times> ser_st" and deser2 wire2 n2 ok2 +
  fixes ser :: "u32 \<Rightarrow> ser_st \<Rightarrow> 'r \<Rightarrow> int \<times> ser_st"
    and deser :: "sbuf \<Rightarrow> u32 \<Rightarrow> u32 \<Rightarrow> 'r \<Rightarrow> int \<times> u32 \<times> 'r"
    and f :: "'r \<Rightarrow> 'a" and g :: "'r \<Rightarrow> 'b" and mk :: "'a \<Rightarrow> 'b \<Rightarrow> 'r"
  assumes ser_def: "ser l st v = (let (ret, st) = ser1 l st (f v) in if ret \<noteq> 0 then (ret, st) else ser2 l st (g v))"
    and deser_def: "deser b l pos v =
      (let (ret, pos, x) = deser1 b l pos (f v)
       in if ret \<noteq> 0 then (ret, pos, mk x (g v))
          else let (ret, pos, y) = deser2 b l pos (g v) in (ret, pos, mk x y))"
    and mk: "f (mk x y) = x" "g (mk x y) = y" "mk (f v) (g v) = v"

sublocale codec2 \<subseteq> codec ser deser "\<lambda>v. wire1 (f v) @ wire2 (g v)" "n1 + n2" "\<lambda>v. ok1 (f v) \<and> ok2 (g v)"
proof
  fix v v0 and pos l :: u32 and b :: sbuf
  assume v: "ok1 (f v) \<and> ok2 (g v)"
  show len: "length (wire1 (f v) @ wire2 (g v)) = n1 + n2" using v by (simp add: a.wire_size b.wire_size)
  show "ser l (None, pos) v = (0, None, pos + of_nat (n1 + n2))"
    using v by (simp add: ser_def a.ser_null b.ser_null add.assoc)
  have step: "unat (pos + of_nat n1) = unat pos + n1" if "unat pos + n1 < 2 ^ 32"
    using that by (simp add: unat_word_ariths unsigned_of_nat take_bit_eq_mod)
  {
    assume r: "unat pos + (n1 + n2) \<le> unat l"
    have s: "unat (pos + of_nat n1) = unat pos + n1" using u32_room [OF r] by (intro step) simp
    show "ser l (Some b, pos) v = (0, Some (put b (unat pos) (wire1 (f v) @ wire2 (g v))), pos + of_nat (n1 + n2))"
      using v r s put_append [of b "unat pos" "wire1 (f v)" "wire2 (g v)"]
      by (simp add: ser_def a.ser_ok b.ser_ok a.wire_size add.assoc)
  }
  {
    assume r: "unat pos + (n1 + n2) \<le> unat l" and v0: "ok1 (f v0) \<and> ok2 (g v0)"
      and "get b (unat pos) (n1 + n2) = wire1 (f v) @ wire2 (g v)"
    then have "get b (unat pos) n1 = wire1 (f v)" "get b (unat pos + n1) n2 = wire2 (g v)"
      using get_split [of b "unat pos" "wire1 (f v)" n2 "wire2 (g v)"] v by (simp_all add: a.wire_size)
    moreover have s: "unat (pos + of_nat n1) = unat pos + n1" using u32_room [OF r] by (intro step) simp
    ultimately show "deser b l pos v0 = (0, pos + of_nat (n1 + n2), v)"
      using v v0 r by (simp add: deser_def a.deser_ok [of "f v"] b.deser_ok [of "g v"] mk add.assoc)
  }
  assume s: "unat pos \<le> unat l" "unat l < unat pos + (n1 + n2)" "unat pos + (n1 + n2) < 2 ^ 32"
  show "fst (ser l (Some b, pos) v) = -1"
  proof (cases "unat pos + n1 \<le> unat l")
    case True
    then show ?thesis using v s step by (simp add: ser_def a.ser_ok b.ser_short)
  next
    case False
    then show ?thesis using v s a.ser_short [of "f v" pos l b] by (simp add: ser_def split_beta)
  qed
next
  fix v0 and pos l :: u32 and b :: sbuf
  assume v0: "ok1 (f v0) \<and> ok2 (g v0)" and s: "unat pos \<le> unat l" "unat l < unat pos + (n1 + n2)" "unat pos + (n1 + n2) < 2 ^ 32"
  show "fst (deser b l pos v0) = -1"
  proof (cases "unat pos + n1 \<le> unat l")
    case True
    have st: "unat (pos + of_nat n1) = unat pos + n1"
      using s(3) by (simp add: unat_word_ariths unsigned_of_nat take_bit_eq_mod)
    from a.deser_cases [OF conjunct1 [OF v0] True, of b] show ?thesis
    proof
      assume "\<exists>v. ok1 v \<and> get b (unat pos) n1 = wire1 v"
      then obtain w where "ok1 w" "get b (unat pos) n1 = wire1 w" by auto
      then show ?thesis using True v0 s st b.deser_short [of "g v0" "pos + of_nat n1" l b] by (simp add: deser_def a.deser_ok [of w] split_beta)
    qed (simp add: deser_def split_beta)
  next
    case False
    then show ?thesis using v0 s a.deser_short [of "f v0" pos l b] by (simp add: deser_def split_beta)
  qed
next
  fix v0 and pos l :: u32 and b :: sbuf
  assume v0: "ok1 (f v0) \<and> ok2 (g v0)" and r: "unat pos + (n1 + n2) \<le> unat l"
  have r1: "unat pos + n1 \<le> unat l" using r by simp
  have st: "unat (pos + of_nat n1) = unat pos + n1"
    using u32_room [OF r] by (simp add: unat_word_ariths unsigned_of_nat take_bit_eq_mod)
  from a.deser_cases [OF conjunct1 [OF v0] r1, of b]
  show "(\<exists>v. (ok1 (f v) \<and> ok2 (g v)) \<and> get b (unat pos) (n1 + n2) = wire1 (f v) @ wire2 (g v)) \<or> fst (deser b l pos v0) = -1"
  proof
    assume "\<exists>v. ok1 v \<and> get b (unat pos) n1 = wire1 v"
    then obtain x where x: "ok1 x" "get b (unat pos) n1 = wire1 x" by auto
    have d: "deser1 b l pos (f v0) = (0, pos + of_nat n1, x)" using a.deser_ok [OF x(1) conjunct1 [OF v0] r1 x(2)] .
    have r2: "unat (pos + of_nat n1) + n2 \<le> unat l" using r st by simp
    from b.deser_cases [OF conjunct2 [OF v0] r2, of b] show ?thesis
    proof
      assume "\<exists>v. ok2 v \<and> get b (unat (pos + of_nat n1)) n2 = wire2 v"
      then obtain y where "ok2 y" "get b (unat pos + n1) n2 = wire2 y" using st by auto
      then show ?thesis using x by (intro disjI1 exI [of _ "mk x y"]) (simp add: mk get_append)
    qed (use d in \<open>simp add: deser_def split_beta\<close>)
  qed (simp add: deser_def split_beta)
qed

section \<open>Properties\<close>


text \<open>
  The bound check adds the size to the position in 32 bits: at the last position the sum wraps to
  zero, so a byte is accepted and stored outside a buffer of any size.
\<close>

theorem tidl_bound_wraps:
  "uint8_serialize l_buf (Some buf, -1) p = (0, Some (buf(2 ^ 32 - 1 := p)), 0) \<and> unat l_buf \<le> 2 ^ 32 - 1"
proof -
  have "unat (-1 :: u32) = 2 ^ 32 - 1" by (simp add: unsigned_minus_1_eq_mask mask_eq_exp_minus_1)
  then show ?thesis using unsigned_less [of l_buf, where 'a = nat]
    by (simp add: uint8_serialize_def integral_serialize_def)
qed

text \<open>
  A string that is read is lost: for the one-character string with character \<open>c\<close> the routine
  succeeds, but the allocated copy stays empty and the character overwrites the first byte of the
  pointer that was to refer to it.
\<close>

theorem string_deserialize_loses:
  assumes "m inp = 0" "m (inp + 1) = 1" "m (inp + 2) = c" "malloc 2 = Some p"
    and "out + 4 \<le> inp" "inp + 3 \<le> p"
  shows "\<exists>m'. string_deserialize malloc inp 3 0 out m = (0, 3, m') \<and> m' p = 0 \<and> m' out = c
    \<and> m' (out + 1) = be_bytes 4 (of_nat p :: u32) ! 1"
proof -
  have "get (\<lambda>k. m (inp + k)) 0 2 = be_bytes 2 (1 :: 16 word)"
    using assms(1,2) by (simp add: get_def be_bytes_def le_bytes_def upt_rec numeral_2_eq_2)
  then have d: "uint16_deserialize (\<lambda>k. m (inp + k)) 3 0 0 = (0, 2, 1)"
    using u16c.deser_ok [of 0 3 "\<lambda>k. m (inp + k)" 1 0] by simp
  define m1 where "m1 = msel_memset p 0 2 (store_ptr out p m)"
  have s: "store_ptr out p m y = (if out \<le> y \<and> y < out + 4 then be_bytes 4 (of_nat p :: u32) ! (y - out) else m y)" for y
    by (auto simp: store_ptr_def upt_rec eval_nat_numeral)
  have "m1 (inp + 2) = c" "m1 p = 0" "m1 (out + 1) = be_bytes 4 (of_nat p :: u32) ! 1"
    using assms(3,5,6) by (simp_all add: m1_def memset_apply s)
  moreover have "uint8_deserialize (\<lambda>k. m1 (inp + k)) 3 2 (m1 out) = (0, 3, m1 (inp + 2))"
    using u8_deser(1) [of 2 3 "\<lambda>k. m1 (inp + k)"] by simp
  ultimately show ?thesis using assms(4-6) d
    by (simp add: string_deserialize_def m1_def [symmetric] Let_def numeral_2_eq_2 [symmetric])
qed

theorem string_deserialize_loses_witness:
  "\<exists>m'. string_deserialize (\<lambda>n. Some 20) 10 3 0 0 (\<lambda>y. if y = 11 then 1 else if y = 12 then 0x41 else 0) = (0, 3, m')
     \<and> m' 20 = 0 \<and> m' 0 = 0x41"
  using string_deserialize_loses [of "\<lambda>y. if y = 11 then 1 else if y = 12 then 0x41 else 0" 10 "0x41" "\<lambda>n. Some 20" 20 0] by auto

end
