(* ===== verification/Proto.thy ===== *)
theory Proto
  imports Tidl
begin

text \<open>
  The message formats of the applications: \<^verbatim>\<open>orp-encryptor/src/encProto.c\<close>,
  \<^verbatim>\<open>orp-xts-encryptor/src/xtsProto.c\<close>, \<^verbatim>\<open>orp-urchat/src/chatProto.c\<close> and
  \<^verbatim>\<open>orp-bulkencryption/src/bulkencryptionProto.c\<close>. An enumeration is a datatype with the constructors
  of the header, so the branch of the serialisers for a value outside it does not arise; the branch
  of the deserialisers for an unknown code does. Every message is a codec of theory Tidl.
\<close>

section \<open>The encryptor\<close>

datatype EncryptorAlgo = EC_GCM_128 | EC_GCM_192 | EC_GCM_256

fun EncryptorAlgo_code :: "EncryptorAlgo \<Rightarrow> u32" where
  "EncryptorAlgo_code EC_GCM_128 = 0"
| "EncryptorAlgo_code EC_GCM_192 = 1"
| "EncryptorAlgo_code EC_GCM_256 = 2"

fun EncryptorAlgo_serialize :: "u32 \<Rightarrow> ser_st \<Rightarrow> EncryptorAlgo \<Rightarrow> int \<times> ser_st" where
  "EncryptorAlgo_serialize l_out st EC_GCM_128 = int32_serialize l_out st 0"
| "EncryptorAlgo_serialize l_out st EC_GCM_192 = int32_serialize l_out st 1"
| "EncryptorAlgo_serialize l_out st EC_GCM_256 = int32_serialize l_out st 2"

definition EncryptorAlgo_deserialize :: "sbuf \<Rightarrow> u32 \<Rightarrow> u32 \<Rightarrow> EncryptorAlgo \<Rightarrow> int \<times> u32 \<times> EncryptorAlgo" where
  "EncryptorAlgo_deserialize buf l_in pos out =
     (let (ret, pos, v) = int32_deserialize buf l_in pos 0
      in if ret \<noteq> 0 then (ret, pos, out)
         else if v = 0 then (ret, pos, EC_GCM_128)
         else if v = 1 then (ret, pos, EC_GCM_192)
         else if v = 2 then (ret, pos, EC_GCM_256)
         else (-1, pos, out))"

datatype EncryptorMode = EC_ENCRYPT | EC_DECRYPT | EC_SHUTDOWN

fun EncryptorMode_code :: "EncryptorMode \<Rightarrow> u32" where
  "EncryptorMode_code EC_ENCRYPT = 16"
| "EncryptorMode_code EC_DECRYPT = 32"
| "EncryptorMode_code EC_SHUTDOWN = 48"

fun EncryptorMode_serialize :: "u32 \<Rightarrow> ser_st \<Rightarrow> EncryptorMode \<Rightarrow> int \<times> ser_st" where
  "EncryptorMode_serialize l_out st EC_ENCRYPT = int32_serialize l_out st 16"
| "EncryptorMode_serialize l_out st EC_DECRYPT = int32_serialize l_out st 32"
| "EncryptorMode_serialize l_out st EC_SHUTDOWN = int32_serialize l_out st 48"

definition EncryptorMode_deserialize :: "sbuf \<Rightarrow> u32 \<Rightarrow> u32 \<Rightarrow> EncryptorMode \<Rightarrow> int \<times> u32 \<times> EncryptorMode" where
  "EncryptorMode_deserialize buf l_in pos out =
     (let (ret, pos, v) = int32_deserialize buf l_in pos 0
      in if ret \<noteq> 0 then (ret, pos, out)
         else if v = 16 then (ret, pos, EC_ENCRYPT)
         else if v = 32 then (ret, pos, EC_DECRYPT)
         else if v = 48 then (ret, pos, EC_SHUTDOWN)
         else (-1, pos, out))"

datatype EncryptorCommand = EC_DATA | EC_DONE

fun EncryptorCommand_code :: "EncryptorCommand \<Rightarrow> u32" where
  "EncryptorCommand_code EC_DATA = 64"
| "EncryptorCommand_code EC_DONE = 80"

fun EncryptorCommand_serialize :: "u32 \<Rightarrow> ser_st \<Rightarrow> EncryptorCommand \<Rightarrow> int \<times> ser_st" where
  "EncryptorCommand_serialize l_out st EC_DATA = int32_serialize l_out st 64"
| "EncryptorCommand_serialize l_out st EC_DONE = int32_serialize l_out st 80"

definition EncryptorCommand_deserialize :: "sbuf \<Rightarrow> u32 \<Rightarrow> u32 \<Rightarrow> EncryptorCommand \<Rightarrow> int \<times> u32 \<times> EncryptorCommand" where
  "EncryptorCommand_deserialize buf l_in pos out =
     (let (ret, pos, v) = int32_deserialize buf l_in pos 0
      in if ret \<noteq> 0 then (ret, pos, out)
         else if v = 64 then (ret, pos, EC_DATA)
         else if v = 80 then (ret, pos, EC_DONE)
         else (-1, pos, out))"

datatype EncryptorResponse = ER_ERROR | ER_UNSUPPORTED | ER_OK

fun EncryptorResponse_code :: "EncryptorResponse \<Rightarrow> u32" where
  "EncryptorResponse_code ER_ERROR = 255"
| "EncryptorResponse_code ER_UNSUPPORTED = 254"
| "EncryptorResponse_code ER_OK = 1"

fun EncryptorResponse_serialize :: "u32 \<Rightarrow> ser_st \<Rightarrow> EncryptorResponse \<Rightarrow> int \<times> ser_st" where
  "EncryptorResponse_serialize l_out st ER_ERROR = int32_serialize l_out st 255"
| "EncryptorResponse_serialize l_out st ER_UNSUPPORTED = int32_serialize l_out st 254"
| "EncryptorResponse_serialize l_out st ER_OK = int32_serialize l_out st 1"

definition EncryptorResponse_deserialize :: "sbuf \<Rightarrow> u32 \<Rightarrow> u32 \<Rightarrow> EncryptorResponse \<Rightarrow> int \<times> u32 \<times> EncryptorResponse" where
  "EncryptorResponse_deserialize buf l_in pos out =
     (let (ret, pos, v) = int32_deserialize buf l_in pos 0
      in if ret \<noteq> 0 then (ret, pos, out)
         else if v = 255 then (ret, pos, ER_ERROR)
         else if v = 254 then (ret, pos, ER_UNSUPPORTED)
         else if v = 1 then (ret, pos, ER_OK)
         else (-1, pos, out))"

section \<open>The XTS encryptor\<close>

datatype XtsAlgo = XTS_128 | XTS_256

fun XtsAlgo_code :: "XtsAlgo \<Rightarrow> u32" where
  "XtsAlgo_code XTS_128 = 0"
| "XtsAlgo_code XTS_256 = 2"

fun XtsAlgo_serialize :: "u32 \<Rightarrow> ser_st \<Rightarrow> XtsAlgo \<Rightarrow> int \<times> ser_st" where
  "XtsAlgo_serialize l_out st XTS_128 = int32_serialize l_out st 0"
| "XtsAlgo_serialize l_out st XTS_256 = int32_serialize l_out st 2"

definition XtsAlgo_deserialize :: "sbuf \<Rightarrow> u32 \<Rightarrow> u32 \<Rightarrow> XtsAlgo \<Rightarrow> int \<times> u32 \<times> XtsAlgo" where
  "XtsAlgo_deserialize buf l_in pos out =
     (let (ret, pos, v) = int32_deserialize buf l_in pos 0
      in if ret \<noteq> 0 then (ret, pos, out)
         else if v = 0 then (ret, pos, XTS_128)
         else if v = 2 then (ret, pos, XTS_256)
         else (-1, pos, out))"

datatype XtsCommand = XTS_ENCRYPT | XTS_DECRYPT | XTS_SHUTDOWN

fun XtsCommand_code :: "XtsCommand \<Rightarrow> u32" where
  "XtsCommand_code XTS_ENCRYPT = 16"
| "XtsCommand_code XTS_DECRYPT = 32"
| "XtsCommand_code XTS_SHUTDOWN = 48"

fun XtsCommand_serialize :: "u32 \<Rightarrow> ser_st \<Rightarrow> XtsCommand \<Rightarrow> int \<times> ser_st" where
  "XtsCommand_serialize l_out st XTS_ENCRYPT = int32_serialize l_out st 16"
| "XtsCommand_serialize l_out st XTS_DECRYPT = int32_serialize l_out st 32"
| "XtsCommand_serialize l_out st XTS_SHUTDOWN = int32_serialize l_out st 48"

definition XtsCommand_deserialize :: "sbuf \<Rightarrow> u32 \<Rightarrow> u32 \<Rightarrow> XtsCommand \<Rightarrow> int \<times> u32 \<times> XtsCommand" where
  "XtsCommand_deserialize buf l_in pos out =
     (let (ret, pos, v) = int32_deserialize buf l_in pos 0
      in if ret \<noteq> 0 then (ret, pos, out)
         else if v = 16 then (ret, pos, XTS_ENCRYPT)
         else if v = 32 then (ret, pos, XTS_DECRYPT)
         else if v = 48 then (ret, pos, XTS_SHUTDOWN)
         else (-1, pos, out))"

datatype XtsResponse = XTS_ERROR | XTS_UNSUPPORTED | XTS_OK

fun XtsResponse_code :: "XtsResponse \<Rightarrow> u32" where
  "XtsResponse_code XTS_ERROR = 255"
| "XtsResponse_code XTS_UNSUPPORTED = 254"
| "XtsResponse_code XTS_OK = 1"

fun XtsResponse_serialize :: "u32 \<Rightarrow> ser_st \<Rightarrow> XtsResponse \<Rightarrow> int \<times> ser_st" where
  "XtsResponse_serialize l_out st XTS_ERROR = int32_serialize l_out st 255"
| "XtsResponse_serialize l_out st XTS_UNSUPPORTED = int32_serialize l_out st 254"
| "XtsResponse_serialize l_out st XTS_OK = int32_serialize l_out st 1"

definition XtsResponse_deserialize :: "sbuf \<Rightarrow> u32 \<Rightarrow> u32 \<Rightarrow> XtsResponse \<Rightarrow> int \<times> u32 \<times> XtsResponse" where
  "XtsResponse_deserialize buf l_in pos out =
     (let (ret, pos, v) = int32_deserialize buf l_in pos 0
      in if ret \<noteq> 0 then (ret, pos, out)
         else if v = 255 then (ret, pos, XTS_ERROR)
         else if v = 254 then (ret, pos, XTS_UNSUPPORTED)
         else if v = 1 then (ret, pos, XTS_OK)
         else (-1, pos, out))"

section \<open>The chat application\<close>

datatype ChatCommand = CC_LOGOUT | CC_SETSEEK | CC_GETSEEK | CC_GET_CHANNEL | CC_CLOSE_CHANNEL | CC_GET_EXCHANGE | CC_ENCRYPT | CC_INCOMING

fun ChatCommand_code :: "ChatCommand \<Rightarrow> u32" where
  "ChatCommand_code CC_LOGOUT = 16"
| "ChatCommand_code CC_SETSEEK = 32"
| "ChatCommand_code CC_GETSEEK = 48"
| "ChatCommand_code CC_GET_CHANNEL = 64"
| "ChatCommand_code CC_CLOSE_CHANNEL = 80"
| "ChatCommand_code CC_GET_EXCHANGE = 96"
| "ChatCommand_code CC_ENCRYPT = 112"
| "ChatCommand_code CC_INCOMING = 128"

fun ChatCommand_serialize :: "u32 \<Rightarrow> ser_st \<Rightarrow> ChatCommand \<Rightarrow> int \<times> ser_st" where
  "ChatCommand_serialize l_out st CC_LOGOUT = int32_serialize l_out st 16"
| "ChatCommand_serialize l_out st CC_SETSEEK = int32_serialize l_out st 32"
| "ChatCommand_serialize l_out st CC_GETSEEK = int32_serialize l_out st 48"
| "ChatCommand_serialize l_out st CC_GET_CHANNEL = int32_serialize l_out st 64"
| "ChatCommand_serialize l_out st CC_CLOSE_CHANNEL = int32_serialize l_out st 80"
| "ChatCommand_serialize l_out st CC_GET_EXCHANGE = int32_serialize l_out st 96"
| "ChatCommand_serialize l_out st CC_ENCRYPT = int32_serialize l_out st 112"
| "ChatCommand_serialize l_out st CC_INCOMING = int32_serialize l_out st 128"

definition ChatCommand_deserialize :: "sbuf \<Rightarrow> u32 \<Rightarrow> u32 \<Rightarrow> ChatCommand \<Rightarrow> int \<times> u32 \<times> ChatCommand" where
  "ChatCommand_deserialize buf l_in pos out =
     (let (ret, pos, v) = int32_deserialize buf l_in pos 0
      in if ret \<noteq> 0 then (ret, pos, out)
         else if v = 16 then (ret, pos, CC_LOGOUT)
         else if v = 32 then (ret, pos, CC_SETSEEK)
         else if v = 48 then (ret, pos, CC_GETSEEK)
         else if v = 64 then (ret, pos, CC_GET_CHANNEL)
         else if v = 80 then (ret, pos, CC_CLOSE_CHANNEL)
         else if v = 96 then (ret, pos, CC_GET_EXCHANGE)
         else if v = 112 then (ret, pos, CC_ENCRYPT)
         else if v = 128 then (ret, pos, CC_INCOMING)
         else (-1, pos, out))"

datatype ChatResponse = CR_ERROR | CR_PUBKEY | CR_GOODBYE | CR_SEEKUPDATED | CR_SEEK | CR_CHANNEL | CR_CHANNEL_CLOSED | CR_EXCHANGE | CR_CIPHERTEXT | CR_FOUND | CR_EXCHANGED | CR_PLAINTEXT | CR_NEVERMIND

fun ChatResponse_code :: "ChatResponse \<Rightarrow> u32" where
  "ChatResponse_code CR_ERROR = 255"
| "ChatResponse_code CR_PUBKEY = 0"
| "ChatResponse_code CR_GOODBYE = 17"
| "ChatResponse_code CR_SEEKUPDATED = 33"
| "ChatResponse_code CR_SEEK = 49"
| "ChatResponse_code CR_CHANNEL = 65"
| "ChatResponse_code CR_CHANNEL_CLOSED = 81"
| "ChatResponse_code CR_EXCHANGE = 97"
| "ChatResponse_code CR_CIPHERTEXT = 113"
| "ChatResponse_code CR_FOUND = 129"
| "ChatResponse_code CR_EXCHANGED = 130"
| "ChatResponse_code CR_PLAINTEXT = 131"
| "ChatResponse_code CR_NEVERMIND = 132"

fun ChatResponse_serialize :: "u32 \<Rightarrow> ser_st \<Rightarrow> ChatResponse \<Rightarrow> int \<times> ser_st" where
  "ChatResponse_serialize l_out st CR_ERROR = int32_serialize l_out st 255"
| "ChatResponse_serialize l_out st CR_PUBKEY = int32_serialize l_out st 0"
| "ChatResponse_serialize l_out st CR_GOODBYE = int32_serialize l_out st 17"
| "ChatResponse_serialize l_out st CR_SEEKUPDATED = int32_serialize l_out st 33"
| "ChatResponse_serialize l_out st CR_SEEK = int32_serialize l_out st 49"
| "ChatResponse_serialize l_out st CR_CHANNEL = int32_serialize l_out st 65"
| "ChatResponse_serialize l_out st CR_CHANNEL_CLOSED = int32_serialize l_out st 81"
| "ChatResponse_serialize l_out st CR_EXCHANGE = int32_serialize l_out st 97"
| "ChatResponse_serialize l_out st CR_CIPHERTEXT = int32_serialize l_out st 113"
| "ChatResponse_serialize l_out st CR_FOUND = int32_serialize l_out st 129"
| "ChatResponse_serialize l_out st CR_EXCHANGED = int32_serialize l_out st 130"
| "ChatResponse_serialize l_out st CR_PLAINTEXT = int32_serialize l_out st 131"
| "ChatResponse_serialize l_out st CR_NEVERMIND = int32_serialize l_out st 132"

definition ChatResponse_deserialize :: "sbuf \<Rightarrow> u32 \<Rightarrow> u32 \<Rightarrow> ChatResponse \<Rightarrow> int \<times> u32 \<times> ChatResponse" where
  "ChatResponse_deserialize buf l_in pos out =
     (let (ret, pos, v) = int32_deserialize buf l_in pos 0
      in if ret \<noteq> 0 then (ret, pos, out)
         else if v = 255 then (ret, pos, CR_ERROR)
         else if v = 0 then (ret, pos, CR_PUBKEY)
         else if v = 17 then (ret, pos, CR_GOODBYE)
         else if v = 33 then (ret, pos, CR_SEEKUPDATED)
         else if v = 49 then (ret, pos, CR_SEEK)
         else if v = 65 then (ret, pos, CR_CHANNEL)
         else if v = 81 then (ret, pos, CR_CHANNEL_CLOSED)
         else if v = 97 then (ret, pos, CR_EXCHANGE)
         else if v = 113 then (ret, pos, CR_CIPHERTEXT)
         else if v = 129 then (ret, pos, CR_FOUND)
         else if v = 130 then (ret, pos, CR_EXCHANGED)
         else if v = 131 then (ret, pos, CR_PLAINTEXT)
         else if v = 132 then (ret, pos, CR_NEVERMIND)
         else (-1, pos, out))"

section \<open>Bulk encryption\<close>

datatype BulkEncryptionCommand = BEC_LOGOUT | BEC_GEN_DHPAIR | BEC_DH_EXCHANGE | BEC_GCM_INIT | BEC_GCM_DOBLOCK

fun BulkEncryptionCommand_code :: "BulkEncryptionCommand \<Rightarrow> u32" where
  "BulkEncryptionCommand_code BEC_LOGOUT = 16"
| "BulkEncryptionCommand_code BEC_GEN_DHPAIR = 32"
| "BulkEncryptionCommand_code BEC_DH_EXCHANGE = 48"
| "BulkEncryptionCommand_code BEC_GCM_INIT = 80"
| "BulkEncryptionCommand_code BEC_GCM_DOBLOCK = 96"

fun BulkEncryptionCommand_serialize :: "u32 \<Rightarrow> ser_st \<Rightarrow> BulkEncryptionCommand \<Rightarrow> int \<times> ser_st" where
  "BulkEncryptionCommand_serialize l_out st BEC_LOGOUT = int32_serialize l_out st 16"
| "BulkEncryptionCommand_serialize l_out st BEC_GEN_DHPAIR = int32_serialize l_out st 32"
| "BulkEncryptionCommand_serialize l_out st BEC_DH_EXCHANGE = int32_serialize l_out st 48"
| "BulkEncryptionCommand_serialize l_out st BEC_GCM_INIT = int32_serialize l_out st 80"
| "BulkEncryptionCommand_serialize l_out st BEC_GCM_DOBLOCK = int32_serialize l_out st 96"

definition BulkEncryptionCommand_deserialize :: "sbuf \<Rightarrow> u32 \<Rightarrow> u32 \<Rightarrow> BulkEncryptionCommand \<Rightarrow> int \<times> u32 \<times> BulkEncryptionCommand" where
  "BulkEncryptionCommand_deserialize buf l_in pos out =
     (let (ret, pos, v) = int32_deserialize buf l_in pos 0
      in if ret \<noteq> 0 then (ret, pos, out)
         else if v = 16 then (ret, pos, BEC_LOGOUT)
         else if v = 32 then (ret, pos, BEC_GEN_DHPAIR)
         else if v = 48 then (ret, pos, BEC_DH_EXCHANGE)
         else if v = 80 then (ret, pos, BEC_GCM_INIT)
         else if v = 96 then (ret, pos, BEC_GCM_DOBLOCK)
         else (-1, pos, out))"

datatype BulkEncryptionResponse = BER_ERROR | BER_GOODBYE | BER_DHPAIR | BER_DH_EXCHANGED | BER_GCM_READY | BER_GCM_BLOCKS

fun BulkEncryptionResponse_code :: "BulkEncryptionResponse \<Rightarrow> u32" where
  "BulkEncryptionResponse_code BER_ERROR = 255"
| "BulkEncryptionResponse_code BER_GOODBYE = 17"
| "BulkEncryptionResponse_code BER_DHPAIR = 33"
| "BulkEncryptionResponse_code BER_DH_EXCHANGED = 49"
| "BulkEncryptionResponse_code BER_GCM_READY = 81"
| "BulkEncryptionResponse_code BER_GCM_BLOCKS = 97"

fun BulkEncryptionResponse_serialize :: "u32 \<Rightarrow> ser_st \<Rightarrow> BulkEncryptionResponse \<Rightarrow> int \<times> ser_st" where
  "BulkEncryptionResponse_serialize l_out st BER_ERROR = int32_serialize l_out st 255"
| "BulkEncryptionResponse_serialize l_out st BER_GOODBYE = int32_serialize l_out st 17"
| "BulkEncryptionResponse_serialize l_out st BER_DHPAIR = int32_serialize l_out st 33"
| "BulkEncryptionResponse_serialize l_out st BER_DH_EXCHANGED = int32_serialize l_out st 49"
| "BulkEncryptionResponse_serialize l_out st BER_GCM_READY = int32_serialize l_out st 81"
| "BulkEncryptionResponse_serialize l_out st BER_GCM_BLOCKS = int32_serialize l_out st 97"

definition BulkEncryptionResponse_deserialize :: "sbuf \<Rightarrow> u32 \<Rightarrow> u32 \<Rightarrow> BulkEncryptionResponse \<Rightarrow> int \<times> u32 \<times> BulkEncryptionResponse" where
  "BulkEncryptionResponse_deserialize buf l_in pos out =
     (let (ret, pos, v) = int32_deserialize buf l_in pos 0
      in if ret \<noteq> 0 then (ret, pos, out)
         else if v = 255 then (ret, pos, BER_ERROR)
         else if v = 17 then (ret, pos, BER_GOODBYE)
         else if v = 33 then (ret, pos, BER_DHPAIR)
         else if v = 49 then (ret, pos, BER_DH_EXCHANGED)
         else if v = 81 then (ret, pos, BER_GCM_READY)
         else if v = 97 then (ret, pos, BER_GCM_BLOCKS)
         else (-1, pos, out))"

record GenDHPair_Cmd =
  gdc_seed :: bytes

definition GenDHPair_Cmd_init :: GenDHPair_Cmd where
  "GenDHPair_Cmd_init = \<lparr>gdc_seed = replicate 32 0\<rparr>"

definition GenDHPair_Cmd_cleanup :: GenDHPair_Cmd where
  "GenDHPair_Cmd_cleanup = GenDHPair_Cmd_init"

definition GenDHPair_Cmd_serialize :: "u32 \<Rightarrow> ser_st \<Rightarrow> GenDHPair_Cmd \<Rightarrow> int \<times> ser_st" where
  "GenDHPair_Cmd_serialize l_out st v = array_serialize l_out st (gdc_seed v)"

definition GenDHPair_Cmd_deserialize :: "sbuf \<Rightarrow> u32 \<Rightarrow> u32 \<Rightarrow> GenDHPair_Cmd \<Rightarrow> int \<times> u32 \<times> GenDHPair_Cmd" where
  "GenDHPair_Cmd_deserialize buf l_in pos v =
     (let (ret, pos, x) = array_deserialize buf l_in pos (gdc_seed v) in (ret, pos, v\<lparr>gdc_seed := x\<rparr>))"

record GenDHPair_Res =
  gdr_pubkey :: bytes
  gdr_privkey_idx :: u8

definition GenDHPair_Res_init :: GenDHPair_Res where
  "GenDHPair_Res_init = \<lparr>gdr_pubkey = replicate 128 0, gdr_privkey_idx = 0\<rparr>"

definition GenDHPair_Res_cleanup :: GenDHPair_Res where
  "GenDHPair_Res_cleanup = GenDHPair_Res_init"

definition GenDHPair_Res_serialize :: "u32 \<Rightarrow> ser_st \<Rightarrow> GenDHPair_Res \<Rightarrow> int \<times> ser_st" where
  "GenDHPair_Res_serialize l_out st v =
     (let (ret, st) = array_serialize l_out st (gdr_pubkey v)
      in if ret \<noteq> 0 then (ret, st) else uint8_serialize l_out st (gdr_privkey_idx v))"

definition GenDHPair_Res_deserialize :: "sbuf \<Rightarrow> u32 \<Rightarrow> u32 \<Rightarrow> GenDHPair_Res \<Rightarrow> int \<times> u32 \<times> GenDHPair_Res" where
  "GenDHPair_Res_deserialize buf l_in pos v =
     (let (ret, pos, x) = array_deserialize buf l_in pos (gdr_pubkey v);
          v = v\<lparr>gdr_pubkey := x\<rparr>
      in if ret \<noteq> 0 then (ret, pos, v)
         else let (ret, pos, y) = uint8_deserialize buf l_in pos (gdr_privkey_idx v) in (ret, pos, v\<lparr>gdr_privkey_idx := y\<rparr>))"

record DHExchange_Cmd =
  dec_remote_pubkey :: bytes
  dec_local_privkey_idx :: u8

definition DHExchange_Cmd_init :: DHExchange_Cmd where
  "DHExchange_Cmd_init = \<lparr>dec_remote_pubkey = replicate 128 0, dec_local_privkey_idx = 0\<rparr>"

definition DHExchange_Cmd_cleanup :: DHExchange_Cmd where
  "DHExchange_Cmd_cleanup = DHExchange_Cmd_init"

definition DHExchange_Cmd_serialize :: "u32 \<Rightarrow> ser_st \<Rightarrow> DHExchange_Cmd \<Rightarrow> int \<times> ser_st" where
  "DHExchange_Cmd_serialize l_out st v =
     (let (ret, st) = array_serialize l_out st (dec_remote_pubkey v)
      in if ret \<noteq> 0 then (ret, st) else uint8_serialize l_out st (dec_local_privkey_idx v))"

definition DHExchange_Cmd_deserialize :: "sbuf \<Rightarrow> u32 \<Rightarrow> u32 \<Rightarrow> DHExchange_Cmd \<Rightarrow> int \<times> u32 \<times> DHExchange_Cmd" where
  "DHExchange_Cmd_deserialize buf l_in pos v =
     (let (ret, pos, x) = array_deserialize buf l_in pos (dec_remote_pubkey v);
          v = v\<lparr>dec_remote_pubkey := x\<rparr>
      in if ret \<noteq> 0 then (ret, pos, v)
         else let (ret, pos, y) = uint8_deserialize buf l_in pos (dec_local_privkey_idx v) in (ret, pos, v\<lparr>dec_local_privkey_idx := y\<rparr>))"

record DHExchange_Res =
  der_shared_idx :: u8

definition DHExchange_Res_init :: DHExchange_Res where
  "DHExchange_Res_init = \<lparr>der_shared_idx = 0\<rparr>"

definition DHExchange_Res_cleanup :: DHExchange_Res where
  "DHExchange_Res_cleanup = DHExchange_Res_init"

definition DHExchange_Res_serialize :: "u32 \<Rightarrow> ser_st \<Rightarrow> DHExchange_Res \<Rightarrow> int \<times> ser_st" where
  "DHExchange_Res_serialize l_out st v = uint8_serialize l_out st (der_shared_idx v)"

definition DHExchange_Res_deserialize :: "sbuf \<Rightarrow> u32 \<Rightarrow> u32 \<Rightarrow> DHExchange_Res \<Rightarrow> int \<times> u32 \<times> DHExchange_Res" where
  "DHExchange_Res_deserialize buf l_in pos v =
     (let (ret, pos, x) = uint8_deserialize buf l_in pos (der_shared_idx v) in (ret, pos, v\<lparr>der_shared_idx := x\<rparr>))"

datatype GCM_Mode = GCM128_ENCRYPT | GCM128_DECRYPT

fun GCM_Mode_code :: "GCM_Mode \<Rightarrow> u32" where
  "GCM_Mode_code GCM128_ENCRYPT = 16"
| "GCM_Mode_code GCM128_DECRYPT = 32"

fun GCM_Mode_serialize :: "u32 \<Rightarrow> ser_st \<Rightarrow> GCM_Mode \<Rightarrow> int \<times> ser_st" where
  "GCM_Mode_serialize l_out st GCM128_ENCRYPT = int32_serialize l_out st 16"
| "GCM_Mode_serialize l_out st GCM128_DECRYPT = int32_serialize l_out st 32"

definition GCM_Mode_deserialize :: "sbuf \<Rightarrow> u32 \<Rightarrow> u32 \<Rightarrow> GCM_Mode \<Rightarrow> int \<times> u32 \<times> GCM_Mode" where
  "GCM_Mode_deserialize buf l_in pos out =
     (let (ret, pos, v) = int32_deserialize buf l_in pos 0
      in if ret \<noteq> 0 then (ret, pos, out)
         else if v = 16 then (ret, pos, GCM128_ENCRYPT)
         else if v = 32 then (ret, pos, GCM128_DECRYPT)
         else (-1, pos, out))"

record GcmInit_Cmd =
  gic_mode :: GCM_Mode
  gic_shared_idx :: u8

definition GcmInit_Cmd_serialize :: "u32 \<Rightarrow> ser_st \<Rightarrow> GcmInit_Cmd \<Rightarrow> int \<times> ser_st" where
  "GcmInit_Cmd_serialize l_out st v =
     (let (ret, st) = GCM_Mode_serialize l_out st (gic_mode v)
      in if ret \<noteq> 0 then (ret, st) else uint8_serialize l_out st (gic_shared_idx v))"

definition GcmInit_Cmd_deserialize :: "sbuf \<Rightarrow> u32 \<Rightarrow> u32 \<Rightarrow> GcmInit_Cmd \<Rightarrow> int \<times> u32 \<times> GcmInit_Cmd" where
  "GcmInit_Cmd_deserialize buf l_in pos v =
     (let (ret, pos, x) = GCM_Mode_deserialize buf l_in pos (gic_mode v);
          v = v\<lparr>gic_mode := x\<rparr>
      in if ret \<noteq> 0 then (ret, pos, v)
         else let (ret, pos, y) = uint8_deserialize buf l_in pos (gic_shared_idx v) in (ret, pos, v\<lparr>gic_shared_idx := y\<rparr>))"

record GcmInit_Res =
  gir_gcm_idx :: u8

definition GcmInit_Res_init :: GcmInit_Res where
  "GcmInit_Res_init = \<lparr>gir_gcm_idx = 0\<rparr>"

definition GcmInit_Res_cleanup :: GcmInit_Res where
  "GcmInit_Res_cleanup = GcmInit_Res_init"

definition GcmInit_Res_serialize :: "u32 \<Rightarrow> ser_st \<Rightarrow> GcmInit_Res \<Rightarrow> int \<times> ser_st" where
  "GcmInit_Res_serialize l_out st v = uint8_serialize l_out st (gir_gcm_idx v)"

definition GcmInit_Res_deserialize :: "sbuf \<Rightarrow> u32 \<Rightarrow> u32 \<Rightarrow> GcmInit_Res \<Rightarrow> int \<times> u32 \<times> GcmInit_Res" where
  "GcmInit_Res_deserialize buf l_in pos v =
     (let (ret, pos, x) = uint8_deserialize buf l_in pos (gir_gcm_idx v) in (ret, pos, v\<lparr>gir_gcm_idx := x\<rparr>))"

record GcmDoBlock_Cmd =
  gbc_block :: bytes
  gbc_gcm_idx :: u8

definition GcmDoBlock_Cmd_init :: GcmDoBlock_Cmd where
  "GcmDoBlock_Cmd_init = \<lparr>gbc_block = replicate 16 0, gbc_gcm_idx = 0\<rparr>"

definition GcmDoBlock_Cmd_cleanup :: GcmDoBlock_Cmd where
  "GcmDoBlock_Cmd_cleanup = GcmDoBlock_Cmd_init"

definition GcmDoBlock_Cmd_serialize :: "u32 \<Rightarrow> ser_st \<Rightarrow> GcmDoBlock_Cmd \<Rightarrow> int \<times> ser_st" where
  "GcmDoBlock_Cmd_serialize l_out st v =
     (let (ret, st) = array_serialize l_out st (gbc_block v)
      in if ret \<noteq> 0 then (ret, st) else uint8_serialize l_out st (gbc_gcm_idx v))"

definition GcmDoBlock_Cmd_deserialize :: "sbuf \<Rightarrow> u32 \<Rightarrow> u32 \<Rightarrow> GcmDoBlock_Cmd \<Rightarrow> int \<times> u32 \<times> GcmDoBlock_Cmd" where
  "GcmDoBlock_Cmd_deserialize buf l_in pos v =
     (let (ret, pos, x) = array_deserialize buf l_in pos (gbc_block v);
          v = v\<lparr>gbc_block := x\<rparr>
      in if ret \<noteq> 0 then (ret, pos, v)
         else let (ret, pos, y) = uint8_deserialize buf l_in pos (gbc_gcm_idx v) in (ret, pos, v\<lparr>gbc_gcm_idx := y\<rparr>))"

record GcmDoBlock_Res =
  gbr_block :: bytes

definition GcmDoBlock_Res_init :: GcmDoBlock_Res where
  "GcmDoBlock_Res_init = \<lparr>gbr_block = replicate 16 0\<rparr>"

definition GcmDoBlock_Res_cleanup :: GcmDoBlock_Res where
  "GcmDoBlock_Res_cleanup = GcmDoBlock_Res_init"

definition GcmDoBlock_Res_serialize :: "u32 \<Rightarrow> ser_st \<Rightarrow> GcmDoBlock_Res \<Rightarrow> int \<times> ser_st" where
  "GcmDoBlock_Res_serialize l_out st v = array_serialize l_out st (gbr_block v)"

definition GcmDoBlock_Res_deserialize :: "sbuf \<Rightarrow> u32 \<Rightarrow> u32 \<Rightarrow> GcmDoBlock_Res \<Rightarrow> int \<times> u32 \<times> GcmDoBlock_Res" where
  "GcmDoBlock_Res_deserialize buf l_in pos v =
     (let (ret, pos, x) = array_deserialize buf l_in pos (gbr_block v) in (ret, pos, v\<lparr>gbr_block := x\<rparr>))"

section \<open>Every message is a codec\<close>

interpretation encryptorAlgoC: enum_codec EncryptorAlgo_serialize EncryptorAlgo_deserialize EncryptorAlgo_code
proof
  show "EncryptorAlgo_serialize l st v = int32_serialize l st (EncryptorAlgo_code v)" for l st v by (cases v) simp_all
  show "EncryptorAlgo_deserialize b l pos v0 = (0, pos', v)" if "int32_deserialize b l pos 0 = (0, pos', EncryptorAlgo_code v)" for b l pos pos' v v0
    using that by (cases v) (simp_all add: EncryptorAlgo_deserialize_def)
  show "EncryptorAlgo_deserialize b l pos v0 = (-1, pos', v0)" if "int32_deserialize b l pos 0 = (0, pos', c)" "c \<notin> range EncryptorAlgo_code" for b l pos pos' c v0
  proof -
    have "c \<noteq> EncryptorAlgo_code v" for v using that(2) by auto
    from this [of EC_GCM_128] this [of EC_GCM_192] this [of EC_GCM_256] show ?thesis using that(1) by (simp add: EncryptorAlgo_deserialize_def)
  qed
qed (auto simp: EncryptorAlgo_deserialize_def split_beta)

interpretation encryptorModeC: enum_codec EncryptorMode_serialize EncryptorMode_deserialize EncryptorMode_code
proof
  show "EncryptorMode_serialize l st v = int32_serialize l st (EncryptorMode_code v)" for l st v by (cases v) simp_all
  show "EncryptorMode_deserialize b l pos v0 = (0, pos', v)" if "int32_deserialize b l pos 0 = (0, pos', EncryptorMode_code v)" for b l pos pos' v v0
    using that by (cases v) (simp_all add: EncryptorMode_deserialize_def)
  show "EncryptorMode_deserialize b l pos v0 = (-1, pos', v0)" if "int32_deserialize b l pos 0 = (0, pos', c)" "c \<notin> range EncryptorMode_code" for b l pos pos' c v0
  proof -
    have "c \<noteq> EncryptorMode_code v" for v using that(2) by auto
    from this [of EC_ENCRYPT] this [of EC_DECRYPT] this [of EC_SHUTDOWN] show ?thesis using that(1) by (simp add: EncryptorMode_deserialize_def)
  qed
qed (auto simp: EncryptorMode_deserialize_def split_beta)

interpretation encryptorCommandC: enum_codec EncryptorCommand_serialize EncryptorCommand_deserialize EncryptorCommand_code
proof
  show "EncryptorCommand_serialize l st v = int32_serialize l st (EncryptorCommand_code v)" for l st v by (cases v) simp_all
  show "EncryptorCommand_deserialize b l pos v0 = (0, pos', v)" if "int32_deserialize b l pos 0 = (0, pos', EncryptorCommand_code v)" for b l pos pos' v v0
    using that by (cases v) (simp_all add: EncryptorCommand_deserialize_def)
  show "EncryptorCommand_deserialize b l pos v0 = (-1, pos', v0)" if "int32_deserialize b l pos 0 = (0, pos', c)" "c \<notin> range EncryptorCommand_code" for b l pos pos' c v0
  proof -
    have "c \<noteq> EncryptorCommand_code v" for v using that(2) by auto
    from this [of EC_DATA] this [of EC_DONE] show ?thesis using that(1) by (simp add: EncryptorCommand_deserialize_def)
  qed
qed (auto simp: EncryptorCommand_deserialize_def split_beta)

interpretation encryptorResponseC: enum_codec EncryptorResponse_serialize EncryptorResponse_deserialize EncryptorResponse_code
proof
  show "EncryptorResponse_serialize l st v = int32_serialize l st (EncryptorResponse_code v)" for l st v by (cases v) simp_all
  show "EncryptorResponse_deserialize b l pos v0 = (0, pos', v)" if "int32_deserialize b l pos 0 = (0, pos', EncryptorResponse_code v)" for b l pos pos' v v0
    using that by (cases v) (simp_all add: EncryptorResponse_deserialize_def)
  show "EncryptorResponse_deserialize b l pos v0 = (-1, pos', v0)" if "int32_deserialize b l pos 0 = (0, pos', c)" "c \<notin> range EncryptorResponse_code" for b l pos pos' c v0
  proof -
    have "c \<noteq> EncryptorResponse_code v" for v using that(2) by auto
    from this [of ER_ERROR] this [of ER_UNSUPPORTED] this [of ER_OK] show ?thesis using that(1) by (simp add: EncryptorResponse_deserialize_def)
  qed
qed (auto simp: EncryptorResponse_deserialize_def split_beta)

interpretation xtsAlgoC: enum_codec XtsAlgo_serialize XtsAlgo_deserialize XtsAlgo_code
proof
  show "XtsAlgo_serialize l st v = int32_serialize l st (XtsAlgo_code v)" for l st v by (cases v) simp_all
  show "XtsAlgo_deserialize b l pos v0 = (0, pos', v)" if "int32_deserialize b l pos 0 = (0, pos', XtsAlgo_code v)" for b l pos pos' v v0
    using that by (cases v) (simp_all add: XtsAlgo_deserialize_def)
  show "XtsAlgo_deserialize b l pos v0 = (-1, pos', v0)" if "int32_deserialize b l pos 0 = (0, pos', c)" "c \<notin> range XtsAlgo_code" for b l pos pos' c v0
  proof -
    have "c \<noteq> XtsAlgo_code v" for v using that(2) by auto
    from this [of XTS_128] this [of XTS_256] show ?thesis using that(1) by (simp add: XtsAlgo_deserialize_def)
  qed
qed (auto simp: XtsAlgo_deserialize_def split_beta)

interpretation xtsCommandC: enum_codec XtsCommand_serialize XtsCommand_deserialize XtsCommand_code
proof
  show "XtsCommand_serialize l st v = int32_serialize l st (XtsCommand_code v)" for l st v by (cases v) simp_all
  show "XtsCommand_deserialize b l pos v0 = (0, pos', v)" if "int32_deserialize b l pos 0 = (0, pos', XtsCommand_code v)" for b l pos pos' v v0
    using that by (cases v) (simp_all add: XtsCommand_deserialize_def)
  show "XtsCommand_deserialize b l pos v0 = (-1, pos', v0)" if "int32_deserialize b l pos 0 = (0, pos', c)" "c \<notin> range XtsCommand_code" for b l pos pos' c v0
  proof -
    have "c \<noteq> XtsCommand_code v" for v using that(2) by auto
    from this [of XTS_ENCRYPT] this [of XTS_DECRYPT] this [of XTS_SHUTDOWN] show ?thesis using that(1) by (simp add: XtsCommand_deserialize_def)
  qed
qed (auto simp: XtsCommand_deserialize_def split_beta)

interpretation xtsResponseC: enum_codec XtsResponse_serialize XtsResponse_deserialize XtsResponse_code
proof
  show "XtsResponse_serialize l st v = int32_serialize l st (XtsResponse_code v)" for l st v by (cases v) simp_all
  show "XtsResponse_deserialize b l pos v0 = (0, pos', v)" if "int32_deserialize b l pos 0 = (0, pos', XtsResponse_code v)" for b l pos pos' v v0
    using that by (cases v) (simp_all add: XtsResponse_deserialize_def)
  show "XtsResponse_deserialize b l pos v0 = (-1, pos', v0)" if "int32_deserialize b l pos 0 = (0, pos', c)" "c \<notin> range XtsResponse_code" for b l pos pos' c v0
  proof -
    have "c \<noteq> XtsResponse_code v" for v using that(2) by auto
    from this [of XTS_ERROR] this [of XTS_UNSUPPORTED] this [of XTS_OK] show ?thesis using that(1) by (simp add: XtsResponse_deserialize_def)
  qed
qed (auto simp: XtsResponse_deserialize_def split_beta)

interpretation chatCommandC: enum_codec ChatCommand_serialize ChatCommand_deserialize ChatCommand_code
proof
  show "ChatCommand_serialize l st v = int32_serialize l st (ChatCommand_code v)" for l st v by (cases v) simp_all
  show "ChatCommand_deserialize b l pos v0 = (0, pos', v)" if "int32_deserialize b l pos 0 = (0, pos', ChatCommand_code v)" for b l pos pos' v v0
    using that by (cases v) (simp_all add: ChatCommand_deserialize_def)
  show "ChatCommand_deserialize b l pos v0 = (-1, pos', v0)" if "int32_deserialize b l pos 0 = (0, pos', c)" "c \<notin> range ChatCommand_code" for b l pos pos' c v0
  proof -
    have "c \<noteq> ChatCommand_code v" for v using that(2) by auto
    from this [of CC_LOGOUT] this [of CC_SETSEEK] this [of CC_GETSEEK] this [of CC_GET_CHANNEL] this [of CC_CLOSE_CHANNEL] this [of CC_GET_EXCHANGE] this [of CC_ENCRYPT] this [of CC_INCOMING] show ?thesis using that(1) by (simp add: ChatCommand_deserialize_def)
  qed
qed (auto simp: ChatCommand_deserialize_def split_beta)

interpretation chatResponseC: enum_codec ChatResponse_serialize ChatResponse_deserialize ChatResponse_code
proof
  show "ChatResponse_serialize l st v = int32_serialize l st (ChatResponse_code v)" for l st v by (cases v) simp_all
  show "ChatResponse_deserialize b l pos v0 = (0, pos', v)" if "int32_deserialize b l pos 0 = (0, pos', ChatResponse_code v)" for b l pos pos' v v0
    using that by (cases v) (simp_all add: ChatResponse_deserialize_def)
  show "ChatResponse_deserialize b l pos v0 = (-1, pos', v0)" if "int32_deserialize b l pos 0 = (0, pos', c)" "c \<notin> range ChatResponse_code" for b l pos pos' c v0
  proof -
    have "c \<noteq> ChatResponse_code v" for v using that(2) by auto
    from this [of CR_ERROR] this [of CR_PUBKEY] this [of CR_GOODBYE] this [of CR_SEEKUPDATED] this [of CR_SEEK] this [of CR_CHANNEL] this [of CR_CHANNEL_CLOSED] this [of CR_EXCHANGE] this [of CR_CIPHERTEXT] this [of CR_FOUND] this [of CR_EXCHANGED] this [of CR_PLAINTEXT] this [of CR_NEVERMIND] show ?thesis using that(1) by (simp add: ChatResponse_deserialize_def)
  qed
qed (auto simp: ChatResponse_deserialize_def split_beta)

interpretation bulkEncryptionCommandC: enum_codec BulkEncryptionCommand_serialize BulkEncryptionCommand_deserialize BulkEncryptionCommand_code
proof
  show "BulkEncryptionCommand_serialize l st v = int32_serialize l st (BulkEncryptionCommand_code v)" for l st v by (cases v) simp_all
  show "BulkEncryptionCommand_deserialize b l pos v0 = (0, pos', v)" if "int32_deserialize b l pos 0 = (0, pos', BulkEncryptionCommand_code v)" for b l pos pos' v v0
    using that by (cases v) (simp_all add: BulkEncryptionCommand_deserialize_def)
  show "BulkEncryptionCommand_deserialize b l pos v0 = (-1, pos', v0)" if "int32_deserialize b l pos 0 = (0, pos', c)" "c \<notin> range BulkEncryptionCommand_code" for b l pos pos' c v0
  proof -
    have "c \<noteq> BulkEncryptionCommand_code v" for v using that(2) by auto
    from this [of BEC_LOGOUT] this [of BEC_GEN_DHPAIR] this [of BEC_DH_EXCHANGE] this [of BEC_GCM_INIT] this [of BEC_GCM_DOBLOCK] show ?thesis using that(1) by (simp add: BulkEncryptionCommand_deserialize_def)
  qed
qed (auto simp: BulkEncryptionCommand_deserialize_def split_beta)

interpretation bulkEncryptionResponseC: enum_codec BulkEncryptionResponse_serialize BulkEncryptionResponse_deserialize BulkEncryptionResponse_code
proof
  show "BulkEncryptionResponse_serialize l st v = int32_serialize l st (BulkEncryptionResponse_code v)" for l st v by (cases v) simp_all
  show "BulkEncryptionResponse_deserialize b l pos v0 = (0, pos', v)" if "int32_deserialize b l pos 0 = (0, pos', BulkEncryptionResponse_code v)" for b l pos pos' v v0
    using that by (cases v) (simp_all add: BulkEncryptionResponse_deserialize_def)
  show "BulkEncryptionResponse_deserialize b l pos v0 = (-1, pos', v0)" if "int32_deserialize b l pos 0 = (0, pos', c)" "c \<notin> range BulkEncryptionResponse_code" for b l pos pos' c v0
  proof -
    have "c \<noteq> BulkEncryptionResponse_code v" for v using that(2) by auto
    from this [of BER_ERROR] this [of BER_GOODBYE] this [of BER_DHPAIR] this [of BER_DH_EXCHANGED] this [of BER_GCM_READY] this [of BER_GCM_BLOCKS] show ?thesis using that(1) by (simp add: BulkEncryptionResponse_deserialize_def)
  qed
qed (auto simp: BulkEncryptionResponse_deserialize_def split_beta)

interpretation genDHPairCmdC: codec1 array_serialize array_deserialize "\<lambda>v. v" 32 "\<lambda>v. length v = 32"
    GenDHPair_Cmd_serialize GenDHPair_Cmd_deserialize gdc_seed "\<lambda>x. \<lparr>gdc_seed = x\<rparr>"
  by unfold_locales (simp_all add: GenDHPair_Cmd_serialize_def GenDHPair_Cmd_deserialize_def Let_def split_beta)

interpretation genDHPairResC: codec2 array_serialize array_deserialize "\<lambda>v. v" 128 "\<lambda>v. length v = 128"
    uint8_serialize uint8_deserialize "be_bytes 1" 1 "\<lambda>v. True"
    GenDHPair_Res_serialize GenDHPair_Res_deserialize gdr_pubkey gdr_privkey_idx "\<lambda>x y. \<lparr>gdr_pubkey = x, gdr_privkey_idx = y\<rparr>"
  by unfold_locales (simp_all add: GenDHPair_Res_serialize_def GenDHPair_Res_deserialize_def Let_def split_beta)

interpretation dHExchangeCmdC: codec2 array_serialize array_deserialize "\<lambda>v. v" 128 "\<lambda>v. length v = 128"
    uint8_serialize uint8_deserialize "be_bytes 1" 1 "\<lambda>v. True"
    DHExchange_Cmd_serialize DHExchange_Cmd_deserialize dec_remote_pubkey dec_local_privkey_idx "\<lambda>x y. \<lparr>dec_remote_pubkey = x, dec_local_privkey_idx = y\<rparr>"
  by unfold_locales (simp_all add: DHExchange_Cmd_serialize_def DHExchange_Cmd_deserialize_def Let_def split_beta)

interpretation dHExchangeResC: codec1 uint8_serialize uint8_deserialize "be_bytes 1" 1 "\<lambda>v. True"
    DHExchange_Res_serialize DHExchange_Res_deserialize der_shared_idx "\<lambda>x. \<lparr>der_shared_idx = x\<rparr>"
  by unfold_locales (simp_all add: DHExchange_Res_serialize_def DHExchange_Res_deserialize_def Let_def split_beta)

interpretation gCM_ModeC: enum_codec GCM_Mode_serialize GCM_Mode_deserialize GCM_Mode_code
proof
  show "GCM_Mode_serialize l st v = int32_serialize l st (GCM_Mode_code v)" for l st v by (cases v) simp_all
  show "GCM_Mode_deserialize b l pos v0 = (0, pos', v)" if "int32_deserialize b l pos 0 = (0, pos', GCM_Mode_code v)" for b l pos pos' v v0
    using that by (cases v) (simp_all add: GCM_Mode_deserialize_def)
  show "GCM_Mode_deserialize b l pos v0 = (-1, pos', v0)" if "int32_deserialize b l pos 0 = (0, pos', c)" "c \<notin> range GCM_Mode_code" for b l pos pos' c v0
  proof -
    have "c \<noteq> GCM_Mode_code v" for v using that(2) by auto
    from this [of GCM128_ENCRYPT] this [of GCM128_DECRYPT] show ?thesis using that(1) by (simp add: GCM_Mode_deserialize_def)
  qed
qed (auto simp: GCM_Mode_deserialize_def split_beta)

interpretation gcmInitCmdC: codec2 GCM_Mode_serialize GCM_Mode_deserialize "\<lambda>v. be_bytes 4 (GCM_Mode_code v)" 4 "\<lambda>v. True"
    uint8_serialize uint8_deserialize "be_bytes 1" 1 "\<lambda>v. True"
    GcmInit_Cmd_serialize GcmInit_Cmd_deserialize gic_mode gic_shared_idx "\<lambda>x y. \<lparr>gic_mode = x, gic_shared_idx = y\<rparr>"
  by unfold_locales (simp_all add: GcmInit_Cmd_serialize_def GcmInit_Cmd_deserialize_def Let_def split_beta)

interpretation gcmInitResC: codec1 uint8_serialize uint8_deserialize "be_bytes 1" 1 "\<lambda>v. True"
    GcmInit_Res_serialize GcmInit_Res_deserialize gir_gcm_idx "\<lambda>x. \<lparr>gir_gcm_idx = x\<rparr>"
  by unfold_locales (simp_all add: GcmInit_Res_serialize_def GcmInit_Res_deserialize_def Let_def split_beta)

interpretation gcmDoBlockCmdC: codec2 array_serialize array_deserialize "\<lambda>v. v" 16 "\<lambda>v. length v = 16"
    uint8_serialize uint8_deserialize "be_bytes 1" 1 "\<lambda>v. True"
    GcmDoBlock_Cmd_serialize GcmDoBlock_Cmd_deserialize gbc_block gbc_gcm_idx "\<lambda>x y. \<lparr>gbc_block = x, gbc_gcm_idx = y\<rparr>"
  by unfold_locales (simp_all add: GcmDoBlock_Cmd_serialize_def GcmDoBlock_Cmd_deserialize_def Let_def split_beta)

interpretation gcmDoBlockResC: codec1 array_serialize array_deserialize "\<lambda>v. v" 16 "\<lambda>v. length v = 16"
    GcmDoBlock_Res_serialize GcmDoBlock_Res_deserialize gbr_block "\<lambda>x. \<lparr>gbr_block = x\<rparr>"
  by unfold_locales (simp_all add: GcmDoBlock_Res_serialize_def GcmDoBlock_Res_deserialize_def Let_def split_beta)

section \<open>Properties\<close>


text \<open>
  Every message of the bulk encryption protocol is a round trip: written and read back with room,
  refused by both sides without, and accepted only in the form the sender writes.
\<close>

theorem bulkProto_roundtrip:
  "roundtrips BulkEncryptionCommand_serialize BulkEncryptionCommand_deserialize 4 (\<lambda>v. True)
   \<and> roundtrips BulkEncryptionResponse_serialize BulkEncryptionResponse_deserialize 4 (\<lambda>v. True)
   \<and> roundtrips GenDHPair_Cmd_serialize GenDHPair_Cmd_deserialize 32 (\<lambda>v. length (gdc_seed v) = 32)
   \<and> roundtrips GenDHPair_Res_serialize GenDHPair_Res_deserialize 129 (\<lambda>v. length (gdr_pubkey v) = 128)
   \<and> roundtrips DHExchange_Cmd_serialize DHExchange_Cmd_deserialize 129 (\<lambda>v. length (dec_remote_pubkey v) = 128)
   \<and> roundtrips DHExchange_Res_serialize DHExchange_Res_deserialize 1 (\<lambda>v. True)
   \<and> roundtrips GCM_Mode_serialize GCM_Mode_deserialize 4 (\<lambda>v. True)
   \<and> roundtrips GcmInit_Cmd_serialize GcmInit_Cmd_deserialize 5 (\<lambda>v. True)
   \<and> roundtrips GcmInit_Res_serialize GcmInit_Res_deserialize 1 (\<lambda>v. True)
   \<and> roundtrips GcmDoBlock_Cmd_serialize GcmDoBlock_Cmd_deserialize 17 (\<lambda>v. length (gbc_block v) = 16)
   \<and> roundtrips GcmDoBlock_Res_serialize GcmDoBlock_Res_deserialize 16 (\<lambda>v. length (gbr_block v) = 16)"
  using bulkEncryptionCommandC.codec_roundtrips bulkEncryptionResponseC.codec_roundtrips
    genDHPairCmdC.codec_roundtrips genDHPairResC.codec_roundtrips dHExchangeCmdC.codec_roundtrips
    dHExchangeResC.codec_roundtrips gCM_ModeC.codec_roundtrips gcmInitCmdC.codec_roundtrips
    gcmInitResC.codec_roundtrips gcmDoBlockCmdC.codec_roundtrips gcmDoBlockResC.codec_roundtrips by simp

end
