(* ===== verification/Gpio.thy ===== *)
theory Gpio
  imports Prelude
begin

unbundle bit_operations_syntax

text \<open>
  The port of eight general purpose pins, \<^verbatim>\<open>arch/openrisc/gpio.c\<close> with \<^verbatim>\<open>driver/gpio.c\<close>, and the four
  lights wired to it, \<^verbatim>\<open>arch/openrisc/led.c\<close> with \<^verbatim>\<open>driver/led.c\<close>. The static shadow copies and the two
  registers are the state; \<open>pins\<close> is what a read of the port register returns.
\<close>

record gpio =
  port0_conf_shadow :: u8
  port0_vals_shadow :: u8
  gpio_conf :: u8
  gpio_port :: u8
  gpio_pins :: u8

datatype gpioconf = MSEL_GPIO_INPUT | MSEL_GPIO_OUTPUT

definition arch_gpio_config :: "u32 \<Rightarrow> gpioconf \<Rightarrow> gpio \<Rightarrow> gpio" where
  "arch_gpio_config ios conf g =
     (let port0_ios = ucast (ios AND 0xff) :: u8
      in if port0_ios \<noteq> 0 then
           let shadow = (if conf = MSEL_GPIO_INPUT then port0_conf_shadow g AND NOT port0_ios
                         else port0_conf_shadow g OR port0_ios)
           in g\<lparr>port0_conf_shadow := shadow, gpio_conf := shadow\<rparr>
         else g)"

definition arch_gpio_write :: "u32 \<Rightarrow> u32 \<Rightarrow> gpio \<Rightarrow> gpio" where
  "arch_gpio_write ios vals g =
     (let port0_ios = ucast (ios AND 0xff) :: u8;
          port0_vals = ucast (vals AND 0xff) :: u8
      in if port0_ios \<noteq> 0 then
           let shadow = (port0_vals_shadow g AND NOT port0_ios) OR (port0_ios AND port0_vals)
           in g\<lparr>port0_vals_shadow := shadow, gpio_port := shadow\<rparr>
         else g)"

definition arch_gpio_read :: "u32 \<Rightarrow> gpio \<Rightarrow> u32" where
  "arch_gpio_read ios g =
     (let port0_ios = ucast (ios AND 0xff) :: u8
      in if port0_ios \<noteq> 0 then ucast (gpio_pins g AND port0_ios) else 0)"

definition msel_gpio_config :: "u32 \<Rightarrow> gpioconf \<Rightarrow> gpio \<Rightarrow> gpio" where
  "msel_gpio_config ios conf g = arch_gpio_config ios conf g"

definition msel_gpio_write :: "u32 \<Rightarrow> u32 \<Rightarrow> gpio \<Rightarrow> gpio" where
  "msel_gpio_write ios vals g = arch_gpio_write ios vals g"

definition msel_gpio_read :: "u32 \<Rightarrow> gpio \<Rightarrow> u32" where
  "msel_gpio_read ios g = arch_gpio_read ios g"

section \<open>Lights\<close>

definition LED_MASK :: u32 where "LED_MASK = 0x0f"

abbreviation (input) MSEL_LED_OFF :: u32 where "MSEL_LED_OFF \<equiv> 0"
abbreviation (input) MSEL_LED_ON :: u32 where "MSEL_LED_ON \<equiv> 1"
abbreviation (input) MSEL_LED_ALL :: u32 where "MSEL_LED_ALL \<equiv> NOT 0"

definition arch_init_led :: "gpio \<Rightarrow> gpio" where
  "arch_init_led g = arch_gpio_config LED_MASK MSEL_GPIO_OUTPUT g"

definition arch_led_set :: "u32 \<Rightarrow> u32 \<Rightarrow> gpio \<Rightarrow> gpio" where
  "arch_led_set led val g = arch_gpio_write (led AND LED_MASK) (val AND LED_MASK) g"

definition msel_led_set :: "u32 \<Rightarrow> u32 \<Rightarrow> gpio \<Rightarrow> gpio" where
  "msel_led_set led val g = arch_led_set led val g"

definition msel_led_on :: "u32 \<Rightarrow> gpio \<Rightarrow> gpio" where
  "msel_led_on led g = msel_led_set led MSEL_LED_ON g"

definition msel_led_off :: "u32 \<Rightarrow> gpio \<Rightarrow> gpio" where
  "msel_led_off led g = msel_led_set led MSEL_LED_OFF g"

section \<open>Properties\<close>

text \<open>
  A write to the pins changes exactly the named pins, a light is on exactly when its bit of the
  value is set, and the call that turns a light on works for light 0 only: the others it turns off.
\<close>

theorem gpio_write_masked:
  "(\<forall>k < 8. bit (port0_vals_shadow (arch_gpio_write ios vals g)) k
      = (if bit ios k then bit vals k else bit (port0_vals_shadow g) k))
   \<and> (\<forall>k < 4. bit (port0_vals_shadow (msel_led_on (push_bit k 1) g)) k = (k = 0))"
proof (intro conjI allI impI)
  have w: "bit (port0_vals_shadow (arch_gpio_write ios vals g)) k
      = (if bit ios k then bit vals k else bit (port0_vals_shadow g) k)" if "k < 8" for k ios vals
  proof -
    have f: "bit (255 :: u32) k" using that by (auto simp: less_Suc_eq eval_nat_numeral)
    have b: "bit (ucast (ios AND 0xff) :: u8) k = bit ios k" "bit (ucast (vals AND 0xff) :: u8) k = bit vals k"
      using that f by (simp_all add: bit_ucast_iff bit_and_iff)
    show ?thesis
    proof (cases "ucast (ios AND 0xff) = (0 :: u8)")
      case True
      then have "\<not> bit ios k" using b(1) by simp
      then show ?thesis using True by (simp add: arch_gpio_write_def)
    next
      case False
      then show ?thesis using b that
        by (auto simp: arch_gpio_write_def Let_def bit_or_iff bit_and_iff bit_not_iff)
    qed
  qed
  then show "bit (port0_vals_shadow (arch_gpio_write ios vals g)) k
      = (if bit ios k then bit vals k else bit (port0_vals_shadow g) k)" if "k < 8" for k using that .
  fix k :: nat assume "k < 4"
  then have "bit (push_bit k 1 AND LED_MASK) k" "bit (1 AND LED_MASK) k = (k = 0)"
    by (auto simp: LED_MASK_def bit_and_iff bit_push_bit_iff bit_1_iff less_Suc_eq eval_nat_numeral)
  then show "bit (port0_vals_shadow (msel_led_on (push_bit k 1) g)) k = (k = 0)"
    using \<open>k < 4\<close> w [of k] by (simp add: msel_led_on_def msel_led_set_def arch_led_set_def)
qed

theorem gpio_write_masked_witness:
  "\<not> bit (port0_vals_shadow (msel_led_on 8 \<lparr>port0_conf_shadow = 0, port0_vals_shadow = 0xff, gpio_conf = 0, gpio_port = 0, gpio_pins = 0\<rparr>)) 3"
  using gpio_write_masked [of 0 0 "\<lparr>port0_conf_shadow = 0, port0_vals_shadow = 0xff, gpio_conf = 0, gpio_port = 0, gpio_pins = 0\<rparr>"]
  by (auto dest: spec [of _ 3])

end
