(* ===== verification/Task.thy ===== *)
theory Task
  imports Malloc_Correct Stdc Gpio
begin

unbundle bit_operations_syntax

text \<open>
  Tasks and the scheduler: \<^verbatim>\<open>os/task.c\<close>, \<^verbatim>\<open>os/taskmem.c\<close>, the system tick and status lights of
  \<^verbatim>\<open>os/system.c\<close>, and the task part of \<^verbatim>\<open>arch/openrisc/arch.c\<close>. The pointer \<^verbatim>\<open>msel_active_task\<close> is always
  the entry of \<^verbatim>\<open>msel_task_list\<close> with number \<^verbatim>\<open>msel_active_task_num\<close>, so only the number is kept.
  An operation that returns an option returns \<open>None\<close> when it reads the task list out of its bounds,
  panics or never ends. The symbols of the linker script are the record \<open>layout\<close>. The heap of each
  task is a heap of theory Malloc; the other bytes of memory are \<open>os_mem\<close>.
\<close>

section \<open>Task memory\<close>

record layout =
  tasks_start :: nat
  tasks_size :: nat
  tasks_stack_size :: nat
  tasks_heap_size :: nat

text \<open>The values of \<^verbatim>\<open>arch/openrisc/link.ld\<close>.\<close>

definition or1k_layout :: layout where
  "or1k_layout = \<lparr>tasks_start = 0x00200000, tasks_size = 16384, tasks_stack_size = 2048, tasks_heap_size = 16384 - 2048\<rparr>"

definition taskmem_stack_top :: "layout \<Rightarrow> nat \<Rightarrow> addr" where
  "taskmem_stack_top lay tasknum = tasks_start lay + tasks_size lay * tasknum + tasks_stack_size lay"

definition taskmem_stack_bottom :: "layout \<Rightarrow> nat \<Rightarrow> addr" where
  "taskmem_stack_bottom lay tasknum = tasks_start lay + tasks_size lay * tasknum"

definition taskmem_stack_size :: "layout \<Rightarrow> nat \<Rightarrow> nat" where
  "taskmem_stack_size lay tasknum = tasks_stack_size lay"

definition taskmem_heap_start :: "layout \<Rightarrow> nat \<Rightarrow> addr" where
  "taskmem_heap_start lay tasknum = taskmem_stack_top lay tasknum"

definition taskmem_heap_end :: "layout \<Rightarrow> nat \<Rightarrow> addr" where
  "taskmem_heap_end lay tasknum = tasks_start lay + tasks_size lay * tasknum + tasks_size lay"

definition taskmem_heap_size :: "layout \<Rightarrow> nat \<Rightarrow> nat" where
  "taskmem_heap_size lay tasknum = tasks_heap_size lay"

section \<open>State\<close>

datatype msel_task_wait_op = MSEL_TASK_WAIT_NONE | MSEL_TASK_WAIT_TIME | MSEL_TASK_WAIT_UART | MSEL_TASK_WAIT_POL

record msel_tcb =
  tcb_stack :: addr
  tcb_stack_top :: addr
  tcb_stack_sz :: nat
  tcb_heap :: addr
  tcb_heap_sz :: nat
  tcb_entry :: addr
  tcb_arg :: addr
  tcb_arg_sz :: nat
  tcb_valid :: bool
  tcb_killed :: bool
  tcb_reason :: string
  tcb_wait_op :: msel_task_wait_op
  tcb_pol_retptr :: addr
  tcb_ctx_id :: u8
  tcb_runs :: u32
  tcb_num :: nat

text \<open>The entry after \<^verbatim>\<open>msel_memset(task, 0, sizeof(msel_tcb))\<close>.\<close>

definition zero_tcb :: msel_tcb where
  "zero_tcb = \<lparr>tcb_stack = 0, tcb_stack_top = 0, tcb_stack_sz = 0, tcb_heap = 0, tcb_heap_sz = 0, tcb_entry = 0,
     tcb_arg = 0, tcb_arg_sz = 0, tcb_valid = False, tcb_killed = False, tcb_reason = [],
     tcb_wait_op = MSEL_TASK_WAIT_NONE, tcb_pol_retptr = 0, tcb_ctx_id = 0, tcb_runs = 0, tcb_num = 0\<rparr>"

text \<open>The saved registers the kernel writes; the others are zero in a new task.\<close>

record or1k_saved_regs =
  reg_sr :: u32
  reg_pc :: addr
  reg_r3 :: addr
  reg_r4 :: nat
  reg_r11 :: msel_status

abbreviation (input) MSEL_TASKS_MAX :: nat where "MSEL_TASKS_MAX \<equiv> 5"
abbreviation (input) MSEL_TASK_MAIN :: nat where "MSEL_TASK_MAIN \<equiv> 0"

record os =
  msel_task_list :: "msel_tcb list"
  msel_num_tasks :: nat
  msel_active_task_num :: nat
  msel_systicks :: u64
  os_gpio :: gpio
  os_console :: string
  os_regs :: "addr \<Rightarrow> or1k_saved_regs"
  os_heaps :: "nat \<Rightarrow> heap"
  os_mem :: mem

definition upd_task :: "nat \<Rightarrow> (msel_tcb \<Rightarrow> msel_tcb) \<Rightarrow> os \<Rightarrow> os" where
  "upd_task t f st = st\<lparr>msel_task_list := (msel_task_list st)[t := f (msel_task_list st ! t)]\<rparr>"

definition msel_active_task :: "os \<Rightarrow> msel_tcb" where
  "msel_active_task st = msel_task_list st ! msel_active_task_num st"

section \<open>Queries\<close>

definition msel_task_is_killed :: "msel_tcb \<Rightarrow> bool" where
  "msel_task_is_killed tcb \<longleftrightarrow> tcb_killed tcb"

definition msel_task_is_waiting :: "msel_tcb \<Rightarrow> bool" where
  "msel_task_is_waiting tcb \<longleftrightarrow> tcb_wait_op tcb \<noteq> MSEL_TASK_WAIT_NONE \<and> tcb_valid tcb \<and> \<not> msel_task_is_killed tcb"

definition msel_task_is_valid :: "msel_tcb \<Rightarrow> bool" where
  "msel_task_is_valid tcb \<longleftrightarrow> tcb_valid tcb \<and> \<not> msel_task_is_killed tcb \<and> \<not> msel_task_is_waiting tcb"

definition msel_task_resume :: "msel_tcb \<Rightarrow> msel_tcb" where
  "msel_task_resume tcb = tcb\<lparr>tcb_wait_op := MSEL_TASK_WAIT_NONE\<rparr>"

section \<open>Scheduler\<close>

definition arch_task_cleanup :: "msel_tcb \<Rightarrow> msel_tcb" where
  "arch_task_cleanup task = task"

definition msel_task_cleanup :: "msel_tcb \<Rightarrow> msel_tcb" where
  "msel_task_cleanup task = (let task = arch_task_cleanup task in zero_tcb)"

definition uart_print_now :: "string \<Rightarrow> os \<Rightarrow> os" where
  "uart_print_now s st = st\<lparr>os_console := os_console st @ s\<rparr>"

text \<open>One turn of the loop that removes killed tasks, with its message, and the loop.\<close>

definition reap_task :: "nat \<Rightarrow> os \<Rightarrow> os" where
  "reap_task tnum st =
     (if msel_task_is_killed (msel_task_list st ! tnum) then
        let st = uart_print_now ''Killed task '' st;
            st = uart_print_now [char_of (tnum + 48)] st;
            st = uart_print_now ''. REASON: '' st;
            st = uart_print_now (tcb_reason (msel_task_list st ! tnum)) st;
            st = uart_print_now [CHR 0x0D, CHR 0x0A] st
        in upd_task tnum msel_task_cleanup st
      else st)"

definition reap_tasks :: "os \<Rightarrow> os option" where
  "reap_tasks st =
     (if msel_num_tasks st \<le> length (msel_task_list st) then Some (fold reap_task [0..<msel_num_tasks st] st) else None)"

text \<open>The round robin loop over the task numbers, which runs until it finds a task that can run.\<close>

partial_function (option) next_task :: "msel_tcb list \<Rightarrow> nat \<Rightarrow> nat \<Rightarrow> nat option" where
  "next_task tasks n cur =
     (let cur = (cur + 1) mod n
      in if cur \<ge> length tasks then None
         else if msel_task_is_valid (tasks ! cur) then Some cur
         else next_task tasks n cur)"

definition arch_task_setup_mm :: "msel_tcb \<Rightarrow> os \<Rightarrow> os" where
  "arch_task_setup_mm task st = st"

definition msel_task_setup_mm :: "msel_tcb \<Rightarrow> os \<Rightarrow> os" where
  "msel_task_setup_mm task st = arch_task_setup_mm task st"

definition led_bits :: "msel_tcb list \<Rightarrow> nat \<Rightarrow> u32" where
  "led_bits tasks n =
     fold (\<lambda>i leds. if msel_task_is_valid (tasks ! i) \<and> unat (tcb_runs (tasks ! i)) mod 100 > 30
                    then leds OR push_bit (i + 1) 1 else leds) [0..<min n 8] 0"

definition msel_set_status_leds :: "os \<Rightarrow> os option" where
  "msel_set_status_leds st =
     (if min (msel_num_tasks st) 8 \<le> length (msel_task_list st)
      then Some (st\<lparr>os_gpio := msel_led_set MSEL_LED_ALL (led_bits (msel_task_list st) (msel_num_tasks st)) (os_gpio st)\<rparr>)
      else None)"

definition msel_task_schedule :: "os \<Rightarrow> (msel_status \<times> os) option" where
  "msel_task_schedule st =
     (if msel_num_tasks st = 0 then Some (MSEL_EINVAL, st)
      else do {
        st \<leftarrow> reap_tasks st;
        cur \<leftarrow> next_task (msel_task_list st) (msel_num_tasks st) (msel_active_task_num st);
        let st = st\<lparr>msel_active_task_num := cur\<rparr>;
        let st = msel_task_setup_mm (msel_active_task st) st;
        st \<leftarrow> msel_set_status_leds st;
        Some (MSEL_OK, st) })"

definition msel_task_force_kill :: "nat \<Rightarrow> string \<Rightarrow> os \<Rightarrow> os option" where
  "msel_task_force_kill tasknum reason st =
     (if tasknum \<ge> length (msel_task_list st) then None
      else do {
        (r, st) \<leftarrow> msel_task_schedule (upd_task tasknum (\<lambda>t. t\<lparr>tcb_killed := True, tcb_reason := reason\<rparr>) st);
        Some st })"

definition msel_systick_handler :: "os \<Rightarrow> os option" where
  "msel_systick_handler st = do {
     let st = st\<lparr>msel_systicks := msel_systicks st + 1\<rparr>;
     st \<leftarrow> msel_set_status_leds st;
     (r, st) \<leftarrow> msel_task_schedule st;
     Some st }"

definition msel_task_update_ctrs_resume :: "os \<Rightarrow> os" where
  "msel_task_update_ctrs_resume st = upd_task (msel_active_task_num st) (\<lambda>t. t\<lparr>tcb_runs := tcb_runs t + 1\<rparr>) st"

section \<open>Creation\<close>

definition taskmem_init :: "layout \<Rightarrow> nat \<Rightarrow> os \<Rightarrow> os" where
  "taskmem_init lay tasknum st =
     (let st = (if tasknum \<noteq> 0 then st\<lparr>os_mem := msel_memset (taskmem_stack_bottom lay tasknum) 0 (tasks_size lay) (os_mem st)\<rparr> else st);
          m = (if tasknum \<noteq> 0 then (\<lambda>a. 0) else hmem (os_heaps st tasknum))
      in st\<lparr>os_heaps := (os_heaps st)(tasknum := heap_init (taskmem_heap_start lay tasknum) (taskmem_heap_end lay tasknum) m)\<rparr>)"

definition msel_init_taskmem :: "layout \<Rightarrow> os \<Rightarrow> os" where
  "msel_init_taskmem lay st = taskmem_init lay 0 st"

abbreviation (input) SIZEOF_SAVED_REGS :: nat where "SIZEOF_SAVED_REGS \<equiv> 128"

text \<open>The status register of a new task: interrupts, timer and both memory management units on.\<close>

definition initial_sr :: u32 where
  "initial_sr = 0x4 OR 0x2 OR 0x20 OR 0x40 OR 0x8000"

definition arch_task_create :: "nat \<Rightarrow> os \<Rightarrow> msel_status \<times> os" where
  "arch_task_create tasknum st =
     (let st = upd_task tasknum (\<lambda>t. t\<lparr>tcb_stack := tcb_stack t - SIZEOF_SAVED_REGS - 0x88\<rparr>) st;
          task = msel_task_list st ! tasknum;
          regs = \<lparr>reg_sr = initial_sr, reg_pc = tcb_entry task, reg_r3 = tcb_arg task, reg_r4 = tcb_arg_sz task, reg_r11 = MSEL_OK\<rparr>
      in (MSEL_OK, st\<lparr>os_regs := (os_regs st)(tcb_stack task := regs)\<rparr>))"

definition free_slot :: "msel_tcb list \<Rightarrow> nat" where
  "free_slot tasks = length (takeWhile tcb_valid tasks)"

definition copy_bytes :: "addr \<Rightarrow> bytes \<Rightarrow> mem \<Rightarrow> mem" where
  "copy_bytes dst bs m = fold (\<lambda>i m. m(dst + i := bs ! i)) [0..<length bs] m"

text \<open>\<open>arg\<close> is the argument block, none for the null pointer. The answer is the status, the task
  number stored through \<open>tid\<close>, and the state.\<close>

definition msel_task_create :: "layout \<Rightarrow> addr \<Rightarrow> bytes option \<Rightarrow> nat \<Rightarrow> os \<Rightarrow> (msel_status \<times> nat option \<times> os) option" where
  "msel_task_create lay entry arg arg_sz st =
     (let tasknum = free_slot (msel_task_list st)
      in if tasknum = MSEL_TASKS_MAX then Some (MSEL_ERESOURCE, None, st)
         else if entry = 0 \<or> (arg \<noteq> None \<and> arg_sz = 0) \<or> arg_sz > taskmem_heap_size lay tasknum
         then Some (MSEL_EINVAL, None, st)
         else
           let st = upd_task tasknum (\<lambda>t. zero_tcb\<lparr>tcb_num := tasknum\<rparr>) st;
               st = taskmem_init lay tasknum st;
               st = upd_task tasknum (\<lambda>t. t\<lparr>tcb_stack := taskmem_stack_top lay tasknum, tcb_stack_top := taskmem_stack_top lay tasknum,
                      tcb_stack_sz := taskmem_stack_size lay tasknum, tcb_heap := taskmem_heap_start lay tasknum,
                      tcb_heap_sz := taskmem_heap_size lay tasknum, tcb_entry := entry, tcb_wait_op := MSEL_TASK_WAIT_NONE\<rparr>) st;
               (r, st) = arch_task_create tasknum st;
               fail = (\<lambda>ret st. Some (ret, None, upd_task tasknum (\<lambda>t. t\<lparr>tcb_valid := False\<rparr>) st));
               finish = (\<lambda>st. Some (MSEL_OK, Some tasknum,
                 (upd_task tasknum (\<lambda>t. t\<lparr>tcb_valid := True\<rparr>) st)\<lparr>msel_num_tasks := msel_num_tasks st + 1\<rparr>))
           in if r \<noteq> MSEL_OK then fail MSEL_EUNKNOWN st
              else case arg of
                None \<Rightarrow> finish st
              | Some bs \<Rightarrow> do {
                  let st = upd_task tasknum (\<lambda>t. t\<lparr>tcb_arg_sz := arg_sz\<rparr>) st;
                  (p, h) \<leftarrow> heap_malloc arg_sz (os_heaps st tasknum);
                  let st = st\<lparr>os_heaps := (os_heaps st)(tasknum := h)\<rparr>;
                  let st = upd_task tasknum (\<lambda>t. t\<lparr>tcb_arg := p\<rparr>) st;
                  if p = 0 then fail MSEL_ERESOURCE st
                  else finish (st\<lparr>os_mem := copy_bytes p (take arg_sz bs) (os_mem st)\<rparr>) })"

definition arch_init_task :: "os \<Rightarrow> os" where
  "arch_init_task st = st"

definition msel_init_task :: "layout \<Rightarrow> addr \<Rightarrow> os \<Rightarrow> os option" where
  "msel_init_task lay msel_main st = do {
     let st = st\<lparr>msel_task_list := replicate MSEL_TASKS_MAX zero_tcb\<rparr>;
     (r, tid, st) \<leftarrow> msel_task_create lay msel_main None 0 st;
     let st = st\<lparr>msel_active_task_num := 0\<rparr>;
     Some (arch_init_task st) }"

definition arch_task_launch_main :: "os \<Rightarrow> os" where
  "arch_task_launch_main st = st\<lparr>msel_active_task_num := 0\<rparr>"

definition msel_task_launch_main :: "os \<Rightarrow> os" where
  "msel_task_launch_main st =
     (let st = msel_task_setup_mm (msel_task_list st ! 0) st in arch_task_launch_main st)"

section \<open>The round robin loop\<close>

lemma next_task_first:
  assumes "n \<le> length tasks" "0 < n" "msel_task_is_valid (tasks ! ((cur + Suc d) mod n))"
    "\<forall>e < d. \<not> msel_task_is_valid (tasks ! ((cur + Suc e) mod n))"
  shows "next_task tasks n cur = Some ((cur + Suc d) mod n)"
  using assms(3,4)
proof (induction d arbitrary: cur)
  case 0
  then show ?case using less_le_trans [OF mod_less_divisor [OF assms(2)] assms(1), of "Suc cur"]
    by (subst next_task.simps) (simp add: Let_def not_le)
next
  case (Suc d)
  let ?c = "(cur + 1) mod n"
  have m: "(?c + Suc e) mod n = (cur + Suc (Suc e)) mod n" for e
    using mod_add_left_eq [of "cur + 1" n "Suc e"] by simp
  have "\<not> msel_task_is_valid (tasks ! ?c)" using Suc.prems(2) by auto
  moreover have "?c < length tasks" by (rule less_le_trans [OF mod_less_divisor [OF assms(2)] assms(1)])
  ultimately have "next_task tasks n cur = next_task tasks n ?c" by (subst next_task.simps) (simp add: Let_def)
  also have "\<dots> = Some ((?c + Suc d) mod n)"
    using Suc.prems by (intro Suc.IH) (simp_all only: m, auto)
  finally show ?case by (simp only: m)
qed

text \<open>The distance the loop has to go from \<open>cur\<close> to \<open>i\<close>, between 1 and \<open>n\<close>.\<close>

definition task_dist :: "nat \<Rightarrow> nat \<Rightarrow> nat \<Rightarrow> nat" where
  "task_dist n cur i = (if cur mod n < i then i - cur mod n else n + i - cur mod n)"

lemma task_dist:
  assumes "i < n"
  shows "0 < task_dist n cur i" "task_dist n cur i \<le> n" "(cur + task_dist n cur i) mod n = i"
proof -
  define m where "m = cur mod n"
  have m: "m < n" unfolding m_def using assms by (intro mod_less_divisor) simp
  then show "0 < task_dist n cur i" "task_dist n cur i \<le> n" using assms by (auto simp: task_dist_def m_def [symmetric])
  have "(cur + task_dist n cur i) mod n = (m + task_dist n cur i) mod n" by (simp add: m_def mod_simps)
  also have "m + task_dist n cur i = (if m < i then i else n + i)" using m assms by (auto simp: task_dist_def m_def [symmetric])
  finally show "(cur + task_dist n cur i) mod n = i" using assms by (simp split: if_splits)
qed

lemma task_dist_step:
  assumes "i < n" "d < task_dist n cur i"
  shows "task_dist n ((cur + d) mod n) i = task_dist n cur i - d"
proof -
  define m where "m = cur mod n"
  have m: "m < n" unfolding m_def using assms(1) by (intro mod_less_divisor) simp
  have "(cur + d) mod n = (m + d) mod n" by (simp add: m_def mod_simps)
  also have "\<dots> = (if m + d < n then m + d else m + d - n)"
    using m task_dist(2) [OF assms(1), of cur] assms(2) by (simp add: mod_if)
  finally have "(cur + d) mod n = (if m + d < n then m + d else m + d - n)" .
  moreover have "(if m + d < n then m + d else m + d - n) mod n = (if m + d < n then m + d else m + d - n)"
    using m task_dist(2) [OF assms(1), of cur] assms(2) by (simp add: mod_if)
  ultimately show ?thesis using assms m by (auto simp: task_dist_def m_def [symmetric] split: if_splits)
qed

text \<open>When some task can run, the loop ends at the first one after the current task.\<close>

lemma next_task_returns:
  assumes "n \<le> length tasks" "i < n" "msel_task_is_valid (tasks ! i)"
  shows "\<exists>d. next_task tasks n cur = Some ((cur + Suc d) mod n) \<and> Suc d \<le> task_dist n cur i
    \<and> msel_task_is_valid (tasks ! ((cur + Suc d) mod n)) \<and> (\<forall>e < d. \<not> msel_task_is_valid (tasks ! ((cur + Suc e) mod n)))"
proof -
  let ?P = "\<lambda>d. msel_task_is_valid (tasks ! ((cur + Suc d) mod n))"
  obtain k where k: "task_dist n cur i = Suc k" using task_dist(1) [OF assms(2), of cur] by (cases "task_dist n cur i") auto
  then have P: "?P k" using task_dist(3) [OF assms(2), of cur] assms(3) by simp
  define d where "d = (LEAST d. ?P d)"
  have d: "?P d" "d \<le> k" "\<forall>e < d. \<not> ?P e"
    unfolding d_def using P by (auto intro: LeastI Least_le dest: not_less_Least)
  have "0 < n" using assms(2) by simp
  from next_task_first [OF assms(1) this d(1) d(3)] show ?thesis using d k by auto
qed

section \<open>The scheduler\<close>

definition reaped :: "nat \<Rightarrow> msel_tcb list \<Rightarrow> msel_tcb list" where
  "reaped n tasks = map (\<lambda>j. if j < n \<and> tcb_killed (tasks ! j) then zero_tcb else tasks ! j) [0..<length tasks]"

lemma reaped_simps [simp]:
  "length (reaped n tasks) = length tasks"
  "j < length tasks \<Longrightarrow> reaped n tasks ! j = (if j < n \<and> tcb_killed (tasks ! j) then zero_tcb else tasks ! j)"
  by (simp_all add: reaped_def)

lemma reaped_Suc:
  assumes "n < length tasks"
  shows "reaped (Suc n) tasks = (if tcb_killed (tasks ! n) then (reaped n tasks)[n := zero_tcb] else reaped n tasks)"
  using assms by (intro nth_equalityI) (auto simp: nth_list_update less_Suc_eq)

lemma reap_task_eq:
  "\<exists>c. reap_task n st = st\<lparr>msel_task_list := (if tcb_killed (msel_task_list st ! n) then (msel_task_list st)[n := zero_tcb]
      else msel_task_list st), os_console := c\<rparr>"
proof (cases "tcb_killed (msel_task_list st ! n)")
  case True
  let ?c = "os_console st @ ''Killed task '' @ [char_of (n + 48)] @ ''. REASON: '' @ tcb_reason (msel_task_list st ! n) @ [CHR 0x0D, CHR 0x0A]"
  show ?thesis using True
    by (intro exI [of _ ?c])
      (simp add: reap_task_def msel_task_is_killed_def uart_print_now_def upd_task_def msel_task_cleanup_def Let_def)
next
  case False
  then show ?thesis by (intro exI [of _ "os_console st"]) (simp add: reap_task_def msel_task_is_killed_def)
qed

lemma reap_tasks_fold:
  assumes "n \<le> length (msel_task_list st)"
  shows "\<exists>c. fold reap_task [0..<n] st = st\<lparr>msel_task_list := reaped n (msel_task_list st), os_console := c\<rparr>"
  using assms
proof (induction n)
  case 0
  have "reaped 0 (msel_task_list st) = msel_task_list st" by (rule nth_equalityI) simp_all
  then show ?case by (intro exI [of _ "os_console st"]) simp
next
  case (Suc n)
  then obtain c where c: "fold reap_task [0..<n] st = st\<lparr>msel_task_list := reaped n (msel_task_list st), os_console := c\<rparr>" by auto
  let ?r = "reaped n (msel_task_list st)" and ?st = "st\<lparr>msel_task_list := reaped n (msel_task_list st), os_console := c\<rparr>"
  have k: "tcb_killed (?r ! n) = tcb_killed (msel_task_list st ! n)" using Suc.prems by simp
  obtain c' where "reap_task n ?st = ?st\<lparr>msel_task_list := (if tcb_killed (?r ! n) then ?r[n := zero_tcb] else ?r), os_console := c'\<rparr>"
    using reap_task_eq [of n ?st] by (cases "tcb_killed (?r ! n)") (auto simp del: reaped_simps)
  then show ?case using c Suc.prems k by (auto simp: reaped_Suc)
qed

lemma valid_reaped:
  "j < length tasks \<Longrightarrow> msel_task_is_valid (tasks ! j) \<Longrightarrow> reaped n tasks ! j = tasks ! j"
  by (simp add: msel_task_is_valid_def msel_task_is_killed_def)

lemma schedule_returns:
  assumes "msel_num_tasks st \<le> length (msel_task_list st)" "i < msel_num_tasks st" "msel_task_is_valid (msel_task_list st ! i)"
  defines "n \<equiv> msel_num_tasks st" and "cur \<equiv> msel_active_task_num st"
  shows "\<exists>d c g. msel_task_schedule st = Some (MSEL_OK, st\<lparr>msel_task_list := reaped n (msel_task_list st), os_console := c,
      msel_active_task_num := (cur + Suc d) mod n, os_gpio := g\<rparr>)
    \<and> Suc d \<le> task_dist n cur i \<and> msel_task_is_valid (reaped n (msel_task_list st) ! ((cur + Suc d) mod n))
    \<and> (\<forall>e < d. \<not> msel_task_is_valid (reaped n (msel_task_list st) ! ((cur + Suc e) mod n)))"
proof -
  let ?r = "reaped n (msel_task_list st)"
  obtain c where c: "reap_tasks st = Some (st\<lparr>msel_task_list := ?r, os_console := c\<rparr>)"
    using reap_tasks_fold [OF assms(1)] assms(1) by (auto simp: reap_tasks_def n_def)
  have "msel_task_is_valid (?r ! i)" using assms valid_reaped [of i "msel_task_list st" n] by (simp del: reaped_simps)
  then obtain d where "next_task ?r n cur = Some ((cur + Suc d) mod n)" "Suc d \<le> task_dist n cur i"
    "msel_task_is_valid (?r ! ((cur + Suc d) mod n))" "\<forall>e < d. \<not> msel_task_is_valid (?r ! ((cur + Suc e) mod n))"
    using next_task_returns [of n ?r i cur] assms(1,2) by (auto simp: n_def)
  moreover from this have "\<exists>g. msel_task_schedule st = Some (MSEL_OK, st\<lparr>msel_task_list := ?r, os_console := c,
      msel_active_task_num := (cur + Suc d) mod n, os_gpio := g\<rparr>)"
    using c assms(1,2) min.coboundedI1 [OF assms(1), of 8]
    by (intro exI [of _ "msel_led_set (NOT 0) (led_bits ?r n) (os_gpio st)"])
      (simp add: msel_task_schedule_def msel_set_status_leds_def msel_task_setup_mm_def arch_task_setup_mm_def n_def cur_def Let_def)
  ultimately show ?thesis by blast
qed

section \<open>Creation\<close>

lemma upd_task_simps [simp]:
  "msel_task_list (upd_task k f st) = (msel_task_list st)[k := f (msel_task_list st ! k)]"
  "msel_num_tasks (upd_task k f st) = msel_num_tasks st" "msel_active_task_num (upd_task k f st) = msel_active_task_num st"
  "os_regs (upd_task k f st) = os_regs st" "os_mem (upd_task k f st) = os_mem st" "os_heaps (upd_task k f st) = os_heaps st"
  by (simp_all add: upd_task_def)

lemma taskmem_init_simps [simp]:
  "msel_task_list (taskmem_init lay k st) = msel_task_list st" "msel_num_tasks (taskmem_init lay k st) = msel_num_tasks st"
  "msel_active_task_num (taskmem_init lay k st) = msel_active_task_num st" "os_regs (taskmem_init lay k st) = os_regs st"
  by (simp_all add: taskmem_init_def Let_def)

lemma free_slot:
  "free_slot tasks \<le> length tasks" "j < free_slot tasks \<Longrightarrow> tcb_valid (tasks ! j)"
  "free_slot tasks < length tasks \<Longrightarrow> \<not> tcb_valid (tasks ! free_slot tasks)"
  using nth_length_takeWhile [of tcb_valid tasks]
  by (auto simp: free_slot_def length_takeWhile_le takeWhile_nth) (metis takeWhile_nth nth_mem set_takeWhileD)

lemma free_slot_none: "free_slot tasks = length tasks \<longleftrightarrow> (\<forall>t \<in> set tasks. tcb_valid t)"
  by (induction tasks) (auto simp: free_slot_def)

text \<open>Whatever its outcome, creation changes no entry but the free one.\<close>

lemma create_frame:
  assumes "msel_task_create lay entry arg n st = Some (r, tid, st')"
  shows "length (msel_task_list st') = length (msel_task_list st) \<and> msel_num_tasks st \<le> msel_num_tasks st'
    \<and> msel_active_task_num st' = msel_active_task_num st
    \<and> (\<forall>j. j \<noteq> free_slot (msel_task_list st) \<longrightarrow> msel_task_list st' ! j = msel_task_list st ! j)"
  using assms unfolding msel_task_create_def arch_task_create_def Let_def
  by (auto split: if_splits option.splits bind_splits)

lemma create_plain:
  fixes st defines "k \<equiv> free_slot (msel_task_list st)"
  assumes "length (msel_task_list st) = 5" "k < 5" "entry \<noteq> 0"
  shows "\<exists>st'. msel_task_create lay entry None 0 st = Some (MSEL_OK, Some k, st')
    \<and> msel_num_tasks st' = msel_num_tasks st + 1 \<and> msel_task_is_valid (msel_task_list st' ! k) \<and> tcb_num (msel_task_list st' ! k) = k
    \<and> reg_pc (os_regs st' (tcb_stack (msel_task_list st' ! k))) = entry
    \<and> os_mem st' = os_mem (taskmem_init lay k st)
    \<and> (\<exists>m. os_heaps st' = (os_heaps st)(k := heap_init (taskmem_heap_start lay k) (taskmem_heap_end lay k) m))"
  using assms
  by (simp add: msel_task_create_def arch_task_create_def Let_def k_def [symmetric] taskmem_init_def
      msel_task_is_valid_def msel_task_is_killed_def msel_task_is_waiting_def zero_tcb_def)
    (auto simp: upd_task_def)

lemma create_with_arg:
  assumes c: "msel_task_create lay entry (Some bs) n st = Some (MSEL_OK, Some k, st')" and len: "length (msel_task_list st) = 5"
  shows "reg_r3 (os_regs st' (tcb_stack (msel_task_list st' ! k))) = 0 \<and> reg_r4 (os_regs st' (tcb_stack (msel_task_list st' ! k))) = 0
    \<and> tcb_arg (msel_task_list st' ! k) \<noteq> 0 \<and> tcb_arg_sz (msel_task_list st' ! k) = n"
proof -
  have "free_slot (msel_task_list st) = 5 \<or> free_slot (msel_task_list st) < 5" using free_slot(1) [of "msel_task_list st"] len by auto
  then show ?thesis using c len unfolding msel_task_create_def arch_task_create_def Let_def
    by (auto split: if_splits bind_splits simp: zero_tcb_def)
qed

text \<open>A fresh heap serves any argument that fits into it.\<close>

lemma fresh_heap_serves:
  assumes "k < 5" "n \<le> 14272"
  shows "\<exists>p h. heap_malloc n (heap_init (taskmem_heap_start or1k_layout k) (taskmem_heap_end or1k_layout k) m) = Some (p, h) \<and> p \<noteq> 0"
proof -
  let ?b = "taskmem_heap_start or1k_layout k" and ?e = "taskmem_heap_end or1k_layout k"
  have i: "heap_inv (heap_init ?b ?e m) [(?b + 32, ?e - ?b - 64, True)]"
    using assms(1) by (intro heap_init_ok)
      (auto simp: taskmem_heap_start_def taskmem_heap_end_def taskmem_stack_top_def or1k_layout_def)
  have "round_up n \<le> ?e - ?b - 64"
    using assms(2) div_le_mono [of "15 + n" 14287 16]
    by (simp add: round_up_def align_down_def minus_mod_eq_mult_div taskmem_heap_start_def taskmem_heap_end_def taskmem_stack_top_def or1k_layout_def)
  then show ?thesis by (cases rule: heap_malloc_cases [OF i, of n]) auto
qed

lemma create_arg_returns:
  assumes "length (msel_task_list st) = 5" "free_slot (msel_task_list st) < 5" "entry \<noteq> 0" "0 < n" "n \<le> 14272"
  shows "\<exists>k st'. msel_task_create or1k_layout entry (Some bs) n st = Some (MSEL_OK, Some k, st')"
proof -
  define k where "k = free_slot (msel_task_list st)"
  have k: "k < 5" using assms(2) by (simp add: k_def)
  have h: "\<exists>p h. heap_malloc n (os_heaps (taskmem_init or1k_layout k s) k) = Some (p, h) \<and> p \<noteq> 0" for s
    using fresh_heap_serves [OF k assms(5)] by (simp add: taskmem_init_def Let_def)
  then obtain p h where "heap_malloc n (os_heaps (taskmem_init or1k_layout k (upd_task k (\<lambda>t. zero_tcb\<lparr>tcb_num := k\<rparr>) st)) k) = Some (p, h)" "p \<noteq> 0"
    by blast
  then show ?thesis using assms k
    by (simp add: msel_task_create_def arch_task_create_def Let_def k_def [symmetric] taskmem_heap_size_def or1k_layout_def [THEN arg_cong [of _ _ tasks_heap_size]])
qed

section \<open>Reachable states\<close>

text \<open>The events that change the task state: creation, the death of a task other than the main one,
  a tick, a yield, a task other than the main one starting to wait, and the end of a wait.\<close>

inductive os_step :: "os \<Rightarrow> os \<Rightarrow> bool" where
  create: "msel_task_create lay entry arg n st = Some (r, tid, st') \<Longrightarrow> os_step st st'"
| kill: "k \<noteq> 0 \<Longrightarrow> msel_task_force_kill k reason st = Some st' \<Longrightarrow> os_step st st'"
| tick: "msel_systick_handler st = Some st' \<Longrightarrow> os_step st st'"
| yield: "msel_task_schedule st = Some (r, st') \<Longrightarrow> os_step st st'"
| wait: "msel_active_task_num st \<noteq> 0 \<Longrightarrow>
    msel_task_schedule (upd_task (msel_active_task_num st) (\<lambda>t. t\<lparr>tcb_wait_op := w\<rparr>) st) = Some (r, st') \<Longrightarrow> os_step st st'"
| resume: "os_step st (upd_task k msel_task_resume st)"

definition os_ok :: "os \<Rightarrow> bool" where
  "os_ok st \<longleftrightarrow> length (msel_task_list st) = 5 \<and> 0 < msel_num_tasks st \<and> msel_task_is_valid (msel_task_list st ! 0)"

lemma schedule_ok:
  assumes "os_ok st" "msel_task_schedule st = Some (r, st')"
  shows "os_ok st'"
proof -
  have n: "msel_num_tasks st \<le> length (msel_task_list st)"
    using assms by (auto simp: msel_task_schedule_def reap_tasks_def os_ok_def split: bind_splits if_splits)
  have "0 < length (msel_task_list st)" using assms(1) by (simp add: os_ok_def)
  then show ?thesis using schedule_returns [OF n, of 0] assms valid_reaped [of 0 "msel_task_list st" "msel_num_tasks st"]
    by (auto simp: os_ok_def simp del: reaped_simps(2))
qed

lemma upd_ok: "os_ok st \<Longrightarrow> k \<noteq> 0 \<Longrightarrow> os_ok (upd_task k f st)"
  by (simp add: os_ok_def)

lemma os_step_ok: "os_step st st' \<Longrightarrow> os_ok st \<Longrightarrow> os_ok st'"
proof (induction rule: os_step.induct)
  case (create lay entry arg n st r tid st')
  have "free_slot (msel_task_list st) \<noteq> 0"
    using create.prems free_slot(3) [of "msel_task_list st"]
    by (metis os_ok_def msel_task_is_valid_def zero_less_numeral)
  then show ?case using create_frame [OF create.hyps] create.prems by (auto simp: os_ok_def)
next
  case (kill k reason st st')
  then obtain r where "msel_task_schedule (upd_task k (\<lambda>t. t\<lparr>tcb_killed := True, tcb_reason := reason\<rparr>) st) = Some (r, st')"
    by (auto simp: msel_task_force_kill_def split: if_splits bind_splits)
  then show ?case by (rule schedule_ok [OF upd_ok [OF kill.prems kill.hyps(1)]])
next
  case (tick st st')
  then obtain g r where "msel_task_schedule (st\<lparr>msel_systicks := msel_systicks st + 1, os_gpio := g\<rparr>) = Some (r, st')"
    by (auto simp: msel_systick_handler_def msel_set_status_leds_def Let_def split: bind_splits if_splits)
  then show ?case using tick.prems by (elim schedule_ok [rotated]) (simp add: os_ok_def)
next
  case (yield st r st')
  then show ?case by (blast intro: schedule_ok)
next
  case (wait st w r st')
  then show ?case by (blast intro: schedule_ok upd_ok)
next
  case (resume st k)
  then show ?case
    by (cases "k = 0") (auto simp: os_ok_def msel_task_resume_def msel_task_is_valid_def msel_task_is_killed_def msel_task_is_waiting_def)
qed

text \<open>An example state: the main task and one more, of five entries.\<close>

definition demo_os :: os where
  "demo_os = \<lparr>msel_task_list = [zero_tcb\<lparr>tcb_valid := True\<rparr>, zero_tcb\<lparr>tcb_valid := True, tcb_num := 1\<rparr>, zero_tcb, zero_tcb, zero_tcb],
     msel_num_tasks = 2, msel_active_task_num = 1, msel_systicks = 0,
     os_gpio = \<lparr>port0_conf_shadow = 0, port0_vals_shadow = 0, gpio_conf = 0, gpio_port = 0, gpio_pins = 0\<rparr>,
     os_console = [], os_regs = \<lambda>a. \<lparr>reg_sr = 0, reg_pc = 0, reg_r3 = 0, reg_r4 = 0, reg_r11 = MSEL_OK\<rparr>,
     os_heaps = \<lambda>k. \<lparr>hmem = \<lambda>a. 0, free_list = [], hp_start = 0, hp_end = 0\<rparr>, os_mem = \<lambda>a. 0\<rparr>"

lemma demo_os_ok: "os_ok demo_os"
  by (simp add: demo_os_def os_ok_def zero_tcb_def msel_task_is_valid_def msel_task_is_killed_def msel_task_is_waiting_def)

text \<open>The state after a number of calls of the scheduler.\<close>

fun sched_runs :: "nat \<Rightarrow> os \<Rightarrow> os option" where
  "sched_runs 0 st = Some st"
| "sched_runs (Suc m) st = do { (r, st) \<leftarrow> msel_task_schedule st; sched_runs m st }"

lemma sched_runs_reach:
  assumes "msel_num_tasks st \<le> length (msel_task_list st)" "i < msel_num_tasks st" "msel_task_is_valid (msel_task_list st ! i)"
  shows "\<exists>m st'. 0 < m \<and> m \<le> task_dist (msel_num_tasks st) (msel_active_task_num st) i \<and> sched_runs m st = Some st'
    \<and> msel_active_task_num st' = i \<and> msel_task_list st' ! i = msel_task_list st ! i"
  using assms
proof (induction "task_dist (msel_num_tasks st) (msel_active_task_num st) i" arbitrary: st rule: less_induct)
  case less
  let ?n = "msel_num_tasks st" and ?cur = "msel_active_task_num st"
  obtain d c g where s: "msel_task_schedule st = Some (MSEL_OK, st\<lparr>msel_task_list := reaped ?n (msel_task_list st), os_console := c,
      msel_active_task_num := (?cur + Suc d) mod ?n, os_gpio := g\<rparr>)" "Suc d \<le> task_dist ?n ?cur i"
    using schedule_returns [OF less.prems] by blast
  let ?st = "st\<lparr>msel_task_list := reaped ?n (msel_task_list st), os_console := c, msel_active_task_num := (?cur + Suc d) mod ?n, os_gpio := g\<rparr>"
  have i: "reaped ?n (msel_task_list st) ! i = msel_task_list st ! i" using less.prems by (intro valid_reaped) simp_all
  show ?case
  proof (cases "Suc d = task_dist ?n ?cur i")
    case True
    then have "msel_active_task_num ?st = i" using task_dist(3) [OF less.prems(2), of ?cur] by simp
    then show ?thesis using s i True by (intro exI [of _ 1] exI [of _ ?st]) simp
  next
    case False
    have e: "task_dist ?n ((?cur + Suc d) mod ?n) i = task_dist ?n ?cur i - Suc d"
      using s(2) False by (intro task_dist_step [OF less.prems(2)]) simp
    have "\<exists>m st'. 0 < m \<and> m \<le> task_dist ?n ((?cur + Suc d) mod ?n) i \<and> sched_runs m ?st = Some st'
        \<and> msel_active_task_num st' = i \<and> msel_task_list st' ! i = msel_task_list ?st ! i"
      using less.hyps [of ?st] e s(2) less.prems i by simp
    then obtain m st' where m: "m \<le> task_dist ?n ?cur i - Suc d" "sched_runs m ?st = Some st'" "msel_active_task_num st' = i"
      "msel_task_list st' ! i = msel_task_list st ! i" using e i by auto
    then show ?thesis using s by (intro exI [of _ "Suc m"] exI [of _ st']) simp
  qed
qed

section \<open>Properties\<close>

text \<open>
  When a task can run, the scheduler returns: it removes the killed tasks, and switches to the
  first task after the current one, in cyclic order, that can run; every other entry is unchanged.
\<close>

theorem schedule_next:
  assumes "msel_num_tasks st \<le> length (msel_task_list st)" "i < msel_num_tasks st" "msel_task_is_valid (msel_task_list st ! i)"
  shows "\<exists>st' d. msel_task_schedule st = Some (MSEL_OK, st')
    \<and> msel_active_task_num st' = (msel_active_task_num st + Suc d) mod msel_num_tasks st
    \<and> msel_task_is_valid (msel_active_task st')
    \<and> (\<forall>e < d. \<not> msel_task_is_valid (msel_task_list st' ! ((msel_active_task_num st + Suc e) mod msel_num_tasks st)))
    \<and> (\<forall>j < length (msel_task_list st). msel_task_list st' ! j =
          (if j < msel_num_tasks st \<and> tcb_killed (msel_task_list st ! j) then zero_tcb else msel_task_list st ! j))"
  using schedule_returns [OF assms] by (fastforce simp: msel_active_task_def)

theorem schedule_next_witness:
  "\<exists>st'. msel_task_schedule demo_os = Some (MSEL_OK, st') \<and> msel_task_is_valid (msel_active_task st')"
  using schedule_next [of demo_os 0] demo_os_ok by (force simp: os_ok_def demo_os_def)



text \<open>
  From any state in which the main task can run, in particular the one initialisation leaves,
  every sequence of task events keeps it so: the main task stays alive and never waits. So as long
  as at most five tasks were ever created, every tick returns and leaves a task that can run.
\<close>

theorem main_always_runnable:
  assumes "os_ok st" "os_step\<^sup>*\<^sup>* st st'"
  shows "os_ok st' \<and> (msel_num_tasks st' \<le> 5 \<longrightarrow> (\<exists>st''. msel_systick_handler st' = Some st'' \<and> msel_task_is_valid (msel_active_task st'')))"
proof -
  have ok: "os_ok st'" using assms(2,1) by induction (auto intro: os_step_ok)
  moreover have "\<exists>st''. msel_systick_handler st' = Some st'' \<and> msel_task_is_valid (msel_active_task st'')" if n: "msel_num_tasks st' \<le> 5"
  proof -
    define s where "s = st'\<lparr>msel_systicks := msel_systicks st' + 1,
      os_gpio := msel_led_set (NOT 0) (led_bits (msel_task_list st') (msel_num_tasks st')) (os_gpio st')\<rparr>"
    have s: "msel_set_status_leds (st'\<lparr>msel_systicks := msel_systicks st' + 1\<rparr>) = Some s"
      using ok n by (simp add: s_def msel_set_status_leds_def os_ok_def)
    have a: "msel_num_tasks s \<le> length (msel_task_list s)" "0 < msel_num_tasks s" "msel_task_is_valid (msel_task_list s ! 0)"
      using ok n by (simp_all add: s_def os_ok_def)
    obtain s' where "msel_task_schedule s = Some (MSEL_OK, s')" "msel_task_is_valid (msel_active_task s')"
      using schedule_returns [OF a] by (auto simp: msel_active_task_def)
    then show ?thesis using s by (simp add: msel_systick_handler_def Let_def)
  qed
  ultimately show ?thesis by blast
qed

theorem main_always_runnable_witness: "\<exists>st''. msel_systick_handler demo_os = Some st''"
  using main_always_runnable [of demo_os demo_os] demo_os_ok by (auto simp: demo_os_def)





text \<open>
  A new task never receives its argument: the registers are set up before the argument is
  copied, so the task starts with a null pointer and size 0 although its entry records both.
\<close>

theorem task_argument_lost:
  assumes "length (msel_task_list st) = 5" "free_slot (msel_task_list st) < 5" "entry \<noteq> 0" "0 < n" "n \<le> 14272"
  shows "\<exists>k st'. msel_task_create or1k_layout entry (Some bs) n st = Some (MSEL_OK, Some k, st')
    \<and> tcb_arg (msel_task_list st' ! k) \<noteq> 0 \<and> tcb_arg_sz (msel_task_list st' ! k) = n
    \<and> reg_r3 (os_regs st' (tcb_stack (msel_task_list st' ! k))) = 0 \<and> reg_r4 (os_regs st' (tcb_stack (msel_task_list st' ! k))) = 0"
  using create_arg_returns [OF assms] create_with_arg [OF _ assms(1)] by blast

theorem task_argument_lost_witness:
  "\<exists>k st'. msel_task_create or1k_layout 4 (Some [1, 2]) 2 demo_os = Some (MSEL_OK, Some k, st')
     \<and> tcb_arg_sz (msel_task_list st' ! k) = 2 \<and> reg_r4 (os_regs st' (tcb_stack (msel_task_list st' ! k))) = 0"
proof -
  have "length (msel_task_list demo_os) = 5" "free_slot (msel_task_list demo_os) < 5"
    by (simp_all add: demo_os_def free_slot_def zero_tcb_def)
  from task_argument_lost [OF this, of 4 2 "[1, 2]"] show ?thesis by auto
qed

end
