(* ===== verification/Uart.thy ===== *)
theory Uart
  imports Task
begin

unbundle bit_operations_syntax

text \<open>
  The serial port: the 16550 of \<^verbatim>\<open>arch/openrisc/uart.c\<close> and the write queue of \<^verbatim>\<open>driver/uart.c\<close>, with one
  entry for each task. Reads and writes of the registers of the device are the record \<open>uart_hw\<close>, a
  parameter; the memory the buffers are in is the argument \<open>m\<close>.
\<close>

section \<open>The device\<close>

record 'u uart_hw =
  uart_inb :: "nat \<Rightarrow> 'u \<Rightarrow> u8 \<times> 'u"
  uart_outb :: "nat \<Rightarrow> u8 \<Rightarrow> 'u \<Rightarrow> 'u"

abbreviation (input) UART16550_DATA :: nat where "UART16550_DATA \<equiv> 0"
abbreviation (input) UART16550_DIV_LSB :: nat where "UART16550_DIV_LSB \<equiv> 0"
abbreviation (input) UART16550_DIV_MSB :: nat where "UART16550_DIV_MSB \<equiv> 1"
abbreviation (input) UART16550_INTR_CTRL :: nat where "UART16550_INTR_CTRL \<equiv> 2"
abbreviation (input) UART16550_LINE_CTRL :: nat where "UART16550_LINE_CTRL \<equiv> 3"
abbreviation (input) UART16550_MDM_CTRL :: nat where "UART16550_MDM_CTRL \<equiv> 4"
abbreviation (input) UART16550_LINE_STAT :: nat where "UART16550_LINE_STAT \<equiv> 5"
abbreviation (input) UART16550_SCRATCH :: nat where "UART16550_SCRATCH \<equiv> 7"

text \<open>The state of the driver. A null buffer is address 0; \<open>uart_task\<close> is the static variable of
  \<^verbatim>\<open>uart_send_next_byte\<close>.\<close>

record uart_queue_entry =
  uq_buf :: addr
  uq_len :: nat
  uq_offset :: nat

record 'u uart =
  uart_queue :: "nat \<Rightarrow> uart_queue_entry"
  uart_enabled :: bool
  uart_task :: nat
  u_dev :: 'u

definition zero_entry :: uart_queue_entry where
  "zero_entry = \<lparr>uq_buf = 0, uq_len = 0, uq_offset = 0\<rparr>"

definition arch_uart_putc :: "('u, 'z) uart_hw_scheme \<Rightarrow> u8 \<Rightarrow> 'u uart \<Rightarrow> 'u uart" where
  "arch_uart_putc c b u = u\<lparr>u_dev := uart_outb c UART16550_DATA b (u_dev u)\<rparr>"

definition arch_uart_is_writable :: "('u, 'z) uart_hw_scheme \<Rightarrow> 'u uart \<Rightarrow> bool \<times> 'u uart" where
  "arch_uart_is_writable c u =
     (let (s, d) = uart_inb c UART16550_LINE_STAT (u_dev u) in (s AND 0x20 \<noteq> 0, u\<lparr>u_dev := d\<rparr>))"

definition arch_init_uart :: "('u, 'z) uart_hw_scheme \<Rightarrow> 'u \<Rightarrow> bool \<times> 'u" where
  "arch_init_uart c d =
     (let (v, d) = uart_inb c UART16550_SCRATCH d;
          d = uart_outb c UART16550_SCRATCH (NOT v) d;
          (w, d) = uart_inb c UART16550_SCRATCH d
      in if w \<noteq> NOT v then (False, d)
         else
           let d = uart_outb c UART16550_LINE_CTRL 0x80 d;
               d = uart_outb c UART16550_DIV_LSB 0x01 d;
               d = uart_outb c UART16550_DIV_MSB 0x00 d;
               d = uart_outb c UART16550_LINE_CTRL 0x00 d;
               d = uart_outb c UART16550_LINE_CTRL 0x03 d;
               d = uart_outb c UART16550_INTR_CTRL 0xC7 d;
               d = uart_outb c UART16550_MDM_CTRL 0x0B d
           in (True, d))"

section \<open>The driver\<close>

definition msel_init_uart :: "('u, 'z) uart_hw_scheme \<Rightarrow> 'u uart \<Rightarrow> 'u uart" where
  "msel_init_uart c u =
     (let u = u\<lparr>uart_queue := \<lambda>n. zero_entry\<rparr>; (e, d) = arch_init_uart c (u_dev u) in u\<lparr>uart_enabled := e, u_dev := d\<rparr>)"

text \<open>\<^verbatim>\<open>while(!arch_uart_is_writable());\<close> is \<open>None\<close> when the device never becomes ready.\<close>

partial_function (option) uart_wait :: "('u, 'z) uart_hw_scheme \<Rightarrow> 'u uart \<Rightarrow> 'u uart option" where
  "uart_wait c u = (let (w, u) = arch_uart_is_writable c u in if w then Some u else uart_wait c u)"

fun uart_write_now :: "('u, 'z) uart_hw_scheme \<Rightarrow> bytes \<Rightarrow> 'u uart \<Rightarrow> 'u uart option" where
  "uart_write_now c [] u = Some u"
| "uart_write_now c (b # bs) u = (case uart_wait c u of None \<Rightarrow> None | Some u \<Rightarrow> uart_write_now c bs (arch_uart_putc c b u))"

definition uart_send_next_byte :: "('u, 'z) uart_hw_scheme \<Rightarrow> mem \<Rightarrow> 'u uart \<Rightarrow> bool \<times> 'u uart" where
  "uart_send_next_byte c m u =
     (case find (\<lambda>n. uq_buf (uart_queue u n) \<noteq> 0 \<and> uq_offset (uart_queue u n) < uq_len (uart_queue u n))
        (map (\<lambda>modidx. (uart_task u + modidx) mod MSEL_TASKS_MAX) [0..<MSEL_TASKS_MAX]) of
        None \<Rightarrow> (False, u)
      | Some n \<Rightarrow>
          let q = uart_queue u n;
              u = arch_uart_putc c (m (uq_buf q + uq_offset q)) u
          in (True, u\<lparr>uart_queue := (uart_queue u)(n := q\<lparr>uq_offset := uq_offset q + 1\<rparr>), uart_task := n\<rparr>))"

text \<open>The bytes still to be sent, as pairs of a queue entry and a position in its buffer, in the order
  in which \<^verbatim>\<open>uart_send_next_byte\<close> looks for them.\<close>

definition entry_pending :: "(nat \<Rightarrow> uart_queue_entry) \<Rightarrow> nat \<Rightarrow> (nat \<times> nat) list" where
  "entry_pending Q n = (if uq_buf (Q n) = 0 then [] else map (Pair n) [uq_offset (Q n)..<uq_len (Q n)])"

fun round_trip :: "(nat \<Rightarrow> 'a list) \<Rightarrow> nat \<Rightarrow> nat \<Rightarrow> 'a list" where
  "round_trip r t 0 = []"
| "round_trip r t (Suc k) = r (t mod MSEL_TASKS_MAX) @ round_trip r (t + 1) k"

definition uart_pending :: "'u uart \<Rightarrow> (nat \<times> nat) list" where
  "uart_pending u = round_trip (entry_pending (uart_queue u)) (uart_task u) MSEL_TASKS_MAX"

lemma mod_5: "n < 10 \<Longrightarrow> n mod 5 = (if n < 5 then n else n - (5 :: nat))"
  by (simp add: mod_if)

lemma round_trip_cong:
  "(\<And>i. i < k \<Longrightarrow> r ((t + i) mod MSEL_TASKS_MAX) = r' ((t + i) mod MSEL_TASKS_MAX)) \<Longrightarrow> round_trip r t k = round_trip r' t k"
proof (induction k arbitrary: t)
  case (Suc k)
  have "r ((t + 1 + i) mod 5) = r' ((t + 1 + i) mod 5)" if "i < k" for i using Suc.prems [of "Suc i"] that by simp
  then show ?case using Suc.IH [of "t + 1"] Suc.prems [of 0] by simp
qed simp

lemma round_trip_Nil: "(\<And>i. i < k \<Longrightarrow> r ((t + i) mod MSEL_TASKS_MAX) = []) \<Longrightarrow> round_trip r t k = []"
proof (induction k arbitrary: t)
  case (Suc k)
  have "r ((t + 1 + i) mod 5) = []" if "i < k" for i using Suc.prems [of "Suc i"] that by simp
  then show ?case using Suc.IH [of "t + 1"] Suc.prems [of 0] by simp
qed simp

lemma round_trip_snoc: "round_trip r t (Suc k) = round_trip r t k @ r ((t + k) mod MSEL_TASKS_MAX)"
  by (induction k arbitrary: t) simp_all

lemma round_trip_rotate: "r (t mod MSEL_TASKS_MAX) = [] \<Longrightarrow> round_trip r (t + 1) MSEL_TASKS_MAX = round_trip r t MSEL_TASKS_MAX"
  using round_trip_snoc [of r t MSEL_TASKS_MAX] round_trip.simps(2) [of r t MSEL_TASKS_MAX] by simp

lemma round_trip_skip:
  assumes "\<forall>i < j. r ((t + i) mod MSEL_TASKS_MAX) = []"
  shows "round_trip r (t + j) MSEL_TASKS_MAX = round_trip r t MSEL_TASKS_MAX"
  using assms
proof (induction j)
  case (Suc j)
  then show ?case using round_trip_rotate [of r "t + j"] by simp
qed simp

lemma round_trip_mod: "round_trip r (t mod MSEL_TASKS_MAX) k = round_trip r t k"
proof (induction k arbitrary: t)
  case (Suc k)
  have "round_trip r (t mod 5 + 1) k = round_trip r (t + 1) k"
    using Suc [of "t mod 5 + 1"] Suc [of "t + 1"] by (simp add: mod_simps)
  then show ?case by simp
qed simp


section \<open>The queue sends in order\<close>

lemma entry_pending_Nil: "entry_pending Q n = [] \<longleftrightarrow> \<not> (uq_buf (Q n) \<noteq> 0 \<and> uq_offset (Q n) < uq_len (Q n))"
  by (auto simp: entry_pending_def)

lemma entry_pending_Cons:
  assumes "uq_buf (Q n) \<noteq> 0" "uq_offset (Q n) < uq_len (Q n)"
  shows "entry_pending Q n = (n, uq_offset (Q n)) # entry_pending (Q(n := (Q n)\<lparr>uq_offset := uq_offset (Q n) + 1\<rparr>)) n"
  using assms by (simp add: entry_pending_def upt_conv_Cons)

lemma uart_pending_at:
  assumes "\<forall>i < j. entry_pending (uart_queue u) ((uart_task u + i) mod MSEL_TASKS_MAX) = []" "n = (uart_task u + j) mod MSEL_TASKS_MAX"
  shows "uart_pending u = round_trip (entry_pending (uart_queue u)) n MSEL_TASKS_MAX"
  using round_trip_skip [OF assms(1)] unfolding uart_pending_def assms(2) round_trip_mod by simp

lemma round_trip_first:
  assumes "n < MSEL_TASKS_MAX" "uq_buf (Q n) \<noteq> 0" "uq_offset (Q n) < uq_len (Q n)"
  defines "Q' \<equiv> Q(n := (Q n)\<lparr>uq_offset := uq_offset (Q n) + 1\<rparr>)"
  shows "round_trip (entry_pending Q) n MSEL_TASKS_MAX = (n, uq_offset (Q n)) # round_trip (entry_pending Q') n MSEL_TASKS_MAX"
proof -
  have s: "round_trip r n MSEL_TASKS_MAX = r n @ round_trip r (n + 1) 4" for r :: "nat \<Rightarrow> (nat \<times> nat) list"
    using assms(1) round_trip.simps(2) [of r n 4] by simp
  have "round_trip (entry_pending Q) (n + 1) 4 = round_trip (entry_pending Q') (n + 1) 4"
  proof (rule round_trip_cong)
    fix i :: nat assume "i < 4"
    then have "(n + 1 + i) mod 5 \<noteq> n" using assms(1) mod_5 [of "n + 1 + i"] by auto
    then show "entry_pending Q ((n + 1 + i) mod 5) = entry_pending Q' ((n + 1 + i) mod 5)"
      by (simp add: entry_pending_def Q'_def)
  qed
  then show ?thesis using entry_pending_Cons [of Q n, OF assms(2,3)] unfolding s Q'_def by simp
qed

definition same_buffers :: "'u uart \<Rightarrow> 'u uart \<Rightarrow> bool" where
  "same_buffers u u' \<longleftrightarrow> (\<forall>n. uq_buf (uart_queue u' n) = uq_buf (uart_queue u n) \<and> uq_len (uart_queue u' n) = uq_len (uart_queue u n))
     \<and> uart_enabled u' = uart_enabled u"

definition pending_byte :: "mem \<Rightarrow> 'u uart \<Rightarrow> nat \<times> nat \<Rightarrow> u8" where
  "pending_byte m u p = m (uq_buf (uart_queue u (fst p)) + snd p)"

lemma same_buffers: "same_buffers u u"
  "same_buffers u u' \<Longrightarrow> same_buffers u' u'' \<Longrightarrow> same_buffers u u''"
  "same_buffers u u' \<Longrightarrow> pending_byte m u' = pending_byte m u"
  by (auto simp: same_buffers_def pending_byte_def)

lemma send_next_byte:
  "uart_pending u = [] \<Longrightarrow> uart_send_next_byte c m u = (False, u)"
  "uart_pending u = p # ps \<Longrightarrow> \<exists>u'. uart_send_next_byte c m u = (True, u') \<and> uart_pending u' = ps
     \<and> u_dev u' = uart_outb c UART16550_DATA (pending_byte m u p) (u_dev u) \<and> same_buffers u u'"
proof -
  let ?Q = "uart_queue u"
  let ?busy = "\<lambda>n. uq_buf (?Q n) \<noteq> 0 \<and> uq_offset (?Q n) < uq_len (?Q n)"
  let ?l = "map (\<lambda>modidx. (uart_task u + modidx) mod MSEL_TASKS_MAX) [0..<MSEL_TASKS_MAX]"
  have none: "uart_pending u = []" if "find ?busy ?l = None"
    unfolding uart_pending_def using that by (intro round_trip_Nil) (auto simp: find_None_iff entry_pending_Nil)
  have some: "\<exists>u'. uart_send_next_byte c m u = (True, u') \<and> uart_pending u = (n, uq_offset (?Q n)) # uart_pending u'
     \<and> u_dev u' = uart_outb c UART16550_DATA (pending_byte m u (n, uq_offset (?Q n))) (u_dev u) \<and> same_buffers u u'"
    if "find ?busy ?l = Some n" for n
  proof -
    from that obtain j where j: "j < 5" "n = (uart_task u + j) mod 5" "?busy n" "\<forall>i < j. \<not> ?busy ((uart_task u + i) mod 5)"
      unfolding find_Some_iff by (auto simp del: upt_rec_numeral)
    have n: "n < 5" using j(2) by simp
    define u' where "u' = (arch_uart_putc c (m (uq_buf (?Q n) + uq_offset (?Q n))) u)\<lparr>uart_queue := ?Q(n := (?Q n)\<lparr>uq_offset := uq_offset (?Q n) + 1\<rparr>), uart_task := n\<rparr>"
    have p: "uart_pending u = (n, uq_offset (?Q n)) # uart_pending u'"
      using uart_pending_at [of j u n] j(2,4) round_trip_first [OF n, of ?Q] j(3)
      by (simp add: entry_pending_Nil uart_pending_def u'_def)
    moreover have "uart_send_next_byte c m u = (True, u')"
      unfolding uart_send_next_byte_def that by (simp add: u'_def arch_uart_putc_def Let_def)
    ultimately show ?thesis by (simp add: u'_def arch_uart_putc_def pending_byte_def same_buffers_def)
  qed
  show "uart_pending u = [] \<Longrightarrow> uart_send_next_byte c m u = (False, u)"
    using some by (cases "find ?busy ?l") (auto simp: uart_send_next_byte_def)
  show "uart_pending u = p # ps \<Longrightarrow> \<exists>u'. uart_send_next_byte c m u = (True, u') \<and> uart_pending u' = ps
     \<and> u_dev u' = uart_outb c UART16550_DATA (pending_byte m u p) (u_dev u) \<and> same_buffers u u'"
    using some none by (cases "find ?busy ?l") fastforce+
qed

lemma is_writable_frame: "arch_uart_is_writable c u = (w, u') \<Longrightarrow> \<exists>d. u' = u\<lparr>u_dev := d\<rparr>"
  by (auto simp: arch_uart_is_writable_def Let_def split: prod.splits)

lemma pending_dev [simp]: "uart_pending (u\<lparr>u_dev := d\<rparr>) = uart_pending u" "same_buffers u (u\<lparr>u_dev := d\<rparr>)"
  "pending_byte m (u\<lparr>u_dev := d\<rparr>) = pending_byte m u"
  by (auto simp: uart_pending_def same_buffers_def pending_byte_def)

function uart_flush_queue :: "('u, 'z) uart_hw_scheme \<Rightarrow> mem \<Rightarrow> 'u uart \<Rightarrow> 'u uart" where
  "uart_flush_queue c m u =
     (case arch_uart_is_writable c u of (w, u) \<Rightarrow>
        if w then (case uart_send_next_byte c m u of (s, u) \<Rightarrow> if s then uart_flush_queue c m u else u) else u)"
  by pat_completeness auto

termination
proof (relation "measure (\<lambda>(c, m, u). length (uart_pending u))", simp, goal_cases)
  case (1 c m u w u1 s u2)
  then obtain d where d: "u1 = u\<lparr>u_dev := d\<rparr>" using is_writable_frame by metis
  show ?case
  proof (cases "uart_pending u1")
    case Nil
    then show ?thesis using 1 send_next_byte(1) [OF Nil, of c m] by simp
  next
    case (Cons p ps)
    then show ?thesis using 1 send_next_byte(2) [OF Cons, of c m] d by auto
  qed
qed

declare uart_flush_queue.simps [simp del]

text \<open>The loop of \<^verbatim>\<open>msel_uart_write\<close>: the answer says whether all bytes of task \<open>t\<close> were sent.\<close>

partial_function (option) uart_retry :: "('u, 'z) uart_hw_scheme \<Rightarrow> mem \<Rightarrow> nat \<Rightarrow> 'u uart \<Rightarrow> (bool \<times> 'u uart) option" where
  "uart_retry c m t u =
     (let u = uart_flush_queue c m u
      in if uq_offset (uart_queue u t) < uq_len (uart_queue u t)
         then if t = MSEL_TASK_MAIN then uart_retry c m t u else Some (False, u)
         else Some (True, u))"

definition msel_uart_write :: "('u, 'z) uart_hw_scheme \<Rightarrow> addr \<Rightarrow> nat \<Rightarrow> os \<Rightarrow> 'u uart \<Rightarrow> (msel_status \<times> os \<times> 'u uart) option" where
  "msel_uart_write c buf len st u =
     (if buf = 0 \<or> len = 0 then Some (MSEL_EINVAL, st, u)
      else
        let t = msel_active_task_num st;
            u = (if uq_buf (uart_queue u t) = 0
                 then u\<lparr>uart_queue := (uart_queue u)(t := \<lparr>uq_buf = buf, uq_len = len, uq_offset = 0\<rparr>)\<rparr> else u)
        in do {
          (sent, u) \<leftarrow> uart_retry c (os_mem st) t u;
          if \<not> sent then do {
            (r, st) \<leftarrow> msel_task_schedule (upd_task t (\<lambda>task. task\<lparr>tcb_wait_op := MSEL_TASK_WAIT_UART\<rparr>) st);
            Some (MSEL_ESUSP, st, u) }
          else Some (MSEL_OK, st, u\<lparr>uart_queue := (uart_queue u)(t := zero_entry)\<rparr>) })"

section \<open>The device contract\<close>

text \<open>\<open>sent\<close> are the bytes the device was given. A read of its status changes nothing of that, and the
  transmitter becomes ready after finitely many reads.\<close>

definition uart_hw_ok :: "('u, 'z) uart_hw_scheme \<Rightarrow> ('u \<Rightarrow> bytes) \<Rightarrow> ('u \<Rightarrow> nat) \<Rightarrow> bool" where
  "uart_hw_ok c sent wait \<longleftrightarrow>
     (\<forall>d s d'. uart_inb c UART16550_LINE_STAT d = (s, d') \<longrightarrow> sent d' = sent d \<and> (s AND 0x20 \<noteq> 0 \<or> wait d' < wait d))
   \<and> (\<forall>b d. sent (uart_outb c UART16550_DATA b d) = sent d @ [b])"

lemma is_writable_ok:
  assumes "uart_hw_ok c sent wait" "arch_uart_is_writable c u = (w, u')"
  shows "sent (u_dev u') = sent (u_dev u)" "w \<or> wait (u_dev u') < wait (u_dev u)"
  using assms by (auto simp: uart_hw_ok_def arch_uart_is_writable_def split: prod.splits)

lemma uart_wait_returns:
  assumes "uart_hw_ok c sent wait"
  shows "\<exists>d. uart_wait c u = Some (u\<lparr>u_dev := d\<rparr>) \<and> sent d = sent (u_dev u)"
proof (induction "wait (u_dev u)" arbitrary: u rule: less_induct)
  case less
  obtain w u1 where w: "arch_uart_is_writable c u = (w, u1)" by fastforce
  obtain d where d: "u1 = u\<lparr>u_dev := d\<rparr>" using is_writable_frame [OF w] by blast
  show ?case using less [of u1] is_writable_ok [OF assms w] w d by (subst uart_wait.simps) (cases w; auto)
qed

text \<open>The blocking writer sends exactly its data.\<close>

lemma uart_write_now:
  assumes "uart_hw_ok c sent wait"
  shows "\<exists>d. uart_write_now c bs u = Some (u\<lparr>u_dev := d\<rparr>) \<and> sent d = sent (u_dev u) @ bs"
proof (induction bs arbitrary: u)
  case Nil
  then show ?case by (intro exI [of _ "u_dev u"]) simp
next
  case (Cons b bs)
  obtain d where d: "uart_wait c u = Some (u\<lparr>u_dev := d\<rparr>)" "sent d = sent (u_dev u)" using uart_wait_returns [OF assms] by blast
  have "sent (uart_outb c UART16550_DATA b d) = sent d @ [b]" using assms by (simp add: uart_hw_ok_def)
  then show ?case using d Cons [of "arch_uart_putc c b (u\<lparr>u_dev := d\<rparr>)"] by (auto simp: arch_uart_putc_def)
qed

lemma flush_queue:
  assumes "uart_hw_ok c sent wait"
  shows "\<exists>out. uart_pending u = out @ uart_pending (uart_flush_queue c m u)
    \<and> sent (u_dev (uart_flush_queue c m u)) = sent (u_dev u) @ map (pending_byte m u) out
    \<and> same_buffers u (uart_flush_queue c m u)
    \<and> (uart_pending (uart_flush_queue c m u) = [] \<or> out \<noteq> [] \<or> wait (u_dev (uart_flush_queue c m u)) < wait (u_dev u))"
proof (induction "length (uart_pending u)" arbitrary: u rule: less_induct)
  case less
  obtain w u1 where w: "arch_uart_is_writable c u = (w, u1)" by fastforce
  obtain d where d: "u1 = u\<lparr>u_dev := d\<rparr>" using is_writable_frame [OF w] by blast
  note f = uart_flush_queue.simps [of c m u, unfolded w prod.case]
  show ?case
  proof (cases "w \<and> uart_pending u \<noteq> []")
    case False
    have p: "uart_pending u1 = uart_pending u" unfolding d by simp
    have "uart_flush_queue c m u = u1"
    proof (cases w)
      case True
      then show ?thesis unfolding f using send_next_byte(1) [of u1 c m] p False by simp
    qed (simp add: f)
    then show ?thesis using is_writable_ok [OF assms w] p False
      by (intro exI [of _ "[]"]) (auto simp: d)
  next
    case True
    then obtain p ps where p: "uart_pending u1 = p # ps" using d by (cases "uart_pending u") auto
    obtain u2 where u2: "uart_send_next_byte c m u1 = (True, u2)" "uart_pending u2 = ps"
      "u_dev u2 = uart_outb c UART16550_DATA (pending_byte m u1 p) (u_dev u1)" "same_buffers u1 u2"
      using send_next_byte(2) [OF p] by blast
    have eq: "uart_flush_queue c m u = uart_flush_queue c m u2" unfolding f using True u2(1) by simp
    have b: "same_buffers u u2" using u2(4) unfolding d same_buffers_def by simp
    have "length (uart_pending u2) < length (uart_pending u)" using u2(2) p d by simp
    from less [OF this] obtain out where out: "uart_pending u2 = out @ uart_pending (uart_flush_queue c m u2)"
      "sent (u_dev (uart_flush_queue c m u2)) = sent (u_dev u2) @ map (pending_byte m u2) out"
      "same_buffers u2 (uart_flush_queue c m u2)" by blast
    have "sent (u_dev u2) = sent (u_dev u) @ [pending_byte m u p]"
      using u2(3) assms is_writable_ok(1) [OF assms w] d by (simp add: uart_hw_ok_def)
    then show ?thesis using out p u2(2) d b unfolding eq
      by (intro exI [of _ "p # out"]) (simp add: same_buffers(3) [OF b] same_buffers(2) [OF b])
  qed
qed

lemma filter_round_trip: "filter P (round_trip r s k) = round_trip (\<lambda>n. filter P (r n)) s k"
  by (induction k arbitrary: s) simp_all

lemma round_trip_one:
  assumes "t < MSEL_TASKS_MAX"
  shows "round_trip (\<lambda>n. if n = t then xs else []) s MSEL_TASKS_MAX = xs"
proof -
  let ?r = "\<lambda>n. if n = t then xs else []"
  define j where "j = (if s mod 5 \<le> t then t - s mod 5 else t + 5 - s mod 5)"
  have "s mod 5 < 5" by simp
  then have m: "(s + i) mod 5 = (if s mod 5 + i < 5 then s mod 5 + i else s mod 5 + i - 5)" if "i < 5" for i
    using mod_5 [of "s mod 5 + i"] that by (simp add: mod_simps)
  have "j < 5" using assms \<open>s mod 5 < 5\<close> by (auto simp: j_def)
  then have j: "(s + j) mod 5 = t" "\<forall>i < j. (s + i) mod 5 \<noteq> t"
    using assms \<open>s mod 5 < 5\<close> m by (auto simp: j_def split: if_splits)
  have "round_trip ?r s 5 = round_trip ?r t 5" using round_trip_skip [of j ?r s] j round_trip_mod [of ?r "s + j" 5] by simp
  also have "\<dots> = xs @ round_trip ?r (t + 1) 4" using assms round_trip.simps(2) [of ?r t 4] by simp
  also have "round_trip ?r (t + 1) 4 = []"
  proof (rule round_trip_Nil)
    fix i :: nat assume "i < 4"
    then have "(t + 1 + i) mod 5 \<noteq> t" using assms mod_5 [of "t + 1 + i"] by auto
    then show "?r ((t + 1 + i) mod 5) = []" by simp
  qed
  finally show ?thesis by simp
qed

lemma filter_entry: "filter (\<lambda>p. fst p = t) (entry_pending Q n) = (if n = t then entry_pending Q t else [])"
  by (auto simp: entry_pending_def filter_empty_conv)

lemma filter_pending: "t < MSEL_TASKS_MAX \<Longrightarrow> filter (\<lambda>p. fst p = t) (uart_pending u) = entry_pending (uart_queue u) t"
  unfolding uart_pending_def filter_round_trip filter_entry by (rule round_trip_one)

lemma main_retry:
  assumes "uart_hw_ok c sent wait" "uq_buf (uart_queue u 0) \<noteq> 0"
  shows "\<exists>out u'. uart_retry c m 0 u = Some (True, u') \<and> uart_pending u = out @ uart_pending u'
    \<and> sent (u_dev u') = sent (u_dev u) @ map (pending_byte m u) out \<and> same_buffers u u'
    \<and> entry_pending (uart_queue u') 0 = []"
proof -
  have wf: "wf ((\<lambda>u. length (uart_pending u)) <*mlex*> measure (\<lambda>u. wait (u_dev u)))" by (intro wf_mlex wf_measure)
  from assms(2) show ?thesis
  proof (induction u rule: wf_induct_rule [OF wf])
    case (1 u)
    let ?u = "uart_flush_queue c m u"
    obtain out where out: "uart_pending u = out @ uart_pending ?u" "sent (u_dev ?u) = sent (u_dev u) @ map (pending_byte m u) out"
      "same_buffers u ?u" "uart_pending ?u = [] \<or> out \<noteq> [] \<or> wait (u_dev ?u) < wait (u_dev u)"
      using flush_queue [OF assms(1), of u m] by blast
    have b: "uq_buf (uart_queue ?u 0) \<noteq> 0" using out(3) "1.prems" by (simp add: same_buffers_def)
    show ?case
    proof (cases "uq_offset (uart_queue ?u 0) < uq_len (uart_queue ?u 0)")
      case False
      then have "uart_retry c m 0 u = Some (True, ?u)" by (subst uart_retry.simps) (simp add: Let_def)
      then show ?thesis using out(1-3) False by (intro exI [of _ out] exI [of _ ?u]) (simp add: entry_pending_Nil)
    next
      case True
      then have "entry_pending (uart_queue ?u) 0 \<noteq> []" using b by (simp add: entry_pending_Nil)
      then have "uart_pending ?u \<noteq> []" using filter_pending [of 0 ?u] by auto
      then have "(?u, u) \<in> (\<lambda>u. length (uart_pending u)) <*mlex*> measure (\<lambda>u. wait (u_dev u))"
        using out(1,4) by (cases out) (simp_all add: mlex_prod_def)
      from "1.IH" [OF this b] obtain out' u' where u': "uart_retry c m 0 ?u = Some (True, u')" "uart_pending ?u = out' @ uart_pending u'"
        "sent (u_dev u') = sent (u_dev ?u) @ map (pending_byte m ?u) out'" "same_buffers ?u u'" "entry_pending (uart_queue u') 0 = []" by blast
      have "uart_retry c m 0 u = Some (True, u')" using u'(1) True by (subst uart_retry.simps) (simp add: Let_def)
      then show ?thesis using u' out same_buffers(2) [OF out(3) u'(4)]
        by (intro exI [of _ "out @ out'"] exI [of _ u']) (simp add: same_buffers(3) [OF out(3)])
    qed
  qed
qed

lemma retry_returns:
  assumes "uart_hw_ok c sent wait" "uq_buf (uart_queue u t) \<noteq> 0"
  shows "\<exists>fin out u'. uart_retry c m t u = Some (fin, u') \<and> uart_pending u = out @ uart_pending u'
    \<and> sent (u_dev u') = sent (u_dev u) @ map (pending_byte m u) out
    \<and> (if fin then entry_pending (uart_queue u') t = [] else t \<noteq> 0)"
proof (cases "t = 0")
  case True
  obtain out u' where "uart_retry c m 0 u = Some (True, u')" "uart_pending u = out @ uart_pending u'"
    "sent (u_dev u') = sent (u_dev u) @ map (pending_byte m u) out" "entry_pending (uart_queue u') 0 = []"
    using main_retry [OF assms(1), of u m] assms(2) True by blast
  then show ?thesis using True by (intro exI [of _ True] exI [of _ out] exI [of _ u']) simp
next
  case False
  then show ?thesis using flush_queue [OF assms(1), of u m]
    by (subst uart_retry.simps) (auto simp: Let_def entry_pending_Nil)
qed

section \<open>Properties\<close>

text \<open>
  C17. A write to the serial port by a running task, on a device that becomes ready again and again,
  always returns. The bytes the device gets are the first bytes of one fixed order of everything
  that waits, each task's bytes in the order of its buffer. Either all bytes of the caller were
  sent, the call succeeds and its entry is free again, or the caller is not the main task and is put
  to sleep with the rest still queued.
\<close>

theorem uart_write_in_order:
  assumes "uart_hw_ok c sent wait" "os_ok st" "msel_num_tasks st \<le> 5" "msel_active_task_num st < 5"
    "msel_task_is_valid (msel_active_task st)" "buf \<noteq> 0" "0 < len" "uq_buf (uart_queue u (msel_active_task_num st)) = 0"
  defines "t \<equiv> msel_active_task_num st"
    and "u0 \<equiv> u\<lparr>uart_queue := (uart_queue u)(msel_active_task_num st := \<lparr>uq_buf = buf, uq_len = len, uq_offset = 0\<rparr>)\<rparr>"
  shows "\<exists>r st' u' out rest. msel_uart_write c buf len st u = Some (r, st', u')
    \<and> uart_pending u0 = out @ rest \<and> sent (u_dev u') = sent (u_dev u) @ map (pending_byte (os_mem st) u0) out
    \<and> (if r = MSEL_OK then filter (\<lambda>p. fst p = t) out = map (Pair t) [0..<len] \<and> uq_buf (uart_queue u' t) = 0 \<and> st' = st
       else r = MSEL_ESUSP \<and> t \<noteq> 0 \<and> uart_pending u' = rest \<and> tcb_wait_op (msel_task_list st' ! t) = MSEL_TASK_WAIT_UART)"
proof -
  have "uq_buf (uart_queue u0 t) \<noteq> 0" using assms(6) by (simp add: u0_def t_def)
  from retry_returns [OF assms(1) this] obtain fin out u1 where r: "uart_retry c (os_mem st) t u0 = Some (fin, u1)"
    "uart_pending u0 = out @ uart_pending u1" "sent (u_dev u1) = sent (u_dev u) @ map (pending_byte (os_mem st) u0) out"
    "if fin then entry_pending (uart_queue u1) t = [] else t \<noteq> 0" by (fastforce simp: u0_def)
  have w: "msel_uart_write c buf len st u = do { (sent, u) \<leftarrow> uart_retry c (os_mem st) t u0;
      if \<not> sent then do {
        (r, st) \<leftarrow> msel_task_schedule (upd_task t (\<lambda>task. task\<lparr>tcb_wait_op := MSEL_TASK_WAIT_UART\<rparr>) st);
        Some (MSEL_ESUSP, st, u) }
      else Some (MSEL_OK, st, u\<lparr>uart_queue := (uart_queue u)(t := zero_entry)\<rparr>) }"
    unfolding msel_uart_write_def Let_def u0_def t_def using assms(6-8) by simp
  show ?thesis
  proof (cases fin)
    case True
    have "filter (\<lambda>p. fst p = t) out = filter (\<lambda>p. fst p = t) (uart_pending u0)"
      using r(2,4) True filter_pending [of t u1] assms(4) by (simp add: t_def)
    also have "\<dots> = map (Pair t) [0..<len]"
      using filter_pending [of t u0] assms(4,6) by (simp add: t_def entry_pending_def u0_def)
    finally show ?thesis using r True by (auto simp: w zero_entry_def)
  next
    case False
    let ?st = "upd_task t (\<lambda>task. task\<lparr>tcb_wait_op := MSEL_TASK_WAIT_UART\<rparr>) st"
    have l: "length (msel_task_list st) = 5" "0 < msel_num_tasks st" "msel_task_is_valid (msel_task_list st ! 0)"
      using assms(2) by (simp_all add: os_ok_def)
    have "t \<noteq> 0" using r(4) False by simp
    have "\<not> tcb_killed (msel_task_list st ! t)"
      using assms(5) by (simp add: msel_active_task_def t_def msel_task_is_valid_def msel_task_is_killed_def)
    then obtain st' where "msel_task_schedule ?st = Some (MSEL_OK, st')" "tcb_wait_op (msel_task_list st' ! t) = MSEL_TASK_WAIT_UART"
      using schedule_returns [of ?st 0] l assms(3,4) \<open>t \<noteq> 0\<close> by (auto simp: t_def)
    then show ?thesis using r False \<open>t \<noteq> 0\<close> by (auto simp: w)
  qed
qed

text \<open>A device that is ready at every second read.\<close>

record slow_port =
  sp_sent :: bytes
  sp_ready :: bool

definition sim_uart :: "slow_port uart_hw" where
  "sim_uart = \<lparr>uart_inb = \<lambda>p d. (if sp_ready d then 0x20 else 0, d\<lparr>sp_ready := \<not> sp_ready d\<rparr>),
     uart_outb = \<lambda>p b d. d\<lparr>sp_sent := sp_sent d @ [b]\<rparr>\<rparr>"

lemma sim_uart_ok: "uart_hw_ok sim_uart sp_sent (\<lambda>d. if sp_ready d then 0 else 1)"
  by (auto simp: uart_hw_ok_def sim_uart_def)

definition sim_uart_state :: "slow_port uart" where
  "sim_uart_state = \<lparr>uart_queue = \<lambda>n. zero_entry, uart_enabled = True, uart_task = 0, u_dev = \<lparr>sp_sent = [], sp_ready = False\<rparr>\<rparr>"

theorem uart_write_in_order_witness:
  "\<exists>r st' u' out. msel_uart_write sim_uart 100 3 demo_os sim_uart_state = Some (r, st', u') \<and> sp_sent (u_dev u') = map (\<lambda>p. 0) (out :: (nat \<times> nat) list)"
proof -
  have a: "os_ok demo_os" "msel_num_tasks demo_os \<le> 5" "msel_active_task_num demo_os < 5" "msel_task_is_valid (msel_active_task demo_os)"
    "uq_buf (uart_queue sim_uart_state (msel_active_task_num demo_os)) = 0"
    using demo_os_ok by (simp_all add: demo_os_def zero_tcb_def msel_active_task_def msel_task_is_valid_def msel_task_is_killed_def
      msel_task_is_waiting_def sim_uart_state_def zero_entry_def)
  have m: "pending_byte (os_mem demo_os) u = (\<lambda>p. 0)" for u :: "slow_port uart" by (rule ext) (simp add: pending_byte_def demo_os_def)
  have s: "sp_sent (u_dev sim_uart_state) = []" by (simp add: sim_uart_state_def)
  show ?thesis using uart_write_in_order [OF sim_uart_ok a(1-4) _ _ a(5), of 100 3] unfolding m s by fastforce
qed

end
