(* ===== verification/Pol.thy ===== *)
theory Pol
  imports Task
begin

unbundle bit_operations_syntax

text \<open>
  The proof of life call of \<^verbatim>\<open>driver/pol.c\<close>: a task asks for a human at the device and is put to sleep
  until the button changes or the time is up. The main task calls the operation again and again for
  the sleeping task. \<open>pol\<close> holds the two static variables. The null pointer is address 0.
\<close>

datatype pol_t = POL_TIMEOUT | POL_USER_PRESENT

definition pol_value :: "pol_t \<Rightarrow> u32" where
  "pol_value p = (case p of POL_TIMEOUT \<Rightarrow> 0 | POL_USER_PRESENT \<Rightarrow> 1)"

abbreviation (input) POL_WAIT_PERIOD :: u64 where "POL_WAIT_PERIOD \<equiv> 100 * 10"
abbreviation (input) POL_LED :: u32 where "POL_LED \<equiv> 1"
abbreviation (input) POL_SWITCH :: u32 where "POL_SWITCH \<equiv> 32"

record pol =
  starting_systicks :: u64
  button_val :: u32

text \<open>The macro \<^verbatim>\<open>POL_BLINK_PERIOD\<close> is the text \<^verbatim>\<open>100 / 2\<close> without parentheses: the test is
  \<^verbatim>\<open>elapsed % 100 / 2 > 100 / 2 / 2\<close>.\<close>

definition msel_proof_of_life :: "addr \<Rightarrow> os \<Rightarrow> pol \<Rightarrow> (msel_status \<times> os \<times> pol) option" where
  "msel_proof_of_life ret st ps =
     (if ret = 0 then Some (MSEL_EINVAL, st, ps)
      else if msel_active_task_num st = MSEL_TASK_MAIN then Some (MSEL_EINVAL, st, ps)
      else if list_ex (\<lambda>i. tcb_wait_op (msel_task_list st ! i) = MSEL_TASK_WAIT_POL \<and> i \<noteq> msel_active_task_num st) [0..<MSEL_TASKS_MAX]
      then Some (MSEL_EBUSY, st, ps)
      else
        let ps = (if starting_systicks ps = 0
                  then \<lparr>starting_systicks = msel_systicks st, button_val = msel_gpio_read POL_SWITCH (os_gpio st)\<rparr> else ps);
            elapsed = msel_systicks st - starting_systicks ps;
            timedout = (elapsed > POL_WAIT_PERIOD);
            st = (if elapsed mod 100 div 2 > 100 div 2 div 2 then st\<lparr>os_gpio := msel_led_off POL_LED (os_gpio st)\<rparr>
                  else st\<lparr>os_gpio := msel_led_on POL_LED (os_gpio st)\<rparr>)
        in if msel_gpio_read POL_SWITCH (os_gpio st) = button_val ps \<and> \<not> timedout then do {
             (r, st) \<leftarrow> msel_task_schedule (upd_task (msel_active_task_num st)
               (\<lambda>t. t\<lparr>tcb_wait_op := MSEL_TASK_WAIT_POL, tcb_pol_retptr := ret\<rparr>) st);
             Some (MSEL_ESUSP, st, ps) }
           else
             let ps = \<lparr>starting_systicks = 0, button_val = 0\<rparr>;
                 st = st\<lparr>os_gpio := msel_led_off POL_LED (os_gpio st)\<rparr>;
                 v = (if timedout then POL_TIMEOUT else POL_USER_PRESENT)
             in Some (MSEL_OK, st\<lparr>os_mem := copy_bytes ret (be_bytes 4 (pol_value v)) (os_mem st)\<rparr>, ps))"

definition msel_init_pol :: "os \<Rightarrow> os" where
  "msel_init_pol st = st\<lparr>os_gpio := msel_gpio_config POL_SWITCH MSEL_GPIO_INPUT (os_gpio st)\<rparr>"

section \<open>The whole operation\<close>

text \<open>The calls for task \<open>t\<close>, the first by the task itself and the others by the main task, each at a
  time and with a state of the pins, until one is not suspended.\<close>

fun pol_run :: "nat \<Rightarrow> addr \<Rightarrow> (u64 \<times> u8) list \<Rightarrow> os \<Rightarrow> pol \<Rightarrow> (msel_status \<times> os \<times> pol) option" where
  "pol_run t ret [] st ps = Some (MSEL_ESUSP, st, ps)"
| "pol_run t ret ((now, pins) # vs) st ps = do {
     let st = (upd_task t msel_task_resume st)\<lparr>msel_active_task_num := t, msel_systicks := now, os_gpio := (os_gpio st)\<lparr>gpio_pins := pins\<rparr>\<rparr>;
     (r, st, ps) \<leftarrow> msel_proof_of_life ret st ps;
     if r = MSEL_ESUSP then pol_run t ret vs st ps else Some (r, st, ps) }"

text \<open>What the operation that starts at time \<open>s\<close> with the pins \<open>b\<close> has to answer.\<close>

definition pol_decides :: "u64 \<Rightarrow> u8 \<Rightarrow> u64 \<times> u8 \<Rightarrow> bool" where
  "pol_decides s b v \<longleftrightarrow> fst v - s > 1000 \<or> (bit (snd v) 5 \<noteq> bit b 5)"

definition pol_answer :: "u64 \<Rightarrow> u8 \<Rightarrow> (u64 \<times> u8) list \<Rightarrow> pol_t option" where
  "pol_answer s b vs = map_option (\<lambda>v. if fst v - s > 1000 then POL_TIMEOUT else POL_USER_PRESENT) (find (pol_decides s b) vs)"

definition pol_ready :: "nat \<Rightarrow> os \<Rightarrow> bool" where
  "pol_ready t st \<longleftrightarrow> os_ok st \<and> msel_num_tasks st \<le> 5 \<and> 0 < t \<and> t < 5 \<and> tcb_valid (msel_task_list st ! t) \<and> \<not> tcb_killed (msel_task_list st ! t)
     \<and> (\<forall>i < 5. i \<noteq> t \<longrightarrow> tcb_wait_op (msel_task_list st ! i) \<noteq> MSEL_TASK_WAIT_POL)"

lemma pol_switch: "msel_gpio_read POL_SWITCH g = (if bit (gpio_pins g) 5 then 32 else 0)"
proof -
  have "gpio_pins g AND 32 = (if bit (gpio_pins g) 5 then 32 else 0)"
    by (rule bit_word_eqI) (auto simp: bit_and_iff bit_exp_iff [of 5, simplified])
  then show ?thesis by (simp add: msel_gpio_read_def arch_gpio_read_def)
qed

lemma gpio_pins_led [simp]: "gpio_pins (msel_led_set led v g) = gpio_pins g" "gpio_pins (msel_led_on led g) = gpio_pins g"
  "gpio_pins (msel_led_off led g) = gpio_pins g"
  by (simp_all add: msel_led_on_def msel_led_off_def msel_led_set_def arch_led_set_def arch_gpio_write_def Let_def)

lemma pol_ready_schedule:
  assumes "pol_ready t st" "msel_active_task_num st = t"
  shows "\<exists>st'. msel_task_schedule (upd_task t (\<lambda>t. t\<lparr>tcb_wait_op := MSEL_TASK_WAIT_POL, tcb_pol_retptr := ret\<rparr>) st) = Some (MSEL_OK, st')
    \<and> pol_ready t st' \<and> tcb_wait_op (msel_task_list st' ! t) = MSEL_TASK_WAIT_POL"
proof -
  let ?st = "upd_task t (\<lambda>t. t\<lparr>tcb_wait_op := MSEL_TASK_WAIT_POL, tcb_pol_retptr := ret\<rparr>) st"
  have ok: "os_ok ?st" using assms(1) by (simp add: pol_ready_def upd_ok)
  then have l: "length (msel_task_list ?st) = 5" "0 < msel_num_tasks ?st" "msel_task_is_valid (msel_task_list ?st ! 0)"
    by (simp_all add: os_ok_def)
  obtain d c g where s: "msel_task_schedule ?st = Some (MSEL_OK, ?st\<lparr>msel_task_list := reaped (msel_num_tasks ?st) (msel_task_list ?st), os_console := c,
      msel_active_task_num := d, os_gpio := g\<rparr>)" (is "_ = Some (_, ?st')")
    using schedule_returns [of ?st 0] l assms(1) by (auto simp: pol_ready_def)
  have "os_ok ?st'" by (rule schedule_ok [OF ok s])
  then have "pol_ready t ?st'" using assms(1) l(1) by (auto simp: pol_ready_def nth_list_update zero_tcb_def)
  then show ?thesis using s l assms(1) by (auto simp: pol_ready_def)
qed

lemma pol_alone:
  assumes "pol_ready t st" "msel_active_task_num st = t"
  shows "\<not> list_ex (\<lambda>i. tcb_wait_op (msel_task_list st ! i) = MSEL_TASK_WAIT_POL \<and> i \<noteq> msel_active_task_num st) [0..<MSEL_TASKS_MAX]"
  using assms unfolding list_ex_iff pol_ready_def set_upt by auto

lemma pol_visit:
  assumes "pol_ready t st" "msel_active_task_num st = t" "ret \<noteq> 0" "starting_systicks ps = s" "s \<noteq> 0" "button_val ps = (if bit b 5 then 32 else 0)"
  shows "if pol_decides s b (msel_systicks st, gpio_pins (os_gpio st))
    then \<exists>g. msel_proof_of_life ret st ps = Some (MSEL_OK, st\<lparr>os_gpio := g,
        os_mem := copy_bytes ret (be_bytes 4 (pol_value (if msel_systicks st - s > 1000 then POL_TIMEOUT else POL_USER_PRESENT))) (os_mem st)\<rparr>,
        \<lparr>starting_systicks = 0, button_val = 0\<rparr>)
    else \<exists>st'. msel_proof_of_life ret st ps = Some (MSEL_ESUSP, st', ps) \<and> pol_ready t st' \<and> tcb_wait_op (msel_task_list st' ! t) = MSEL_TASK_WAIT_POL"
proof -
  note e = pol_alone [OF assms(1,2)]
  define g where "g = (if (msel_systicks st - s) mod 100 div 2 > 100 div 2 div 2 then msel_led_off POL_LED (os_gpio st) else msel_led_on POL_LED (os_gpio st))"
  let ?st = "st\<lparr>os_gpio := g\<rparr>"
  have g: "gpio_pins g = gpio_pins (os_gpio st)" by (simp add: g_def)
  have r: "pol_ready t ?st" "msel_active_task_num ?st = t" using assms(1,2) by (simp_all add: pol_ready_def os_ok_def)
  have "msel_proof_of_life ret st ps = (if \<not> pol_decides s b (msel_systicks st, gpio_pins (os_gpio st)) then do {
       (r, st) \<leftarrow> msel_task_schedule (upd_task t (\<lambda>t. t\<lparr>tcb_wait_op := MSEL_TASK_WAIT_POL, tcb_pol_retptr := ret\<rparr>) ?st);
       Some (MSEL_ESUSP, st, ps) }
     else Some (MSEL_OK, ?st\<lparr>os_gpio := msel_led_off POL_LED g,
       os_mem := copy_bytes ret (be_bytes 4 (pol_value (if msel_systicks st - s > 1000 then POL_TIMEOUT else POL_USER_PRESENT))) (os_mem st)\<rparr>,
       \<lparr>starting_systicks = 0, button_val = 0\<rparr>))"
  proof -
    have n: "msel_active_task_num st \<noteq> 0" using assms(1,2) by (auto simp: pol_ready_def)
    have i: "(if x then st\<lparr>os_gpio := a\<rparr> else st\<lparr>os_gpio := a'\<rparr>) = st\<lparr>os_gpio := if x then a else a'\<rparr>" for x a a' by simp
    have d: "pol_decides s b (msel_systicks st, gpio_pins (os_gpio st))
        \<longleftrightarrow> \<not> (msel_gpio_read POL_SWITCH g = button_val ps \<and> \<not> 1000 < msel_systicks st - s)"
      unfolding pol_switch assms(6) g pol_decides_def by (auto split: if_splits)
    show ?thesis
      unfolding msel_proof_of_life_def if_not_P [OF assms(3)] if_not_P [OF n] if_not_P [OF e] assms(4) if_not_P [OF assms(5)] Let_def i
        g_def [symmetric] d by (simp add: assms(2))
  qed
  then show ?thesis using pol_ready_schedule [OF r, of ret] assms(2) by auto
qed

lemma pol_run_started:
  assumes "pol_ready t st" "ret \<noteq> 0" "starting_systicks ps = s" "s \<noteq> 0" "button_val ps = (if bit b 5 then 32 else 0)"
    "tcb_wait_op (msel_task_list st ! t) = MSEL_TASK_WAIT_POL"
  shows "\<exists>r st' ps'. pol_run t ret vs st ps = Some (r, st', ps') \<and> (case pol_answer s b vs of
      None \<Rightarrow> r = MSEL_ESUSP \<and> tcb_wait_op (msel_task_list st' ! t) = MSEL_TASK_WAIT_POL
    | Some v \<Rightarrow> r = MSEL_OK \<and> msel_active_task_num st' = t \<and> starting_systicks ps' = 0
        \<and> (\<exists>m. os_mem st' = copy_bytes ret (be_bytes 4 (pol_value v)) m))"
  using assms(1,3,5,6)
proof (induction vs arbitrary: st ps)
  case Nil
  then show ?case by (simp add: pol_answer_def)
next
  case (Cons v vs)
  obtain now pins where v: "v = (now, pins)" by fastforce
  let ?st = "(upd_task t msel_task_resume st)\<lparr>msel_active_task_num := t, msel_systicks := now, os_gpio := (os_gpio st)\<lparr>gpio_pins := pins\<rparr>\<rparr>"
  have len: "length (msel_task_list st) = 5" using Cons.prems(1) by (simp add: pol_ready_def os_ok_def)
  have r: "pol_ready t ?st" using Cons.prems(1) len
    by (auto simp: pol_ready_def os_ok_def nth_list_update msel_task_resume_def)
  note vis = pol_visit [OF r _ assms(2) Cons.prems(2) assms(4) Cons.prems(3)]
  show ?case
  proof (cases "pol_decides s b v")
    case True
    then show ?thesis using vis by (auto simp: v pol_answer_def)
  next
    case False
    then obtain st' where st': "msel_proof_of_life ret ?st ps = Some (MSEL_ESUSP, st', ps)" "pol_ready t st'"
      "tcb_wait_op (msel_task_list st' ! t) = MSEL_TASK_WAIT_POL" using vis by (auto simp: v)
    have "pol_run t ret (v # vs) st ps = pol_run t ret vs st' ps" using st'(1) by (simp add: v Let_def)
    moreover have "pol_answer s b (v # vs) = pol_answer s b vs" using False by (simp add: pol_answer_def)
    ultimately show ?thesis using Cons.IH [OF st'(2) Cons.prems(2,3) st'(3)] by simp
  qed
qed

section \<open>Properties\<close>

text \<open>
  C30. The proof of life call is right about the human. A task other than the main one starts it at
  time \<open>s\<close>, not zero, while no other task waits for it, and it is called again at any later times:
  it stays suspended until the first call that finds the button changed or more than 1000 ticks
  gone, and that call stores the answer, a timeout in the second case and a present user otherwise,
  returns to the task that asked, and leaves the static variables ready for the next operation.
\<close>

theorem pol_answers:
  assumes "pol_ready t st" "ret \<noteq> 0" "s \<noteq> 0" "starting_systicks ps = 0"
  shows "\<exists>r st' ps'. pol_run t ret ((s, b) # vs) st ps = Some (r, st', ps') \<and> (case pol_answer s b vs of
      None \<Rightarrow> r = MSEL_ESUSP \<and> tcb_wait_op (msel_task_list st' ! t) = MSEL_TASK_WAIT_POL
    | Some v \<Rightarrow> r = MSEL_OK \<and> msel_active_task_num st' = t \<and> starting_systicks ps' = 0
        \<and> (\<exists>m. os_mem st' = copy_bytes ret (be_bytes 4 (pol_value v)) m))"
proof -
  let ?st = "(upd_task t msel_task_resume st)\<lparr>msel_active_task_num := t, msel_systicks := s, os_gpio := (os_gpio st)\<lparr>gpio_pins := b\<rparr>\<rparr>"
  let ?ps = "\<lparr>starting_systicks = s, button_val = if bit b 5 then 32 else 0\<rparr>"
  have len: "length (msel_task_list st) = 5" using assms(1) by (simp add: pol_ready_def os_ok_def)
  have r: "pol_ready t ?st" using assms(1) len by (auto simp: pol_ready_def os_ok_def nth_list_update msel_task_resume_def)
  have n: "msel_active_task_num ?st \<noteq> 0" using assms(1) by (simp add: pol_ready_def)
  have n': "msel_active_task_num ?st = t" by simp
  have "msel_proof_of_life ret ?st ps = msel_proof_of_life ret ?st ?ps"
    unfolding msel_proof_of_life_def if_not_P [OF assms(2)] if_not_P [OF n] if_not_P [OF pol_alone [OF r n']] pol_switch
    using assms(3,4) by simp
  moreover have "\<not> pol_decides s b (s, b)" by (simp add: pol_decides_def)
  ultimately obtain st' where st': "msel_proof_of_life ret ?st ps = Some (MSEL_ESUSP, st', ?ps)" "pol_ready t st'"
    "tcb_wait_op (msel_task_list st' ! t) = MSEL_TASK_WAIT_POL"
    using pol_visit [OF r _ assms(2) _ assms(3), of ?ps b] by auto
  have "pol_run t ret ((s, b) # vs) st ps = pol_run t ret vs st' ?ps" using st'(1) by (simp add: Let_def)
  then show ?thesis using pol_run_started [OF st'(2) assms(2) _ assms(3) _ st'(3), of ?ps b vs] by simp
qed

theorem pol_answers_witness:
  "\<exists>st' ps'. pol_run 1 0x204000 [(7, 32), (8, 32), (300, 0), (2000, 32)] demo_os \<lparr>starting_systicks = 0, button_val = 0\<rparr> = Some (MSEL_OK, st', ps')
     \<and> msel_active_task_num st' = 1"
proof -
  have "pol_ready 1 demo_os" using demo_os_ok
    by (auto simp: pol_ready_def demo_os_def zero_tcb_def less_Suc_eq numeral_eq_Suc)
  moreover have "pol_answer 7 32 [(8, 32), (300, 0), (2000, 32)] = Some POL_USER_PRESENT"
    by (simp add: pol_answer_def pol_decides_def)
  ultimately show ?thesis
    using pol_answers [where t = 1 and st = demo_os and ret = "0x204000" and s = 7 and b = 32 and vs = "[(8, 32), (300, 0), (2000, 32)]" and ps = "\<lparr>starting_systicks = 0, button_val = 0\<rparr> :: pol"] by auto
qed

end
