(* ===== verification/Mmu.thy ===== *)
theory Mmu
  imports Task
begin

unbundle bit_operations_syntax

text \<open>
  Memory protection: the special purpose registers of \<^verbatim>\<open>arch/openrisc/spr.h\<close>, the two handlers of
  \<^verbatim>\<open>arch/openrisc/isr.c\<close> that fill the translation buffers, the check of the stack pointer on every
  entry to the kernel, and the timer and interrupt set-up of \<^verbatim>\<open>arch/openrisc/arch.c\<close>. The register file is
  a function from register numbers to words.
\<close>

section \<open>Special purpose registers\<close>

type_synonym sprs = "u32 \<Rightarrow> u32"

definition SPR_REG :: "u32 \<Rightarrow> u32 \<Rightarrow> u32" where
  "SPR_REG g r = push_bit 11 g OR r"

definition SPR_UPR :: u32 where "SPR_UPR = SPR_REG 0 1"
definition SPR_EVBAR :: u32 where "SPR_EVBAR = SPR_REG 0 11"
definition SPR_SR :: u32 where "SPR_SR = SPR_REG 0 17"
definition SPR_EPCR :: "u32 \<Rightarrow> u32" where "SPR_EPCR n = SPR_REG 0 32 + (n AND 15)"
definition SPR_EEAR :: "u32 \<Rightarrow> u32" where "SPR_EEAR n = SPR_REG 0 48 + (n AND 15)"
definition SPR_DTLBW0MR :: "u32 \<Rightarrow> u32" where "SPR_DTLBW0MR n = SPR_REG 1 512 + (n AND 127)"
definition SPR_DTLBW0TR :: "u32 \<Rightarrow> u32" where "SPR_DTLBW0TR n = SPR_REG 1 640 + (n AND 127)"
definition SPR_ITLBW0MR :: "u32 \<Rightarrow> u32" where "SPR_ITLBW0MR n = SPR_REG 2 512 + (n AND 127)"
definition SPR_ITLBW0TR :: "u32 \<Rightarrow> u32" where "SPR_ITLBW0TR n = SPR_REG 2 640 + (n AND 127)"
definition SPR_PICMR :: u32 where "SPR_PICMR = SPR_REG 9 0"
definition SPR_TTMR :: u32 where "SPR_TTMR = SPR_REG 10 0"
definition SPR_TTCR :: u32 where "SPR_TTCR = SPR_REG 10 1"

definition spr_write :: "u32 \<Rightarrow> u32 \<Rightarrow> sprs \<Rightarrow> sprs" where
  "spr_write r v s = s(r := v)"

definition spr_read :: "u32 \<Rightarrow> sprs \<Rightarrow> u32" where
  "spr_read r s = s r"

definition SPR_SR_IEE_SET :: "u32 \<Rightarrow> sprs \<Rightarrow> sprs" where
  "SPR_SR_IEE_SET val s = spr_write SPR_SR ((spr_read SPR_SR s AND 0xFFFFFFFB) OR push_bit 2 (val AND 0x1)) s"

definition SPR_TTMR_M_SET :: "u32 \<Rightarrow> sprs \<Rightarrow> sprs" where
  "SPR_TTMR_M_SET val s = spr_write SPR_TTMR ((spr_read SPR_TTMR s AND 0x3FFFFFFF) OR push_bit 30 (val AND 0x3)) s"

definition SPR_TTMR_IE_SET :: "u32 \<Rightarrow> sprs \<Rightarrow> sprs" where
  "SPR_TTMR_IE_SET val s = spr_write SPR_TTMR ((spr_read SPR_TTMR s AND 0xDFFFFFFF) OR push_bit 29 (val AND 0x1)) s"

definition SPR_TTMR_IP_SET :: "u32 \<Rightarrow> sprs \<Rightarrow> sprs" where
  "SPR_TTMR_IP_SET val s = spr_write SPR_TTMR ((spr_read SPR_TTMR s AND 0xEFFFFFFF) OR push_bit 28 (val AND 0x1)) s"

definition SPR_TTMR_TP_SET :: "u32 \<Rightarrow> sprs \<Rightarrow> sprs" where
  "SPR_TTMR_TP_SET val s = spr_write SPR_TTMR ((spr_read SPR_TTMR s AND 0xF0000000) OR (val AND 0x0FFFFFFF)) s"

section \<open>Timer and interrupt set-up\<close>

abbreviation (input) ROM_START :: u32 where "ROM_START \<equiv> 0x00100000"
abbreviation (input) ROM_SIZE :: u32 where "ROM_SIZE \<equiv> 0x10000"
abbreviation (input) RAM_START :: u32 where "RAM_START \<equiv> 0x00200000"
abbreviation (input) RAM_SIZE :: u32 where "RAM_SIZE \<equiv> 0x20000"

text \<open>Without a tick timer the kernel panics.\<close>

definition arch_init_tick_timer :: "sprs \<Rightarrow> sprs option" where
  "arch_init_tick_timer s =
     (if spr_read SPR_UPR s AND push_bit 10 1 = 0 then None
      else
        let s = spr_write SPR_TTCR 0 s;
            s = SPR_TTMR_TP_SET 500000 s;
            s = SPR_TTMR_M_SET 1 s;
            s = SPR_TTMR_IP_SET 0 s
        in Some (SPR_TTMR_IE_SET 1 s))"

definition arch_systick_handler :: "sprs \<Rightarrow> sprs" where
  "arch_systick_handler s = SPR_TTMR_IP_SET 0 s"

definition arch_init_isr :: "sprs \<Rightarrow> sprs option" where
  "arch_init_isr s = do {
     s \<leftarrow> arch_init_tick_timer (spr_write SPR_EVBAR ROM_START s);
     let intrs = 0;
     let intrs = intrs OR push_bit 16 1;
     let intrs = intrs OR push_bit 17 1;
     Some (spr_write SPR_PICMR intrs s) }"

section \<open>Translation buffers\<close>

abbreviation (input) PAGE_SIZE :: u32 where "PAGE_SIZE \<equiv> 8192"
abbreviation (input) PAGE_BITS :: nat where "PAGE_BITS \<equiv> 13"

definition VPN_MASK :: u32 where "VPN_MASK = NOT (PAGE_SIZE - 1)"
definition TLB_ENTRY_MASK :: u32 where "TLB_ENTRY_MASK = push_bit PAGE_BITS (64 - 1)"

definition TLB_ENTRY :: "u32 \<Rightarrow> u32" where
  "TLB_ENTRY vaddr = drop_bit PAGE_BITS (vaddr AND TLB_ENTRY_MASK)"

definition TLBMR_V :: u32 where "TLBMR_V = 1"
definition TLBTR_URE :: u32 where "TLBTR_URE = push_bit 6 1"
definition TLBTR_UWE :: u32 where "TLBTR_UWE = push_bit 7 1"
definition TLBTR_SRE :: u32 where "TLBTR_SRE = push_bit 8 1"
definition TLBTR_SWE :: u32 where "TLBTR_SWE = push_bit 9 1"
definition TLBTR_SXE :: u32 where "TLBTR_SXE = push_bit 6 1"
definition TLBTR_UXE :: u32 where "TLBTR_UXE = push_bit 7 1"

text \<open>The symbols of the linker script the handlers use.\<close>

record image =
  img_layout :: layout
  data_beg :: nat
  bss_end :: nat

text \<open>The register file and the static variables of the two handlers.\<close>

record mmu =
  spr :: sprs
  d_last_eear :: u32
  d_last_epcr :: u32
  i_last_eear :: u32
  i_last_epcr :: u32

definition mmio_addr :: "u32 \<Rightarrow> bool" where
  "mmio_addr eear \<longleftrightarrow>
     (eear \<ge> 0x90000000 \<and> eear < 0x90000000 + 0x8000) \<or> (eear \<ge> 0x92000000 \<and> eear < 0x92000000 + 0x8000)
   \<or> (eear \<ge> 0x93000000 \<and> eear < 0x93000000 + 0x8000) \<or> (eear \<ge> 0x94000000 \<and> eear < 0x94000000 + 0x8000)
   \<or> (eear \<ge> 0x95000000 \<and> eear < 0x95000000 + 0x8000) \<or> (eear \<ge> 0x98000000 \<and> eear < 0x98000000 + 0x8000)"

definition dtlb_perms :: "image \<Rightarrow> nat \<Rightarrow> u32 \<Rightarrow> u32" where
  "dtlb_perms img t eear =
     (if eear \<ge> ROM_START \<and> eear < ROM_START + ROM_SIZE then TLBTR_SRE OR TLBTR_URE
      else if eear \<ge> RAM_START \<and> eear < RAM_START + RAM_SIZE then
        let perms = TLBTR_SRE OR TLBTR_SWE
        in if t = MSEL_TASK_MAIN then perms OR (TLBTR_UWE OR TLBTR_URE)
           else
             let perms = (if unat eear \<ge> taskmem_stack_bottom (img_layout img) t \<and> unat eear < taskmem_heap_end (img_layout img) t
                          then perms OR (TLBTR_URE OR TLBTR_UWE) else perms)
             in if unat eear \<ge> data_beg img \<and> unat eear < bss_end img then perms OR TLBTR_URE else perms
      else if mmio_addr eear then TLBTR_SWE OR TLBTR_SRE
      else 0)"

text \<open>A second miss at the same place is a panic.\<close>

definition DTLBMiss :: "image \<Rightarrow> os \<Rightarrow> mmu \<Rightarrow> mmu option" where
  "DTLBMiss img st mm =
     (let eear = spr_read (SPR_EEAR 0) (spr mm);
          epcr = spr_read (SPR_EPCR 0) (spr mm)
      in if eear = d_last_eear mm \<and> epcr = d_last_epcr mm then None
         else
           let tlbtr = eear AND VPN_MASK;
               perms = dtlb_perms img (msel_active_task_num st) eear;
               tlbmr = (eear AND VPN_MASK) OR (TLBMR_V OR push_bit 2 (ucast (tcb_ctx_id (msel_active_task st))));
               s = spr_write (SPR_DTLBW0MR (TLB_ENTRY eear)) tlbmr (spr mm);
               s = spr_write (SPR_DTLBW0TR (TLB_ENTRY eear)) (tlbtr OR perms) s
           in Some (mm\<lparr>spr := s, d_last_eear := eear, d_last_epcr := epcr\<rparr>))"

definition ITLBMiss :: "os \<Rightarrow> mmu \<Rightarrow> mmu option" where
  "ITLBMiss st mm =
     (let eear = spr_read (SPR_EEAR 0) (spr mm);
          epcr = spr_read (SPR_EPCR 0) (spr mm)
      in if eear = i_last_eear mm \<and> epcr = i_last_epcr mm then None
         else
           let tlbtr = eear AND VPN_MASK;
               perms = TLBTR_SXE OR TLBTR_UXE;
               tlbmr = (eear AND VPN_MASK) OR (TLBMR_V OR push_bit 2 (ucast (tcb_ctx_id (msel_active_task st))));
               s = spr_write (SPR_ITLBW0MR (TLB_ENTRY eear)) tlbmr (spr mm);
               s = spr_write (SPR_ITLBW0TR (TLB_ENTRY eear)) (tlbtr OR perms) s
           in Some (mm\<lparr>spr := s, i_last_eear := eear, i_last_epcr := epcr\<rparr>))"

section \<open>Entry to the kernel and faults\<close>

text \<open>\<open>task_sp\<close> is the stack pointer of the interrupted task and \<open>regs\<close> its registers, saved at the end of
  memory by the vector. The answer says whether the handler is to be called.\<close>

definition or1k_save_context :: "layout \<Rightarrow> nat \<Rightarrow> or1k_saved_regs \<Rightarrow> os \<Rightarrow> (bool \<times> os) option" where
  "or1k_save_context lay task_sp regs st =
     (let save_sz = 0x108;
          task = msel_active_task_num st
      in if task_sp \<le> taskmem_stack_bottom lay task + save_sz \<or> task_sp > taskmem_stack_top lay task then
           if task \<noteq> MSEL_TASK_MAIN then do {
             st \<leftarrow> msel_task_force_kill task ''Stack error'' st;
             Some (False, st) }
           else None
         else
           let st = upd_task task (\<lambda>t. t\<lparr>tcb_stack := task_sp - save_sz\<rparr>) st
           in Some (True, st\<lparr>os_regs := (os_regs st)(task_sp - save_sz := regs)\<rparr>))"

definition fault_handler :: "string \<Rightarrow> os \<Rightarrow> os option" where
  "fault_handler what st =
     (if msel_active_task_num st \<noteq> 0 then msel_task_force_kill (msel_active_task_num st) what st else None)"

definition BusError :: "os \<Rightarrow> os option" where "BusError st = fault_handler ''Bus error'' st"
definition AlignmentError :: "os \<Rightarrow> os option" where "AlignmentError st = fault_handler ''Alignment error'' st"
definition IllegalInstruction :: "os \<Rightarrow> os option" where "IllegalInstruction st = fault_handler ''Illegal Instruction'' st"
definition DataPageFault :: "os \<Rightarrow> os option" where "DataPageFault st = fault_handler ''Data page fault'' st"
definition InstructionPageFault :: "os \<Rightarrow> os option" where "InstructionPageFault st = fault_handler ''Instruction page fault'' st"
definition RangeException :: "os \<Rightarrow> os option" where "RangeException st = fault_handler ''Range exception'' st"
definition FloatingPointException :: "os \<Rightarrow> os option" where "FloatingPointException st = fault_handler ''Floating Point exception'' st"
definition TrapException :: "os \<Rightarrow> os option" where "TrapException st = fault_handler ''Trap exception'' st"

section \<open>What an entry grants\<close>

text \<open>The unit lets an access through when the entry for the page is valid, is for this page and has the
  flag of the access.\<close>

definition dtlb_grants :: "u32 \<Rightarrow> sprs \<Rightarrow> u32 \<Rightarrow> bool" where
  "dtlb_grants flag s va \<longleftrightarrow> s (SPR_DTLBW0MR (TLB_ENTRY va)) AND TLBMR_V \<noteq> 0
     \<and> s (SPR_DTLBW0MR (TLB_ENTRY va)) AND VPN_MASK = va AND VPN_MASK \<and> s (SPR_DTLBW0TR (TLB_ENTRY va)) AND flag \<noteq> 0"

lemma bit_VPN_MASK: "bit VPN_MASK i \<longleftrightarrow> 13 \<le> i \<and> i < 32"
proof -
  have m: "(8192 - 1 :: u32) = mask 13" by (simp add: mask_eq_exp_minus_1)
  show ?thesis unfolding VPN_MASK_def m by (auto simp: bit_not_iff bit_mask_iff)
qed

lemma tlb_entry: "unat (TLB_ENTRY va) = unat va div 8192 mod 64"
proof -
  have m: "(64 - 1 :: u32) = mask 6" by (simp add: mask_eq_exp_minus_1)
  have "TLB_ENTRY va = drop_bit 13 va AND mask 6"
    unfolding TLB_ENTRY_def TLB_ENTRY_MASK_def m
    by (rule bit_word_eqI) (auto simp: bit_and_iff bit_drop_bit_eq bit_mask_iff bit_push_bit_iff dest: bit_imp_le_length)
  then show ?thesis by (simp only: unat_mask unat_drop_bit) simp
qed

lemma tlb_entry_and: "TLB_ENTRY va AND 127 = TLB_ENTRY va"
proof -
  have m: "(127 :: u32) = mask 7" by (simp add: mask_eq_exp_minus_1)
  have "unat (TLB_ENTRY va AND 127) = unat (TLB_ENTRY va)" unfolding m unat_mask tlb_entry by simp
  then show ?thesis by (simp only: word_unat_eq_iff)
qed

lemma dtlb_regs:
  "SPR_DTLBW0MR (TLB_ENTRY va) = 2560 + TLB_ENTRY va" "SPR_DTLBW0TR (TLB_ENTRY va) = 2688 + TLB_ENTRY va"
  unfolding SPR_DTLBW0MR_def SPR_DTLBW0TR_def SPR_REG_def tlb_entry_and by simp_all

lemma tlb_entry_small: "TLB_ENTRY va < 64"
  using tlb_entry [of va] by (simp add: word_less_nat_alt)

lemma dtlb_regs_differ: "2560 + TLB_ENTRY va \<noteq> 2688 + TLB_ENTRY vb" "SPR_TTMR \<noteq> 2560 + TLB_ENTRY va" "SPR_TTMR \<noteq> 2688 + TLB_ENTRY va"
proof -
  have u: "unat (2560 + TLB_ENTRY v) = 2560 + unat v div 8192 mod 64" "unat (2688 + TLB_ENTRY v) = 2688 + unat v div 8192 mod 64" for v
    by (simp_all add: unat_word_ariths tlb_entry)
  show "2560 + TLB_ENTRY va \<noteq> 2688 + TLB_ENTRY vb"
  proof
    assume "2560 + TLB_ENTRY va = 2688 + TLB_ENTRY vb"
    then have "2560 + unat va div 8192 mod 64 = 2688 + unat vb div 8192 mod 64" using u by metis
    then show False using mod_less_divisor [of 64 "unat va div 8192"] by linarith
  qed
  have t: "unat SPR_TTMR = 20480" by (simp add: SPR_TTMR_def SPR_REG_def)
  have "unat va div 8192 mod 64 < 64" by simp
  then show "SPR_TTMR \<noteq> 2560 + TLB_ENTRY va" "SPR_TTMR \<noteq> 2688 + TLB_ENTRY va" using u [of va] t by auto
qed

lemma same_page: "va AND VPN_MASK = vb AND VPN_MASK \<longleftrightarrow> unat va div 8192 = unat vb div 8192"
proof -
  have "va AND VPN_MASK = vb AND VPN_MASK \<longleftrightarrow> drop_bit 13 va = drop_bit 13 vb"
  proof
    assume a: "va AND VPN_MASK = vb AND VPN_MASK"
    have "bit va (13 + n) = bit vb (13 + n)" for n
      using arg_cong [OF a, of "\<lambda>w. bit w (13 + n)"] bit_imp_le_length [of va "13 + n"] bit_imp_le_length [of vb "13 + n"]
      by (auto simp: bit_and_iff bit_VPN_MASK)
    then show "drop_bit 13 va = drop_bit 13 vb" by (intro bit_word_eqI) (simp add: bit_drop_bit_eq)
  next
    assume a: "drop_bit 13 va = drop_bit 13 vb"
    have "bit va n = bit vb n" if "13 \<le> n" for n
      using arg_cong [OF a, of "\<lambda>w. bit w (n - 13)"] that by (simp add: bit_drop_bit_eq)
    then show "va AND VPN_MASK = vb AND VPN_MASK" by (intro bit_word_eqI) (auto simp: bit_and_iff bit_VPN_MASK)
  qed
  also have "\<dots> \<longleftrightarrow> unat (drop_bit 13 va) = unat (drop_bit 13 vb)" by (rule word_unat_eq_iff)
  finally show ?thesis unfolding unat_drop_bit by simp
qed

text \<open>The words a miss at \<open>eear\<close> writes.\<close>

lemma tlbmr_fields:
  fixes ctx :: u8 and eear :: u32
  defines "mr \<equiv> (eear AND VPN_MASK) OR (TLBMR_V OR push_bit 2 (ucast ctx)) :: u32"
  shows "mr AND TLBMR_V \<noteq> 0" "mr AND VPN_MASK = eear AND VPN_MASK"
proof -
  have "bit (mr AND TLBMR_V) 0" by (simp add: mr_def TLBMR_V_def bit_and_iff bit_or_iff)
  then show "mr AND TLBMR_V \<noteq> 0" by auto
  show "mr AND VPN_MASK = eear AND VPN_MASK"
    by (rule bit_word_eqI)
      (auto simp: mr_def TLBMR_V_def bit_and_iff bit_or_iff bit_VPN_MASK bit_push_bit_iff bit_1_iff bit_ucast_iff dest: bit_imp_le_length)
qed

lemma perm_flag: "n < 13 \<Longrightarrow> ((eear AND VPN_MASK) OR perms) AND push_bit n 1 \<noteq> (0 :: u32) \<longleftrightarrow> bit perms n"
proof -
  assume "n < 13"
  have "x AND push_bit n 1 \<noteq> 0 \<longleftrightarrow> bit x n" for x :: u32
    using and_exp_eq_0_iff_not_bit [of x n] by (simp add: push_bit_eq_mult)
  then show ?thesis using \<open>n < 13\<close> by (simp add: bit_or_iff bit_and_iff bit_VPN_MASK)
qed

lemma dtlb_miss_grants:
  assumes "DTLBMiss img st mm = Some mm'" "n < 13"
  defines "eear \<equiv> spr mm (SPR_EEAR 0)"
  shows "dtlb_grants (push_bit n 1) (spr mm') va \<longleftrightarrow>
    (if unat va div 8192 mod 64 = unat eear div 8192 mod 64
     then unat va div 8192 = unat eear div 8192 \<and> bit (dtlb_perms img (msel_active_task_num st) eear) n
     else dtlb_grants (push_bit n 1) (spr mm) va)"
proof -
  let ?mr = "(eear AND VPN_MASK) OR (TLBMR_V OR push_bit 2 (ucast (tcb_ctx_id (msel_active_task st)))) :: u32"
  have s: "spr mm' = (spr mm)(2560 + TLB_ENTRY eear := ?mr, 2688 + TLB_ENTRY eear := (eear AND VPN_MASK) OR dtlb_perms img (msel_active_task_num st) eear)"
    using assms(1) by (auto simp: DTLBMiss_def Let_def spr_read_def spr_write_def dtlb_regs eear_def split: if_splits)
  show ?thesis
  proof (cases "TLB_ENTRY va = TLB_ENTRY eear")
    case True
    then have "unat va div 8192 mod 64 = unat eear div 8192 mod 64" using tlb_entry by metis
    then show ?thesis using True tlbmr_fields perm_flag [OF assms(2)] same_page [of va eear] dtlb_regs_differ
      by (auto simp: dtlb_grants_def s dtlb_regs)
  next
    case False
    then have "unat va div 8192 mod 64 \<noteq> unat eear div 8192 mod 64" by (metis tlb_entry word_unat_eq_iff)
    moreover have "2560 + TLB_ENTRY eear \<noteq> 2688 + TLB_ENTRY va" "2560 + TLB_ENTRY va \<noteq> 2688 + TLB_ENTRY eear" by (rule dtlb_regs_differ)+
    ultimately show ?thesis using False by (simp add: dtlb_grants_def s dtlb_regs)
  qed
qed

lemma page_in:
  fixes a b e v :: nat
  assumes "v div 8192 = e div 8192" "8192 * a \<le> e" "e < 8192 * b"
  shows "8192 * a \<le> v" "v < 8192 * b"
proof -
  have "a \<le> v div 8192" using assms(1,2) by (simp add: less_eq_div_iff_mult_less_eq mult.commute)
  then show "8192 * a \<le> v" by (simp add: less_eq_div_iff_mult_less_eq mult.commute)
  have "v div 8192 < b" using assms(1,3) by (simp add: div_less_iff_less_mult mult.commute)
  then show "v < 8192 * b" by (simp add: div_less_iff_less_mult mult.commute)
qed

definition own_memory :: "nat \<Rightarrow> u32 \<Rightarrow> bool" where
  "own_memory t va \<longleftrightarrow> taskmem_stack_bottom or1k_layout t \<le> unat va \<and> unat va < taskmem_heap_end or1k_layout t"

lemma own_memory_page:
  assumes "own_memory t e" "unat va div 8192 = unat e div 8192"
  shows "own_memory t va"
  using page_in [OF assms(2), of "256 + 2 * t" "256 + 2 * t + 2"] assms(1)
  by (simp add: own_memory_def taskmem_stack_bottom_def taskmem_heap_end_def or1k_layout_def)

lemma user_perms:
  assumes "img_layout img = or1k_layout" "t \<noteq> 0"
  shows "bit (dtlb_perms img t e) 7 \<longleftrightarrow> own_memory t e \<and> 0x200000 \<le> unat e \<and> unat e < 0x220000"
    "bit (dtlb_perms img t e) 6 \<Longrightarrow> own_memory t e \<or> (0x100000 \<le> unat e \<and> unat e < 0x110000) \<or> (data_beg img \<le> unat e \<and> unat e < bss_end img)"
  using assms by (auto simp: dtlb_perms_def Let_def TLBTR_SRE_def TLBTR_URE_def TLBTR_SWE_def TLBTR_UWE_def bit_or_iff own_memory_def
      word_less_nat_alt word_le_nat_alt split: if_splits)

section \<open>Properties\<close>

text \<open>
  C16. A page fault of a task other than the main one opens only memory the task may use: after the
  miss handler has filled an entry, a user access that was not let through before is let through
  for writing only in the task's own stack and heap, and for reading only there, in ROM, and on the
  pages of the global data.
\<close>

theorem task_memory_isolated:
  assumes "DTLBMiss img st mm = Some mm'" "img_layout img = or1k_layout" "msel_active_task_num st = t" "t \<noteq> 0"
  shows "(dtlb_grants TLBTR_UWE (spr mm') va \<longrightarrow> dtlb_grants TLBTR_UWE (spr mm) va \<or> own_memory t va)
    \<and> (dtlb_grants TLBTR_URE (spr mm') va \<longrightarrow> dtlb_grants TLBTR_URE (spr mm) va \<or> own_memory t va
        \<or> (0x100000 \<le> unat va \<and> unat va < 0x110000)
        \<or> (\<exists>a. data_beg img \<le> a \<and> a < bss_end img \<and> a div 8192 = unat va div 8192))"
proof -
  define e where "e = spr mm (SPR_EEAR 0)"
  note g = dtlb_miss_grants [OF assms(1), folded e_def, unfolded assms(3)]
  note p = user_perms [OF assms(2,4), of e]
  have "own_memory t va" if "dtlb_grants TLBTR_UWE (spr mm') va" "\<not> dtlb_grants TLBTR_UWE (spr mm) va"
    using that g [of 7 va] p(1) own_memory_page [of t e va] by (auto simp: TLBTR_UWE_def split: if_splits)
  moreover have "own_memory t va \<or> (0x100000 \<le> unat va \<and> unat va < 0x110000)
        \<or> (\<exists>a. data_beg img \<le> a \<and> a < bss_end img \<and> a div 8192 = unat va div 8192)"
    if "dtlb_grants TLBTR_URE (spr mm') va" "\<not> dtlb_grants TLBTR_URE (spr mm) va"
  proof -
    have e: "unat va div 8192 = unat e div 8192" "bit (dtlb_perms img t e) 6"
      using that g [of 6 va] by (auto simp: TLBTR_URE_def split: if_splits)
    from p(2) [OF e(2)] show ?thesis
      using own_memory_page [OF _ e(1)] page_in [OF e(1), of 128 136] e(1) by fastforce
  qed
  ultimately show ?thesis by blast
qed

definition demo_image :: image where
  "demo_image = \<lparr>img_layout = or1k_layout, data_beg = 0x214000, bss_end = 0x216000\<rparr>"

definition demo_mmu :: "u32 \<Rightarrow> mmu" where
  "demo_mmu a = \<lparr>spr = (\<lambda>r. 0)(SPR_EEAR 0 := a), d_last_eear = 0, d_last_epcr = 0, i_last_eear = 0, i_last_epcr = 0\<rparr>"

theorem task_memory_isolated_witness:
  "\<exists>mm'. DTLBMiss demo_image demo_os (demo_mmu 0x204010) = Some mm' \<and> dtlb_grants TLBTR_UWE (spr mm') 0x205000 \<and> own_memory 1 0x205000"
proof -
  have e: "spr (demo_mmu 0x204010) (SPR_EEAR 0) = 0x204010" by (simp add: demo_mmu_def)
  obtain mm' where mm': "DTLBMiss demo_image demo_os (demo_mmu 0x204010) = Some mm'"
    by (simp add: DTLBMiss_def Let_def spr_read_def e) (simp add: demo_mmu_def)
  have a: "msel_active_task_num demo_os = 1" "img_layout demo_image = or1k_layout" by (simp_all add: demo_os_def demo_image_def)
  have "own_memory 1 0x204010" by (simp add: own_memory_def taskmem_stack_bottom_def taskmem_heap_end_def or1k_layout_def)
  then have "dtlb_grants TLBTR_UWE (spr mm') 0x205000"
    using dtlb_miss_grants [OF mm', of 7 "0x205000"] user_perms(1) [OF a(2), of 1 "0x204010"] by (simp add: e a(1) TLBTR_UWE_def)
  moreover have "\<not> dtlb_grants TLBTR_UWE (spr (demo_mmu 0x204010)) 0x205000" 
    by (simp add: dtlb_grants_def demo_mmu_def dtlb_regs) (simp add: SPR_EEAR_def SPR_REG_def TLB_ENTRY_def TLB_ENTRY_MASK_def)
  ultimately show ?thesis using task_memory_isolated [OF mm' a(2,1), of "0x205000"] mm' by auto
qed

text \<open>What a miss of the main task opens, the next tick leaves open.\<close>

lemma main_miss_grants:
  assumes "DTLBMiss img st mm = Some mm'" "msel_active_task_num st = 0" "spr mm (SPR_EEAR 0) = va" "0x200000 \<le> va" "va < 0x220000"
  shows "dtlb_grants TLBTR_UWE (spr mm') va"
proof -
  have "bit (dtlb_perms img 0 va) 7"
    using assms(4,5) by (auto simp: dtlb_perms_def Let_def TLBTR_SRE_def TLBTR_URE_def TLBTR_SWE_def TLBTR_UWE_def bit_or_iff word_le_nat_alt word_less_nat_alt)
  then show ?thesis using dtlb_miss_grants [OF assms(1), of 7 va] assms(2,3) by (simp add: TLBTR_UWE_def)
qed

lemma tick_keeps_tlb: "dtlb_grants flag (arch_systick_handler s) va = dtlb_grants flag s va"
  using dtlb_regs_differ(2,3) [of va] by (auto simp: dtlb_grants_def dtlb_regs arch_systick_handler_def SPR_TTMR_IP_SET_def spr_write_def)

end
