(* ===== verification/Ffs.thy ===== *)
theory Ffs
  imports Task
begin

unbundle bit_operations_syntax

text \<open>
  The channel to the host, called faux file system: the packets and the driver
  (\<^verbatim>\<open>driver/ffs_driver.c\<close>, \<^verbatim>\<open>arch/openrisc/ffs.c\<close>) and the circular buffers of
  \<^verbatim>\<open>driver/ffs_session.c\<close>. A pointer into the array of a buffer is an index. The processor is big
  endian, so a packet header in the shared memory is session number, nonce and a reserved byte.
  The interface \<open>bounded_fifo\<close> is what the session manager needs of its buffers.
\<close>

section \<open>Circular buffers\<close>

abbreviation (input) MAX_QUEUE_SIZE :: nat where "MAX_QUEUE_SIZE \<equiv> 2"

record 'a cbuf =
  cb_data :: "'a list"
  cb_size :: nat
  cb_start :: nat
  cb_end :: nat

definition CBUF_ADD :: "'a cbuf \<Rightarrow> 'a cbuf" where
  "CBUF_ADD buf =
     (let buf = buf\<lparr>cb_end := cb_end buf + 1, cb_size := cb_size buf + 1\<rparr>
      in if cb_end buf \<ge> MAX_QUEUE_SIZE then buf\<lparr>cb_end := 0\<rparr> else buf)"

definition CBUF_REM :: "'a cbuf \<Rightarrow> 'a cbuf" where
  "CBUF_REM buf =
     (let buf = buf\<lparr>cb_size := cb_size buf - 1, cb_start := cb_start buf + 1\<rparr>
      in if cb_start buf \<ge> MAX_QUEUE_SIZE then buf\<lparr>cb_start := 0\<rparr> else buf)"

text \<open>The two ways the code uses the pointers: it stores through \<^verbatim>\<open>end\<close> and then adds, and it
  reads through \<^verbatim>\<open>start\<close>.\<close>

definition cbuf_put :: "'a \<Rightarrow> 'a cbuf \<Rightarrow> 'a cbuf" where
  "cbuf_put x buf = CBUF_ADD (buf\<lparr>cb_data := (cb_data buf)[cb_end buf := x]\<rparr>)"

definition cbuf_front :: "'a cbuf \<Rightarrow> 'a" where
  "cbuf_front buf = cb_data buf ! cb_start buf"

definition cbuf_reset :: "'a cbuf \<Rightarrow> 'a cbuf" where
  "cbuf_reset buf = buf\<lparr>cb_start := 0, cb_end := 0, cb_size := 0\<rparr>"

section \<open>Packets\<close>

abbreviation (input) FFS_HDR_SIZE :: nat where "FFS_HDR_SIZE \<equiv> 4"
abbreviation (input) FFS_DATA_SIZE :: nat where "FFS_DATA_SIZE \<equiv> 2044"

record ffs_packet =
  pkt_session :: u16
  pkt_nonce :: u8
  pkt_reserved :: u8
  pkt_data :: bytes

definition zero_packet :: ffs_packet where
  "zero_packet = \<lparr>pkt_session = 0, pkt_nonce = 0, pkt_reserved = 0, pkt_data = replicate FFS_DATA_SIZE 0\<rparr>"

abbreviation (input) FFS_CHANNEL_READY :: u8 where "FFS_CHANNEL_READY \<equiv> 0x10"
abbreviation (input) FFS_CHANNEL_LAST_FAIL :: u8 where "FFS_CHANNEL_LAST_FAIL \<equiv> 0x11"
abbreviation (input) FFS_CHANNEL_LAST_SUCC :: u8 where "FFS_CHANNEL_LAST_SUCC \<equiv> 0x12"
abbreviation (input) FFS_CHANNEL_LAST_RETRY :: u8 where "FFS_CHANNEL_LAST_RETRY \<equiv> 0x13"
abbreviation (input) FFS_CHANNEL_LAST_EINPUT :: u8 where "FFS_CHANNEL_LAST_EINPUT \<equiv> 0x14"

section \<open>State\<close>

record ffs_queue =
  q_buf :: "ffs_packet cbuf"
  q_task_id :: nat
  q_endpoint :: "bytes option"
  q_port :: u16
  q_active :: bool

text \<open>The queue after \<^verbatim>\<open>msel_memset\<close> with zero. The null pointers of its buffer are index 0; the
  buffer of a queue that is not active is never used before it is reset.\<close>

definition zero_queue :: ffs_queue where
  "zero_queue = \<lparr>q_buf = \<lparr>cb_data = replicate MAX_QUEUE_SIZE zero_packet, cb_size = 0, cb_start = 0, cb_end = 0\<rparr>,
     q_task_id = 0, q_endpoint = None, q_port = 0, q_active = False\<rparr>"

text \<open>The static variables of the session manager and of the driver, and the memory shared with the
  host. Of the outgoing queue only the buffer is used.\<close>

record ffs =
  rfile_empty :: bool
  rq :: "ffs_packet cbuf"
  wq :: "ffs_queue list"
  s0 :: ffs_packet
  s0_rq :: "u32 cbuf"
  num_sessions :: u16
  retry_session_id :: u16
  hasSeenReadAck :: bool
  curr_wfile_status :: u8
  rfile_nonce :: u8
  ffs_recv_data :: bytes
  ffs_send_data :: bytes
  ffs_recv_ack :: bytes
  ffs_send_ack :: u8
  ffs_ctrl :: u32

section \<open>Driver\<close>

definition arch_ffs_wfile_read :: "ffs_packet \<Rightarrow> ffs \<Rightarrow> msel_status \<times> ffs_packet" where
  "arch_ffs_wfile_read pkt f =
     (MSEL_OK, pkt\<lparr>pkt_session := of_nat (be_num (take 2 (ffs_recv_data f))), pkt_nonce := ffs_recv_data f ! 2,
        pkt_data := take FFS_DATA_SIZE (drop FFS_HDR_SIZE (ffs_recv_data f))\<rparr>)"

definition arch_ffs_wfile_set_status :: "u8 \<Rightarrow> u8 \<Rightarrow> ffs \<Rightarrow> ffs" where
  "arch_ffs_wfile_set_status status nonce f =
     (let ack = (ffs_recv_ack f)[1 := nonce]; ack = ack[0 := status]
      in f\<lparr>ffs_recv_ack := ack, curr_wfile_status := status\<rparr>)"

definition arch_ffs_wfile_get_status :: "ffs \<Rightarrow> u8" where
  "arch_ffs_wfile_get_status f = curr_wfile_status f"

definition arch_ffs_rfile_get_status :: "ffs \<Rightarrow> u8" where
  "arch_ffs_rfile_get_status f = (if hasSeenReadAck f then ffs_send_ack f else FFS_CHANNEL_READY)"

definition msel_ffs_rfile_get_status :: "ffs \<Rightarrow> u8" where
  "msel_ffs_rfile_get_status f = arch_ffs_rfile_get_status f"

definition arch_ffs_rfile_write :: "ffs_packet \<Rightarrow> ffs \<Rightarrow> msel_status \<times> ffs" where
  "arch_ffs_rfile_write pkt f =
     (if msel_ffs_rfile_get_status f \<noteq> FFS_CHANNEL_LAST_SUCC \<and> msel_ffs_rfile_get_status f \<noteq> FFS_CHANNEL_READY
      then (MSEL_EAGAIN, f)
      else
        let nonce = rfile_nonce f + 1;
            nonce = (if nonce = 0 then 1 else nonce);
            f = f\<lparr>rfile_nonce := nonce\<rparr>;
            hdr = (0 :: u32);
            f = f\<lparr>ffs_send_data := blit (ffs_send_data f) 0 (be_bytes FFS_HDR_SIZE hdr)\<rparr>;
            f = f\<lparr>ffs_send_data := blit (ffs_send_data f) FFS_HDR_SIZE (take FFS_DATA_SIZE (pkt_data pkt))\<rparr>;
            hdr = (push_bit 16 (ucast (pkt_session pkt)) OR push_bit 8 (0xff AND ucast nonce) :: u32);
            f = f\<lparr>ffs_send_data := blit (ffs_send_data f) 0 (be_bytes FFS_HDR_SIZE hdr)\<rparr>
        in (MSEL_OK, f))"

definition arch_ffs_rfile_clear :: "ffs \<Rightarrow> ffs" where
  "arch_ffs_rfile_clear f = f\<lparr>ffs_send_data := blit (ffs_send_data f) 0 (replicate (FFS_HDR_SIZE + FFS_DATA_SIZE) 0)\<rparr>"

definition msel_ffs_wfile_read :: "ffs_packet \<Rightarrow> ffs \<Rightarrow> msel_status \<times> ffs_packet" where
  "msel_ffs_wfile_read pkt f = arch_ffs_wfile_read pkt f"

definition msel_ffs_wfile_set_status :: "u8 \<Rightarrow> u8 \<Rightarrow> ffs \<Rightarrow> ffs" where
  "msel_ffs_wfile_set_status status nonce f = arch_ffs_wfile_set_status status nonce f"

definition msel_ffs_wfile_get_status :: "ffs \<Rightarrow> u8" where
  "msel_ffs_wfile_get_status f = arch_ffs_wfile_get_status f"

definition msel_ffs_rfile_write :: "ffs_packet \<Rightarrow> ffs \<Rightarrow> msel_status \<times> ffs" where
  "msel_ffs_rfile_write pkt f = arch_ffs_rfile_write pkt f"

definition msel_ffs_rfile_clear :: "ffs \<Rightarrow> ffs" where
  "msel_ffs_rfile_clear f = arch_ffs_rfile_clear f"

section \<open>Buffers as bounded queues\<close>

text \<open>The contract: \<open>contents\<close> is the list of stored elements, oldest first.\<close>

locale bounded_fifo =
  fixes ok :: "'q \<Rightarrow> bool" and contents :: "'q \<Rightarrow> 'a list" and count :: "'q \<Rightarrow> nat" and cap :: nat
    and put :: "'a \<Rightarrow> 'q \<Rightarrow> 'q" and front :: "'q \<Rightarrow> 'a" and rem :: "'q \<Rightarrow> 'q"
  assumes count_contents: "ok q \<Longrightarrow> count q = length (contents q)"
    and bounded: "ok q \<Longrightarrow> count q \<le> cap"
    and put_ok: "ok q \<Longrightarrow> count q < cap \<Longrightarrow> ok (put x q)"
    and put_contents: "ok q \<Longrightarrow> count q < cap \<Longrightarrow> contents (put x q) = contents q @ [x]"
    and rem_ok: "ok q \<Longrightarrow> 0 < count q \<Longrightarrow> ok (rem q)"
    and rem_contents: "ok q \<Longrightarrow> 0 < count q \<Longrightarrow> contents q = front q # contents (rem q)"
begin

lemma put_count: "ok q \<Longrightarrow> count q < cap \<Longrightarrow> count (put x q) = Suc (count q)"
  by (simp add: count_contents put_ok put_contents)

lemma rem_count: "ok q \<Longrightarrow> 0 < count q \<Longrightarrow> count q = Suc (count (rem q))"
  using count_contents [of q] count_contents [OF rem_ok, of q] rem_contents [of q] by simp

lemma empty_iff: "ok q \<Longrightarrow> count q = 0 \<longleftrightarrow> contents q = []"
  by (simp add: count_contents)

text \<open>Elements put are taken out in their order.\<close>

lemma put_all:
  "ok q \<Longrightarrow> count q + length xs \<le> cap \<Longrightarrow> ok (fold put xs q) \<and> contents (fold put xs q) = contents q @ xs"
proof (induction xs arbitrary: q)
  case (Cons x xs)
  then have "count q < cap" by simp
  then show ?case using Cons.IH [of "put x q"] Cons.prems by (simp add: put_ok put_contents put_count)
qed simp

lemma rem_drop:
  "ok q \<Longrightarrow> n \<le> count q \<Longrightarrow> ok ((rem ^^ n) q) \<and> contents ((rem ^^ n) q) = drop n (contents q)"
proof (induction n)
  case (Suc n)
  then have i: "ok ((rem ^^ n) q)" "contents ((rem ^^ n) q) = drop n (contents q)" by simp_all
  then have "0 < count ((rem ^^ n) q)" using Suc.prems count_contents [of q] count_contents [OF i(1)] by simp
  then show ?case using i rem_ok [OF i(1)] rem_contents [OF i(1)] by (simp add: drop_Suc tl_drop) (metis list.sel(3) tl_drop)
qed simp

lemma front_nth: "ok q \<Longrightarrow> n < count q \<Longrightarrow> front ((rem ^^ n) q) = contents q ! n"
  using rem_drop [of q n] rem_contents [of "(rem ^^ n) q"] count_contents [of q] count_contents [of "(rem ^^ n) q"]
  by (auto simp: hd_drop_conv_nth [symmetric])

end

definition cbuf_ok :: "'a cbuf \<Rightarrow> bool" where
  "cbuf_ok b \<longleftrightarrow> length (cb_data b) = MAX_QUEUE_SIZE \<and> cb_size b \<le> MAX_QUEUE_SIZE \<and> cb_start b < MAX_QUEUE_SIZE
     \<and> cb_end b = (cb_start b + cb_size b) mod MAX_QUEUE_SIZE"

definition cbuf_contents :: "'a cbuf \<Rightarrow> 'a list" where
  "cbuf_contents b = map (\<lambda>i. cb_data b ! ((cb_start b + i) mod MAX_QUEUE_SIZE)) [0..<cb_size b]"

lemma cbuf_cases:
  assumes "cbuf_ok b"
  obtains x y where "cb_data b = [x, y]" "cb_start b = 0 \<or> cb_start b = 1" "cb_size b = 0 \<or> cb_size b = 1 \<or> cb_size b = 2"
    "cb_end b = (cb_start b + cb_size b) mod 2"
  using assms by (auto simp: cbuf_ok_def numeral_2_eq_2 length_Suc_conv le_Suc_eq less_Suc_eq)

interpretation cb: bounded_fifo cbuf_ok cbuf_contents cb_size MAX_QUEUE_SIZE cbuf_put cbuf_front CBUF_REM
proof
  fix q :: "'a cbuf" and x :: 'a
  assume ok: "cbuf_ok q"
  show "cb_size q = length (cbuf_contents q)" by (simp add: cbuf_contents_def)
  show "cb_size q \<le> MAX_QUEUE_SIZE" using ok by (simp add: cbuf_ok_def)
  show "cbuf_ok (cbuf_put x q)" if "cb_size q < MAX_QUEUE_SIZE"
    using that by (cases rule: cbuf_cases [OF ok]) (auto simp: cbuf_put_def CBUF_ADD_def Let_def cbuf_ok_def)
  show "cbuf_contents (cbuf_put x q) = cbuf_contents q @ [x]" if "cb_size q < MAX_QUEUE_SIZE"
    using that by (cases rule: cbuf_cases [OF ok]) (auto simp: cbuf_put_def CBUF_ADD_def Let_def cbuf_contents_def numeral_2_eq_2)
  show "cbuf_ok (CBUF_REM q)" if "0 < cb_size q"
    using that by (cases rule: cbuf_cases [OF ok]) (auto simp: CBUF_REM_def Let_def cbuf_ok_def)
  show "cbuf_contents q = cbuf_front q # cbuf_contents (CBUF_REM q)" if "0 < cb_size q"
    using that by (cases rule: cbuf_cases [OF ok])
      (auto simp: CBUF_REM_def Let_def cbuf_contents_def cbuf_front_def numeral_2_eq_2)
qed

lemma cbuf_reset_ok: "length (cb_data b) = MAX_QUEUE_SIZE \<Longrightarrow> cbuf_ok (cbuf_reset b)" "cbuf_contents (cbuf_reset b) = []"
  by (simp_all add: cbuf_ok_def cbuf_reset_def cbuf_contents_def)

section \<open>The packet in shared memory\<close>

definition img_session :: "bytes \<Rightarrow> u16" where "img_session img = of_nat (be_num (take 2 img))"
definition img_nonce :: "bytes \<Rightarrow> u8" where "img_nonce img = img ! 2"
definition img_data :: "bytes \<Rightarrow> bytes" where "img_data img = drop FFS_HDR_SIZE img"

lemma be_bytes_header:
  "be_bytes 4 (push_bit 16 (ucast (s :: u16)) OR push_bit 8 (0xff AND ucast (n :: u8)) :: u32) = be_bytes 2 s @ [n, 0]"
proof -
  have m: "(0xff :: u32) = mask 8" by (simp add: mask_eq_exp_minus_1)
  have "le_bytes 4 (push_bit 16 (ucast s) OR push_bit 8 (0xff AND ucast n) :: u32) = 0 # n # le_bytes 2 s"
    unfolding m by (simp add: le_bytes_def upt_rec bit_eq_iff bit_simps)
  then show ?thesis by (simp add: be_bytes_def)
qed

lemma img_of_header:
  assumes "length d = FFS_DATA_SIZE"
  shows "img_session (be_bytes 2 s @ [n, r] @ d) = s" "img_nonce (be_bytes 2 s @ [n, r] @ d) = n"
    "img_data (be_bytes 2 s @ [n, r] @ d) = d"
  using of_nat_le_num(2) [of 2 s] by (simp_all add: img_session_def img_nonce_def img_data_def nth_append)

definition next_nonce :: "u8 \<Rightarrow> u8" where
  "next_nonce n = (if n + 1 = 0 then 1 else n + 1)"

lemma next_nonce: "next_nonce n \<noteq> 0" "n \<noteq> 0 \<Longrightarrow> next_nonce n \<noteq> n"
  by (auto simp: next_nonce_def)

lemma blit_packet:
  assumes "length m = FFS_HDR_SIZE + FFS_DATA_SIZE" "length z = FFS_HDR_SIZE" "length h = FFS_HDR_SIZE" "length d = FFS_DATA_SIZE"
  shows "blit (blit (blit m 0 z) FFS_HDR_SIZE d) 0 h = h @ d"
  using assms by (simp add: blit_def)

lemma rfile_write_eq:
  assumes "length (ffs_send_data f) = FFS_HDR_SIZE + FFS_DATA_SIZE" "length (pkt_data p) = FFS_DATA_SIZE"
  shows "msel_ffs_rfile_write p f =
    (if msel_ffs_rfile_get_status f \<noteq> FFS_CHANNEL_LAST_SUCC \<and> msel_ffs_rfile_get_status f \<noteq> FFS_CHANNEL_READY then (MSEL_EAGAIN, f)
     else (MSEL_OK, f\<lparr>rfile_nonce := next_nonce (rfile_nonce f),
       ffs_send_data := be_bytes 2 (pkt_session p) @ [next_nonce (rfile_nonce f), 0] @ pkt_data p\<rparr>))"
  using assms by (simp add: msel_ffs_rfile_write_def arch_ffs_rfile_write_def Let_def blit_packet be_bytes_header [simplified] next_nonce_def [symmetric])

end
