(* ===== verification/Ffs_Session.thy ===== *)
theory Ffs_Session
  imports Ffs
begin

unbundle bit_operations_syntax

text \<open>
  The session manager of \<^verbatim>\<open>driver/ffs_session.c\<close> and the two channel interrupts of
  \<^verbatim>\<open>arch/openrisc/isr.c\<close>. Starting and killing a session creates and kills a task, so the
  operations work on the task state \<open>st\<close> and the channel state \<open>f\<close>. The application's \<^verbatim>\<open>get_task\<close> is a
  parameter: from the data of a request it gives the endpoint, none for the null pointer, the entry
  point, 0 for the null pointer, and the port. \<open>None\<close> is a scheduler call that does not return.
\<close>

abbreviation (input) MAX_NUM_SESSIONS :: u16 where "MAX_NUM_SESSIONS \<equiv> 5"
abbreviation (input) CMD_START_SESSION :: u8 where "CMD_START_SESSION \<equiv> 1"
abbreviation (input) CMD_KILL_SESSION :: u8 where "CMD_KILL_SESSION \<equiv> 2"
abbreviation (input) S0_CMD_SIZE :: nat where "S0_CMD_SIZE \<equiv> 1"

type_synonym get_task = "bytes \<Rightarrow> bytes option \<times> addr \<times> u16"

definition wq_1 :: "ffs \<Rightarrow> u16 \<Rightarrow> ffs_queue" where
  "wq_1 f sid = wq f ! (unat sid - 1)"

definition upd_wq_1 :: "u16 \<Rightarrow> (ffs_queue \<Rightarrow> ffs_queue) \<Rightarrow> ffs \<Rightarrow> ffs" where
  "upd_wq_1 sid g f = f\<lparr>wq := (wq f)[unat sid - 1 := g (wq_1 f sid)]\<rparr>"

text \<open>The loop over the session numbers: the first one from 1 on that satisfies the condition, one
  more than the last if none does.\<close>

definition first_sid :: "(ffs_queue \<Rightarrow> bool) \<Rightarrow> ffs_queue list \<Rightarrow> u16" where
  "first_sid P qs = of_nat (length (takeWhile (\<lambda>q. \<not> P q) qs) + 1)"

section \<open>Sessions\<close>

definition clear_retry_id :: "ffs \<Rightarrow> ffs" where
  "clear_retry_id f =
     (if msel_ffs_wfile_get_status f = FFS_CHANNEL_LAST_RETRY
      then msel_ffs_wfile_set_status FFS_CHANNEL_READY 0 (f\<lparr>retry_session_id := MAX_NUM_SESSIONS + 1\<rparr>)
      else f)"

definition init_session :: "nat \<Rightarrow> bytes option \<Rightarrow> u16 \<Rightarrow> ffs \<Rightarrow> u16 \<times> ffs" where
  "init_session task_id endpoint port f =
     (let sid = first_sid (\<lambda>q. \<not> q_active q) (wq f);
          f = upd_wq_1 sid (\<lambda>q. q\<lparr>q_buf := cbuf_reset (q_buf q), q_task_id := task_id, q_endpoint := endpoint,
                q_port := port, q_active := True\<rparr>) f
      in (sid, f\<lparr>num_sessions := num_sessions f + 1\<rparr>))"

definition end_session :: "u16 \<Rightarrow> os \<Rightarrow> ffs \<Rightarrow> (os \<times> ffs) option" where
  "end_session sid st f = do {
     st \<leftarrow> msel_task_force_kill (q_task_id (wq_1 f sid)) ''Force quit by Android'' st;
     let f = upd_wq_1 sid (\<lambda>q. zero_queue) f;
     let f = f\<lparr>num_sessions := num_sessions f - 1\<rparr>;
     Some (st, if sid = retry_session_id f then clear_retry_id f else f) }"

section \<open>The outgoing channel\<close>

definition msel_rfile_step_queue :: "ffs \<Rightarrow> ffs" where
  "msel_rfile_step_queue f =
     (let f = f\<lparr>rfile_empty := False\<rparr>
      in if cb_size (s0_rq f) > 0 then
           let v = cbuf_front (s0_rq f);
               f = f\<lparr>s0 := zero_packet\<lparr>pkt_data := (pkt_data zero_packet)[0 := ucast (drop_bit 8 v), 1 := ucast v]\<rparr>\<rparr>;
               (r, f) = msel_ffs_rfile_write (s0 f) f
           in if r = MSEL_OK then f\<lparr>s0_rq := CBUF_REM (s0_rq f)\<rparr> else f
         else if cb_size (rq f) > 0 then
           let (r, f) = msel_ffs_rfile_write (cbuf_front (rq f)) f
           in if r = MSEL_OK then f\<lparr>rq := CBUF_REM (rq f)\<rparr> else f
         else msel_ffs_rfile_clear (f\<lparr>rfile_empty := True\<rparr>))"

text \<open>The session of the calling task, as both system calls look it up.\<close>

definition task_sid :: "nat \<Rightarrow> ffs \<Rightarrow> u16" where
  "task_sid task_id f = first_sid (\<lambda>q. q_active q \<and> q_task_id q = task_id) (wq f)"

text \<open>The packet is the caller's buffer; the call stores the session number in it.\<close>

definition msel_ffs_session_send :: "os \<Rightarrow> ffs_packet \<Rightarrow> ffs \<Rightarrow> msel_status \<times> ffs_packet \<times> ffs" where
  "msel_ffs_session_send st pkt f =
     (let pkt = pkt\<lparr>pkt_session := task_sid (msel_active_task_num st) f\<rparr>
      in if pkt_session pkt > 0 \<and> pkt_session pkt \<le> MAX_NUM_SESSIONS \<and> cb_size (rq f) < MAX_QUEUE_SIZE then
           let f = f\<lparr>rq := cbuf_put pkt (rq f)\<rparr>;
               f = (if rfile_empty f then msel_rfile_step_queue f else f)
           in (MSEL_OK, pkt, f)
         else (MSEL_ERESOURCE, pkt, f))"

definition msel_ffs_session_recv :: "os \<Rightarrow> ffs_packet \<Rightarrow> ffs \<Rightarrow> msel_status \<times> ffs_packet \<times> ffs" where
  "msel_ffs_session_recv st pkt f =
     (let sid = task_sid (msel_active_task_num st) f
      in if sid > 0 \<and> sid \<le> MAX_NUM_SESSIONS \<and> cb_size (q_buf (wq_1 f sid)) > 0 then
           let pkt = cbuf_front (q_buf (wq_1 f sid));
               f = (if sid = retry_session_id f then clear_retry_id f else f)
           in (MSEL_OK, pkt, upd_wq_1 sid (\<lambda>q. q\<lparr>q_buf := CBUF_REM (q_buf q)\<rparr>) f)
         else (MSEL_ERESOURCE, pkt, f))"

section \<open>The incoming channel\<close>

text \<open>The request to start a session, the request to kill one, and a packet for a session: each gives
  the status for the host.\<close>

definition start_session :: "layout \<Rightarrow> get_task \<Rightarrow> os \<Rightarrow> ffs \<Rightarrow> (u8 \<times> os \<times> ffs) option" where
  "start_session lay get_task st f =
     (if cb_size (s0_rq f) \<ge> MAX_QUEUE_SIZE then Some (FFS_CHANNEL_LAST_RETRY, st, f)
      else if num_sessions f \<ge> MAX_NUM_SESSIONS then Some (FFS_CHANNEL_LAST_FAIL, st, f)
      else
        let (endpoint, task_fn, port) = get_task (drop S0_CMD_SIZE (pkt_data (s0 f)))
        in if endpoint = None \<or> task_fn = 0 then Some (FFS_CHANNEL_LAST_FAIL, st, f)
           else do {
             (r, tid, st) \<leftarrow> msel_task_create lay task_fn None 0 st;
             if r \<noteq> MSEL_OK then Some (FFS_CHANNEL_LAST_FAIL, st, f)
             else do {
               task_id \<leftarrow> tid;
               let (sid, f) = init_session task_id endpoint port f;
               let f = f\<lparr>s0_rq := cbuf_put (ucast sid) (s0_rq f)\<rparr>;
               let f = (if rfile_empty f then msel_rfile_step_queue f else f);
               Some (FFS_CHANNEL_LAST_SUCC, st, f) } })"

definition kill_sid :: "ffs_packet \<Rightarrow> u16" where
  "kill_sid pkt = push_bit 8 (ucast (pkt_data pkt ! S0_CMD_SIZE)) OR ucast (pkt_data pkt ! (S0_CMD_SIZE + 1))"

definition kill_session :: "os \<Rightarrow> ffs \<Rightarrow> (u8 \<times> os \<times> ffs) option" where
  "kill_session st f =
     (let sid = kill_sid (s0 f)
      in if sid > 0 \<and> sid \<le> MAX_NUM_SESSIONS \<and> q_active (wq_1 f sid) then do {
           (st, f) \<leftarrow> end_session sid st f;
           Some (FFS_CHANNEL_LAST_SUCC, st, f) }
         else Some (FFS_CHANNEL_LAST_FAIL, st, f))"

definition route_packet :: "u16 \<Rightarrow> ffs \<Rightarrow> u8 \<times> ffs" where
  "route_packet sid f =
     (if sid = 0 \<or> sid > MAX_NUM_SESSIONS \<or> \<not> q_active (wq_1 f sid) then (FFS_CHANNEL_LAST_FAIL, f)
      else if cb_size (q_buf (wq_1 f sid)) \<ge> MAX_QUEUE_SIZE then (FFS_CHANNEL_LAST_RETRY, f\<lparr>retry_session_id := sid\<rparr>)
      else (FFS_CHANNEL_LAST_SUCC, upd_wq_1 sid (\<lambda>q. q\<lparr>q_buf := cbuf_put (s0 f) (q_buf q)\<rparr>) f))"

definition dispatch_packet :: "layout \<Rightarrow> get_task \<Rightarrow> os \<Rightarrow> ffs \<Rightarrow> (u8 \<times> os \<times> ffs) option" where
  "dispatch_packet lay get_task st f =
     (let sid = pkt_session (s0 f)
      in if sid = 0 then
           let ctrl = pkt_data (s0 f) ! 0
           in if ctrl = CMD_START_SESSION then start_session lay get_task st f
              else if ctrl = CMD_KILL_SESSION then kill_session st f
              else Some (FFS_CHANNEL_LAST_EINPUT, st, f)
         else let (status, f) = route_packet sid f in Some (status, st, f))"

definition msel_wfile_get_packet :: "layout \<Rightarrow> get_task \<Rightarrow> os \<Rightarrow> ffs \<Rightarrow> (os \<times> ffs) option" where
  "msel_wfile_get_packet lay get_task st f = do {
     let (r, pkt) = msel_ffs_wfile_read (s0 f) f;
     let f = f\<lparr>s0 := pkt\<rparr>;
     let in_nonce = pkt_nonce (s0 f);
     let f = msel_ffs_wfile_set_status FFS_CHANNEL_READY in_nonce f;
     (status, st, f) \<leftarrow> dispatch_packet lay get_task st f;
     Some (st, msel_ffs_wfile_set_status status in_nonce f) }"

definition msel_init_ffs_queues :: "ffs \<Rightarrow> ffs" where
  "msel_init_ffs_queues f =
     (let f = f\<lparr>rq := q_buf zero_queue, s0_rq := cbuf_reset (s0_rq f), rfile_empty := True, hasSeenReadAck := False,
            wq := replicate (unat MAX_NUM_SESSIONS) zero_queue\<rparr>;
          f = msel_ffs_wfile_set_status FFS_CHANNEL_READY 0 f
      in msel_ffs_rfile_clear f)"

section \<open>Interrupts\<close>

definition FauxFileSystemWrite :: "layout \<Rightarrow> get_task \<Rightarrow> os \<Rightarrow> ffs \<Rightarrow> (os \<times> ffs) option" where
  "FauxFileSystemWrite lay get_task st f = do {
     (st, f) \<leftarrow> msel_wfile_get_packet lay get_task st f;
     Some (st, f\<lparr>ffs_ctrl := ffs_ctrl f OR 1\<rparr>) }"

definition FauxFileSystemReadAck :: "ffs \<Rightarrow> ffs" where
  "FauxFileSystemReadAck f =
     (let f = f\<lparr>hasSeenReadAck := True\<rparr>;
          status = msel_ffs_rfile_get_status f;
          f = (if status = FFS_CHANNEL_READY \<or> status = FFS_CHANNEL_LAST_SUCC then msel_rfile_step_queue f else f)
      in f\<lparr>ffs_ctrl := ffs_ctrl f OR 2\<rparr>)"

section \<open>Invariant\<close>

definition packet_ok :: "ffs_packet \<Rightarrow> bool" where
  "packet_ok p \<longleftrightarrow> length (pkt_data p) = FFS_DATA_SIZE"

text \<open>The shape of the state, and what holds between two events: nothing waits while the outgoing
  channel is marked empty, and then its memory is clear.\<close>

definition ffs_wf :: "ffs \<Rightarrow> bool" where
  "ffs_wf f \<longleftrightarrow> length (wq f) = 5 \<and> (\<forall>q \<in> set (wq f). cbuf_ok (q_buf q))
     \<and> cbuf_ok (rq f) \<and> (\<forall>p \<in> set (cbuf_contents (rq f)). packet_ok p \<and> pkt_session p \<noteq> 0)
     \<and> cbuf_ok (s0_rq f) \<and> unat (num_sessions f) = length (filter q_active (wq f))
     \<and> length (ffs_send_data f) = FFS_HDR_SIZE + FFS_DATA_SIZE \<and> rfile_nonce f \<noteq> 0
     \<and> (rfile_empty f \<longrightarrow> ffs_send_data f = replicate (FFS_HDR_SIZE + FFS_DATA_SIZE) 0)"

definition ffs_ok :: "ffs \<Rightarrow> bool" where
  "ffs_ok f \<longleftrightarrow> ffs_wf f \<and> (rfile_empty f \<longrightarrow> cb_size (rq f) = 0 \<and> cb_size (s0_rq f) = 0)"

section \<open>What the host sees\<close>

text \<open>The host takes a packet when the nonce changes.\<close>

definition shown :: "ffs \<Rightarrow> ffs \<Rightarrow> bytes list" where
  "shown f f' = (if rfile_nonce f' = rfile_nonce f then [] else [ffs_send_data f'])"

definition img_packet :: "bytes \<Rightarrow> u16 \<times> bytes" where
  "img_packet img = (img_session img, img_data img)"

definition img_announce :: "bytes \<Rightarrow> u16" where
  "img_announce img = of_nat (be_num (take 2 (img_data img)))"

definition out_packets :: "ffs \<Rightarrow> (u16 \<times> bytes) list" where
  "out_packets f = map (\<lambda>p. (pkt_session p, pkt_data p)) (cbuf_contents (rq f))"

definition out_announce :: "ffs \<Rightarrow> u16 list" where
  "out_announce f = map ucast (cbuf_contents (s0_rq f))"

definition outgoing :: "(u16 \<times> bytes) list \<Rightarrow> u16 list \<Rightarrow> ffs \<Rightarrow> ffs \<Rightarrow> bool" where
  "outgoing sent started f f' \<longleftrightarrow>
     out_packets f @ sent = map img_packet (filter (\<lambda>i. img_session i \<noteq> 0) (shown f f')) @ out_packets f'
   \<and> out_announce f @ started = map img_announce (filter (\<lambda>i. img_session i = 0) (shown f f')) @ out_announce f'"

lemma be_num2: "of_nat (be_num [ucast (drop_bit 8 v), ucast v]) = (ucast (v :: u32) :: u16)"
proof -
  have "[ucast (drop_bit 8 v), ucast v] = be_bytes 2 (ucast v :: u16)"
    by (simp add: be_bytes_def le_bytes_def upt_rec bit_eq_iff bit_simps)
  then show ?thesis using of_nat_le_num(2) [of 2 "ucast v :: u16"] by simp
qed

lemma zero_packet_simps [simp]:
  "pkt_session zero_packet = 0" "length (pkt_data zero_packet) = FFS_DATA_SIZE"
  by (simp_all add: zero_packet_def)

lemma shown_write [simp]:
  "rfile_nonce f \<noteq> 0 \<Longrightarrow> rfile_nonce f' = next_nonce (rfile_nonce f) \<Longrightarrow> shown f f' = [ffs_send_data f']"
  by (simp add: shown_def next_nonce)

lemma shown_same [simp]: "rfile_nonce f' = rfile_nonce f \<Longrightarrow> shown f f' = []"
  by (simp add: shown_def)

text \<open>A step of the outgoing queues, case by case.\<close>

definition rfile_ready :: "ffs \<Rightarrow> bool" where
  "rfile_ready f \<longleftrightarrow> msel_ffs_rfile_get_status f = FFS_CHANNEL_LAST_SUCC \<or> msel_ffs_rfile_get_status f = FFS_CHANNEL_READY"

definition show_packet :: "u16 \<Rightarrow> bytes \<Rightarrow> ffs \<Rightarrow> ffs" where
  "show_packet s d f = f\<lparr>rfile_nonce := next_nonce (rfile_nonce f), ffs_send_data := be_bytes 2 s @ [next_nonce (rfile_nonce f), 0] @ d\<rparr>"

definition announce_data :: "u32 \<Rightarrow> bytes" where
  "announce_data v = (replicate FFS_DATA_SIZE 0)[0 := ucast (drop_bit 8 v), 1 := ucast v]"

lemma rfile_write:
  assumes "length (ffs_send_data f) = FFS_HDR_SIZE + FFS_DATA_SIZE" "packet_ok p"
  shows "msel_ffs_rfile_write p f = (if rfile_ready f then (MSEL_OK, show_packet (pkt_session p) (pkt_data p) f) else (MSEL_EAGAIN, f))"
  using rfile_write_eq [OF assms(1), of p] assms(2) by (auto simp: packet_ok_def rfile_ready_def show_packet_def)

lemma rfile_ready_cong [simp]:
  "rfile_ready (f\<lparr>rfile_empty := b\<rparr>) = rfile_ready f" "rfile_ready (f\<lparr>s0 := p\<rparr>) = rfile_ready f"
  by (simp_all add: rfile_ready_def msel_ffs_rfile_get_status_def arch_ffs_rfile_get_status_def)

lemma step_ctrl:
  assumes "length (ffs_send_data f) = FFS_HDR_SIZE + FFS_DATA_SIZE" "cb_size (s0_rq f) > 0"
  shows "\<exists>p. msel_rfile_step_queue f =
    (if rfile_ready f then (show_packet 0 (announce_data (cbuf_front (s0_rq f))) f)\<lparr>rfile_empty := False, s0 := p, s0_rq := CBUF_REM (s0_rq f)\<rparr>
     else f\<lparr>rfile_empty := False, s0 := p\<rparr>)"
proof -
  define p where "p = zero_packet\<lparr>pkt_data := announce_data (cbuf_front (s0_rq f))\<rparr>"
  have "packet_ok p" "pkt_session p = 0" "pkt_data p = announce_data (cbuf_front (s0_rq f))"
    by (simp_all add: p_def packet_ok_def announce_data_def)
  moreover have "zero_packet\<lparr>pkt_data := (pkt_data zero_packet)[0 := ucast (drop_bit 8 (cbuf_front (s0_rq f))), 1 := ucast (cbuf_front (s0_rq f))]\<rparr> = p"
    by (simp add: p_def zero_packet_def announce_data_def)
  ultimately show ?thesis using assms
    by (intro exI [of _ p]) (simp add: msel_rfile_step_queue_def Let_def rfile_write show_packet_def)
qed

lemma step_packet:
  assumes "length (ffs_send_data f) = FFS_HDR_SIZE + FFS_DATA_SIZE" "cb_size (s0_rq f) = 0" "cb_size (rq f) > 0" "packet_ok (cbuf_front (rq f))"
  shows "msel_rfile_step_queue f =
    (if rfile_ready f then (show_packet (pkt_session (cbuf_front (rq f))) (pkt_data (cbuf_front (rq f))) f)\<lparr>rfile_empty := False, rq := CBUF_REM (rq f)\<rparr>
     else f\<lparr>rfile_empty := False\<rparr>)"
  using assms by (simp add: msel_rfile_step_queue_def Let_def rfile_write show_packet_def)

lemma step_none:
  assumes "length (ffs_send_data f) = FFS_HDR_SIZE + FFS_DATA_SIZE" "cb_size (s0_rq f) = 0" "cb_size (rq f) = 0"
  shows "msel_rfile_step_queue f = f\<lparr>rfile_empty := True, ffs_send_data := replicate (FFS_HDR_SIZE + FFS_DATA_SIZE) 0\<rparr>"
  using assms by (simp add: msel_rfile_step_queue_def Let_def msel_ffs_rfile_clear_def arch_ffs_rfile_clear_def)

lemma take2_announce: "take 2 (announce_data v) = [ucast (drop_bit 8 v), ucast v]"
  by (simp add: announce_data_def numeral_2_eq_2 take_Suc_conv_app_nth)

lemma show_packet_simps [simp]:
  "rfile_nonce (show_packet s d f) = next_nonce (rfile_nonce f)" "wq (show_packet s d f) = wq f" "rq (show_packet s d f) = rq f"
  "s0_rq (show_packet s d f) = s0_rq f" "num_sessions (show_packet s d f) = num_sessions f"
  by (simp_all add: show_packet_def)

lemma show_packet_img:
  assumes "length d = FFS_DATA_SIZE"
  shows "img_session (ffs_send_data (show_packet s d f)) = s" "img_data (ffs_send_data (show_packet s d f)) = d"
    "length (ffs_send_data (show_packet s d f)) = FFS_HDR_SIZE + FFS_DATA_SIZE"
  using img_of_header [OF assms, of s] assms by (simp_all add: show_packet_def)

lemma step_queue:
  assumes "ffs_wf f"
  shows "ffs_ok (msel_rfile_step_queue f) \<and> outgoing [] [] f (msel_rfile_step_queue f)
    \<and> wq (msel_rfile_step_queue f) = wq f \<and> num_sessions (msel_rfile_step_queue f) = num_sessions f"
proof -
  have len: "length (ffs_send_data f) = FFS_HDR_SIZE + FFS_DATA_SIZE" and n: "rfile_nonce f \<noteq> 0"
    and b: "cbuf_ok (rq f)" "cbuf_ok (s0_rq f)" using assms by (simp_all add: ffs_wf_def)
  consider (ctrl) "cb_size (s0_rq f) > 0" | (pkt) "cb_size (s0_rq f) = 0" "cb_size (rq f) > 0"
    | (none) "cb_size (s0_rq f) = 0" "cb_size (rq f) = 0" by auto
  then show ?thesis
  proof cases
    case ctrl
    have l: "length (announce_data v) = FFS_DATA_SIZE" for v by (simp add: announce_data_def)
    show ?thesis using step_ctrl [OF len ctrl] cb.rem_ok [OF b(2) ctrl] cb.rem_contents [OF b(2) ctrl] assms n ctrl
      by (cases "rfile_ready f") (auto simp: ffs_ok_def ffs_wf_def outgoing_def out_packets_def out_announce_def show_packet_img [OF l]
          next_nonce img_announce_def take2_announce be_num2)
  next
    case pkt
    have p: "packet_ok (cbuf_front (rq f))" "pkt_session (cbuf_front (rq f)) \<noteq> 0"
      using cb.rem_contents [OF b(1) pkt(2)] assms by (auto simp: ffs_wf_def)
    then have l: "length (pkt_data (cbuf_front (rq f))) = FFS_DATA_SIZE" by (simp add: packet_ok_def)
    show ?thesis using step_packet [OF len pkt p(1)] cb.rem_ok [OF b(1) pkt(2)] cb.rem_contents [OF b(1) pkt(2)] assms n pkt p(2)
      by (cases "rfile_ready f") (auto simp: ffs_ok_def ffs_wf_def outgoing_def out_packets_def out_announce_def show_packet_img [OF l]
          next_nonce img_packet_def)
  next
    case none
    then show ?thesis using step_none [OF len none] assms
      by (auto simp: ffs_ok_def ffs_wf_def outgoing_def out_packets_def out_announce_def)
  qed
qed

section \<open>Session numbers\<close>

lemma unat_u16_of_nat: "n \<le> 6 \<Longrightarrow> unat (of_nat n :: u16) = n"
  by (simp add: unsigned_of_nat take_bit_nat_eq_self)

lemma first_sid:
  assumes "length qs = 5"
  shows "0 < first_sid P qs" "unat (first_sid P qs) = length (takeWhile (\<lambda>q. \<not> P q) qs) + 1"
    "first_sid P qs \<le> MAX_NUM_SESSIONS \<longleftrightarrow> (\<exists>q \<in> set qs. P q)"
    "first_sid P qs \<le> MAX_NUM_SESSIONS \<Longrightarrow> P (qs ! (unat (first_sid P qs) - 1))"
    "j < unat (first_sid P qs) - 1 \<Longrightarrow> \<not> P (qs ! j)"
proof -
  let ?k = "length (takeWhile (\<lambda>q. \<not> P q) qs)"
  have k: "?k \<le> 5" using length_takeWhile_le [of "\<lambda>q. \<not> P q" qs] assms by simp
  then show u: "unat (first_sid P qs) = ?k + 1" unfolding first_sid_def by (intro unat_u16_of_nat) simp
  then show "0 < first_sid P qs" by (simp add: word_less_nat_alt)
  have le: "first_sid P qs \<le> 5 \<longleftrightarrow> ?k < 5" using u by (simp add: word_le_nat_alt) arith
  have "?k < length qs \<longleftrightarrow> (\<exists>q \<in> set qs. P q)"
    by (induction qs) auto
  then show "first_sid P qs \<le> 5 \<longleftrightarrow> (\<exists>q \<in> set qs. P q)" using le assms by simp
  show "P (qs ! (unat (first_sid P qs) - 1))" if "first_sid P qs \<le> 5"
    using that nth_length_takeWhile [of "\<lambda>q. \<not> P q" qs] le assms u by simp
  show "\<not> P (qs ! j)" if "j < unat (first_sid P qs) - 1"
    using that u takeWhile_nth [of j "\<lambda>q. \<not> P q" qs] nth_mem [of j "takeWhile (\<lambda>q. \<not> P q) qs"] set_takeWhileD [of _ "\<lambda>q. \<not> P q" qs]
    by auto
qed

definition sid_ok :: "u16 \<Rightarrow> bool" where
  "sid_ok sid \<longleftrightarrow> sid \<noteq> 0 \<and> sid \<le> MAX_NUM_SESSIONS"

lemma sid_ok_less: "sid_ok sid \<Longrightarrow> unat sid - 1 < 5"
  by (simp add: sid_ok_def word_le_nat_alt) arith

lemma sid_ok_inject: "sid_ok a \<Longrightarrow> sid_ok b \<Longrightarrow> unat a - 1 = unat b - 1 \<longleftrightarrow> a = b"
  by (auto simp: sid_ok_def word_unat_eq_iff)

lemma wq_1_upd:
  "length (wq f) = 5 \<Longrightarrow> sid_ok a \<Longrightarrow> sid_ok b \<Longrightarrow> wq_1 (upd_wq_1 a g f) b = (if a = b then g (wq_1 f a) else wq_1 f b)"
  using sid_ok_less [of a] sid_ok_inject [of a b] by (auto simp: wq_1_def upd_wq_1_def)

lemma upd_wq_1_simps [simp]:
  "rq (upd_wq_1 a g f) = rq f" "s0_rq (upd_wq_1 a g f) = s0_rq f" "rfile_empty (upd_wq_1 a g f) = rfile_empty f"
  "rfile_nonce (upd_wq_1 a g f) = rfile_nonce f" "ffs_send_data (upd_wq_1 a g f) = ffs_send_data f"
  "num_sessions (upd_wq_1 a g f) = num_sessions f" "s0 (upd_wq_1 a g f) = s0 f" "length (wq (upd_wq_1 a g f)) = length (wq f)"
  "curr_wfile_status (upd_wq_1 a g f) = curr_wfile_status f" "retry_session_id (upd_wq_1 a g f) = retry_session_id f"
  by (simp_all add: upd_wq_1_def)

lemma set_status_simps [simp]:
  "rq (msel_ffs_wfile_set_status s n f) = rq f" "s0_rq (msel_ffs_wfile_set_status s n f) = s0_rq f"
  "rfile_empty (msel_ffs_wfile_set_status s n f) = rfile_empty f" "rfile_nonce (msel_ffs_wfile_set_status s n f) = rfile_nonce f"
  "ffs_send_data (msel_ffs_wfile_set_status s n f) = ffs_send_data f" "wq (msel_ffs_wfile_set_status s n f) = wq f"
  "num_sessions (msel_ffs_wfile_set_status s n f) = num_sessions f" "s0 (msel_ffs_wfile_set_status s n f) = s0 f"
  "curr_wfile_status (msel_ffs_wfile_set_status s n f) = s" "retry_session_id (msel_ffs_wfile_set_status s n f) = retry_session_id f"
  by (simp_all add: msel_ffs_wfile_set_status_def arch_ffs_wfile_set_status_def Let_def)

lemma clear_retry_simps [simp]:
  "rq (clear_retry_id f) = rq f" "s0_rq (clear_retry_id f) = s0_rq f" "rfile_empty (clear_retry_id f) = rfile_empty f"
  "rfile_nonce (clear_retry_id f) = rfile_nonce f" "ffs_send_data (clear_retry_id f) = ffs_send_data f"
  "num_sessions (clear_retry_id f) = num_sessions f" "wq (clear_retry_id f) = wq f" "wq_1 (clear_retry_id f) sid = wq_1 f sid"
  by (simp_all add: clear_retry_id_def wq_1_def)

text \<open>The number of active sessions when one queue changes.\<close>

lemma active_count_upd:
  assumes "i < length qs"
  shows "length (filter q_active (qs[i := q])) + of_bool (q_active (qs ! i)) = length (filter q_active qs) + of_bool (q_active q)"
proof -
  have "length (filter q_active qs) = length (filter q_active (take i qs @ qs ! i # drop (Suc i) qs))"
    using id_take_nth_drop [OF assms] by simp
  also have "\<dots> = length (filter q_active (take i qs)) + of_bool (q_active (qs ! i)) + length (filter q_active (drop (Suc i) qs))"
    by simp
  finally show ?thesis using assms by (simp add: upd_conv_take_nth_drop)
qed

lemma active_count_le: "length qs = 5 \<Longrightarrow> length (filter q_active qs) \<le> 5"
  using length_filter_le [of q_active qs] by simp

lemma inactive_exists: "length (filter q_active qs) < length qs \<Longrightarrow> \<exists>q \<in> set qs. \<not> q_active q"
  by (metis filter_True less_irrefl)

lemma wf_upd:
  assumes "ffs_wf f" "sid_ok sid" "cbuf_ok (q_buf (g (wq_1 f sid)))" "q_active (g (wq_1 f sid)) = q_active (wq_1 f sid)"
  shows "ffs_wf (upd_wq_1 sid g f)"
proof -
  have i: "unat sid - 1 < length (wq f)" using assms(1) sid_ok_less [OF assms(2)] by (simp add: ffs_wf_def)
  have "length (filter q_active (wq (upd_wq_1 sid g f))) = length (filter q_active (wq f))"
    using active_count_upd [OF i, of "g (wq_1 f sid)"] assms(4) by (simp add: upd_wq_1_def wq_1_def)
  then show ?thesis using assms(1,3) set_update_subset_insert [of "wq f" "unat sid - 1" "g (wq_1 f sid)"]
    by (auto simp: ffs_wf_def) (auto simp: upd_wq_1_def)
qed

section \<open>Events\<close>

text \<open>What can happen to the channel: the host writes a packet into the shared memory and raises the
  interrupt, the host acknowledges a packet, a task sends or receives, and the task state changes
  in any other way. An observation collects what an event moved: packets taken from the host,
  packets handed to a task with its session, packets accepted from a task, sessions started, and
  packets shown to the host.\<close>

datatype ffs_event = Host_Write bytes | Host_Ack u8 | Task_Send ffs_packet | Task_Recv ffs_packet | Os_Change os

record ffs_obs =
  obs_in :: "ffs_packet list"
  obs_recv :: "(u16 \<times> ffs_packet) list"
  obs_sent :: "(u16 \<times> bytes) list"
  obs_started :: "u16 list"
  obs_shown :: "bytes list"

definition no_obs :: ffs_obs where
  "no_obs = \<lparr>obs_in = [], obs_recv = [], obs_sent = [], obs_started = [], obs_shown = []\<rparr>"

definition host_packet :: "bytes \<Rightarrow> ffs \<Rightarrow> ffs_packet" where
  "host_packet raw f = snd (msel_ffs_wfile_read (s0 f) (f\<lparr>ffs_recv_data := raw\<rparr>))"

fun ffs_step :: "layout \<Rightarrow> get_task \<Rightarrow> ffs_event \<Rightarrow> os \<times> ffs \<Rightarrow> (ffs_obs \<times> os \<times> ffs) option" where
  "ffs_step lay get_task (Host_Write raw) (st, f) = do {
     let p = host_packet raw f;
     (st', f') \<leftarrow> FauxFileSystemWrite lay get_task st (f\<lparr>ffs_recv_data := raw\<rparr>);
     let ok = (curr_wfile_status f' = FFS_CHANNEL_LAST_SUCC);
     Some (no_obs\<lparr>obs_in := (if ok \<and> pkt_session p \<noteq> 0 then [p] else []),
       obs_started := (if ok \<and> pkt_session p = 0 \<and> pkt_data p ! 0 = CMD_START_SESSION then [first_sid (\<lambda>q. \<not> q_active q) (wq f)] else []),
       obs_shown := shown f f'\<rparr>, st', f') }"
| "ffs_step lay get_task (Host_Ack status) (st, f) =
     (let f' = FauxFileSystemReadAck (f\<lparr>ffs_send_ack := status\<rparr>) in Some (no_obs\<lparr>obs_shown := shown f f'\<rparr>, st, f'))"
| "ffs_step lay get_task (Task_Send p) (st, f) =
     (let (r, p', f') = msel_ffs_session_send st p f
      in Some (no_obs\<lparr>obs_sent := (if r = MSEL_OK then [(pkt_session p', pkt_data p')] else []), obs_shown := shown f f'\<rparr>, st, f'))"
| "ffs_step lay get_task (Task_Recv p) (st, f) =
     (let (r, p', f') = msel_ffs_session_recv st p f
      in Some (no_obs\<lparr>obs_recv := (if r = MSEL_OK then [(task_sid (msel_active_task_num st) f, p')] else [])\<rparr>, st, f'))"
| "ffs_step lay get_task (Os_Change st') (st, f) = Some (no_obs, st', f)"

fun ffs_run :: "layout \<Rightarrow> get_task \<Rightarrow> ffs_event list \<Rightarrow> os \<times> ffs \<Rightarrow> (ffs_obs list \<times> os \<times> ffs) option" where
  "ffs_run lay get_task [] s = Some ([], s)"
| "ffs_run lay get_task (e # es) s = do {
     (ob, s) \<leftarrow> ffs_step lay get_task e s;
     (obs, s) \<leftarrow> ffs_run lay get_task es s;
     Some (ob # obs, s) }"

text \<open>The buffers in shared memory and of the tasks have the sizes of the source.\<close>

fun event_ok :: "ffs_event \<Rightarrow> bool" where
  "event_ok (Host_Write raw) \<longleftrightarrow> length raw = FFS_HDR_SIZE + FFS_DATA_SIZE"
| "event_ok (Task_Send p) \<longleftrightarrow> packet_ok p"
| "event_ok e \<longleftrightarrow> True"

text \<open>The event is a request to kill the session.\<close>

definition kills :: "u16 \<Rightarrow> ffs_event \<Rightarrow> bool" where
  "kills sid e \<longleftrightarrow> (case e of
     Host_Write raw \<Rightarrow> be_num (take 2 raw) = 0 \<and> raw ! 4 = CMD_KILL_SESSION
       \<and> push_bit 8 (ucast (raw ! 5)) OR ucast (raw ! 6) = sid
   | _ \<Rightarrow> False)"

text \<open>What an event does to a session that is active and that it does not kill.\<close>

definition in_packets :: "ffs \<Rightarrow> u16 \<Rightarrow> ffs_packet list" where
  "in_packets f sid = cbuf_contents (q_buf (wq_1 f sid))"

definition keeps :: "u16 \<Rightarrow> ffs_packet list \<Rightarrow> (u16 \<times> ffs_packet) list \<Rightarrow> ffs \<Rightarrow> ffs \<Rightarrow> bool" where
  "keeps sid ins recvs f f' \<longleftrightarrow>
     q_active (wq_1 f' sid) \<and> q_task_id (wq_1 f' sid) = q_task_id (wq_1 f sid)
   \<and> in_packets f sid @ filter (\<lambda>p. pkt_session p = sid) ins = map snd (filter (\<lambda>r. fst r = sid) recvs) @ in_packets f' sid"

lemma keeps_same: "wq_1 f' sid = wq_1 f sid \<Longrightarrow> q_active (wq_1 f sid) \<Longrightarrow> keeps sid [] [] f f'"
  by (simp add: keeps_def in_packets_def)

lemma outgoing_refl: "rq f' = rq f \<Longrightarrow> s0_rq f' = s0_rq f \<Longrightarrow> rfile_nonce f' = rfile_nonce f \<Longrightarrow> outgoing [] [] f f'"
  by (simp add: outgoing_def out_packets_def out_announce_def)

lemma ok_cong:
  assumes "ffs_ok f" "rq f' = rq f" "s0_rq f' = s0_rq f" "rfile_nonce f' = rfile_nonce f" "wq f' = wq f"
    "num_sessions f' = num_sessions f" "ffs_send_data f' = ffs_send_data f" "rfile_empty f' = rfile_empty f"
  shows "ffs_ok f'"
  using assms by (simp add: ffs_ok_def ffs_wf_def)

lemma outgoing_cong:
  assumes "outgoing a b f f'" "rq g = rq f'" "s0_rq g = s0_rq f'" "rfile_nonce g = rfile_nonce f'" "ffs_send_data g = ffs_send_data f'"
  shows "outgoing a b f g"
  using assms by (simp add: outgoing_def out_packets_def out_announce_def shown_def)

lemma outgoing_cong1:
  assumes "outgoing a b f f'" "rq f = rq g" "s0_rq f = s0_rq g" "rfile_nonce f = rfile_nonce g"
  shows "outgoing a b g f'"
  using assms by (simp add: outgoing_def out_packets_def out_announce_def shown_def)

text \<open>Storing into an outgoing queue and stepping it when the channel is empty.\<close>

lemma outgoing_kick:
  assumes "ffs_wf g" "rfile_nonce g = rfile_nonce f" "out_packets g = out_packets f @ sent" "out_announce g = out_announce f @ started"
  defines "f' \<equiv> (if rfile_empty g then msel_rfile_step_queue g else g)"
  shows "ffs_ok f' \<and> outgoing sent started f f' \<and> wq f' = wq g"
proof (cases "rfile_empty g")
  case True
  then show ?thesis using step_queue [OF assms(1)] assms(2-4) by (simp add: f'_def outgoing_def shown_def)
next
  case False
  then show ?thesis using assms by (simp add: f'_def outgoing_def ffs_ok_def)
qed

definition effect :: "(u16 \<Rightarrow> bool) \<Rightarrow> ffs_obs \<Rightarrow> ffs \<Rightarrow> ffs \<Rightarrow> bool" where
  "effect K ob f f' \<longleftrightarrow> ffs_ok f' \<and> outgoing (obs_sent ob) (obs_started ob) f f'
     \<and> (\<forall>sid. sid_ok sid \<and> q_active (wq_1 f sid) \<and> \<not> K sid \<longrightarrow> keeps sid (obs_in ob) (obs_recv ob) f f')"

lemma no_obs_simps [simp]:
  "obs_in no_obs = []" "obs_recv no_obs = []" "obs_sent no_obs = []" "obs_started no_obs = []" "obs_shown no_obs = []"
  by (simp_all add: no_obs_def)

lemma effect_obs:
  assumes "effect K ob f f'" "obs_in ob' = obs_in ob" "obs_recv ob' = obs_recv ob" "obs_sent ob' = obs_sent ob" "obs_started ob' = obs_started ob"
  shows "effect K ob' f f'"
  using assms by (simp add: effect_def)

lemma effect_same:
  assumes "ffs_ok f" "rq f' = rq f" "s0_rq f' = s0_rq f" "rfile_nonce f' = rfile_nonce f" "wq f' = wq f"
    "num_sessions f' = num_sessions f" "ffs_send_data f' = ffs_send_data f" "rfile_empty f' = rfile_empty f"
    "obs_in ob = []" "obs_recv ob = []" "obs_sent ob = []" "obs_started ob = []"
  shows "effect K ob f f'"
proof -
  have "wq_1 f' sid = wq_1 f sid" for sid using assms(5) by (simp add: wq_1_def)
  then show ?thesis using ok_cong [OF assms(1-8)] outgoing_refl [OF assms(2-4)] assms(9-12)
    by (auto simp: effect_def intro: keeps_same)
qed

lemma effect_cong:
  assumes "effect K ob f f'" "rq g = rq f'" "s0_rq g = s0_rq f'" "rfile_nonce g = rfile_nonce f'" "wq g = wq f'"
    "num_sessions g = num_sessions f'" "ffs_send_data g = ffs_send_data f'" "rfile_empty g = rfile_empty f'"
  shows "effect K ob f g"
  using assms ok_cong [of f' g] outgoing_cong [of "obs_sent ob" "obs_started ob" f f' g]
  by (simp add: effect_def keeps_def in_packets_def wq_1_def)

lemma effect_cong1:
  assumes "effect K ob g f'" "rq g = rq f" "s0_rq g = s0_rq f" "rfile_nonce g = rfile_nonce f" "wq g = wq f"
  shows "effect K ob f f'"
  using assms outgoing_cong1 [of "obs_sent ob" "obs_started ob" g f' f]
  by (simp add: effect_def keeps_def in_packets_def wq_1_def)

lemma task_sid_ok: "length (wq f) = 5 \<Longrightarrow> task_sid t f \<le> MAX_NUM_SESSIONS \<Longrightarrow> sid_ok (task_sid t f)"
  using first_sid(1) [of "wq f" "\<lambda>q. q_active q \<and> q_task_id q = t"] by (auto simp: sid_ok_def task_sid_def)

lemma send_effect:
  assumes ok: "ffs_ok f" and p: "packet_ok p" and s: "msel_ffs_session_send st p f = (r, p', f')"
  shows "effect K (no_obs\<lparr>obs_sent := (if r = MSEL_OK then [(pkt_session p', pkt_data p')] else []), obs_shown := x\<rparr>) f f'"
proof -
  let ?sid = "task_sid (msel_active_task_num st) f" and ?p = "p\<lparr>pkt_session := task_sid (msel_active_task_num st) f\<rparr>"
  have len: "length (wq f) = 5" and b: "cbuf_ok (rq f)" using ok by (simp_all add: ffs_ok_def ffs_wf_def)
  show ?thesis
  proof (cases "?sid > 0 \<and> ?sid \<le> 5 \<and> cb_size (rq f) < 2")
    case False
    then have "r \<noteq> MSEL_OK" "f' = f" using s by (auto simp: msel_ffs_session_send_def Let_def split: if_splits)
    then show ?thesis using ok by (intro effect_same) simp_all
  next
    case True
    let ?g = "f\<lparr>rq := cbuf_put ?p (rq f)\<rparr>"
    have e: "r = MSEL_OK" "p' = ?p" "f' = (if rfile_empty ?g then msel_rfile_step_queue ?g else ?g)"
      using s True by (auto simp: msel_ffs_session_send_def Let_def)
    have "?sid \<noteq> 0" using True by auto
    then have "ffs_wf ?g" using ok p cb.put_ok [OF b, of ?p] cb.put_contents [OF b, of ?p] True
      by (auto simp: ffs_ok_def ffs_wf_def packet_ok_def)
    moreover have "out_packets ?g = out_packets f @ [(pkt_session ?p, pkt_data ?p)]" "out_announce ?g = out_announce f @ []"
      using cb.put_contents [OF b, of ?p] True by (simp_all add: out_packets_def out_announce_def)
    ultimately have "ffs_ok f' \<and> outgoing [(pkt_session ?p, pkt_data ?p)] [] f f' \<and> wq f' = wq ?g"
      unfolding e(3) by (intro outgoing_kick) simp_all
    then show ?thesis unfolding e(1,2) by (auto simp: effect_def wq_1_def intro: keeps_same)
  qed
qed

lemma recv_effect:
  assumes ok: "ffs_ok f" and s: "msel_ffs_session_recv st p f = (r, p', f')"
  shows "effect K (no_obs\<lparr>obs_recv := (if r = MSEL_OK then [(task_sid (msel_active_task_num st) f, p')] else [])\<rparr>) f f'"
proof -
  let ?sid = "task_sid (msel_active_task_num st) f"
  let ?b = "q_buf (wq_1 f ?sid)"
  have len: "length (wq f) = 5" using ok by (simp add: ffs_ok_def ffs_wf_def)
  show ?thesis
  proof (cases "?sid > 0 \<and> ?sid \<le> 5 \<and> cb_size ?b > 0")
    case False
    then have "r \<noteq> MSEL_OK" "f' = f" using s by (auto simp: msel_ffs_session_recv_def Let_def split: if_splits)
    then show ?thesis using ok by (intro effect_same) simp_all
  next
    case True
    let ?h = "if ?sid = retry_session_id f then clear_retry_id f else f"
    have e: "r = MSEL_OK" "p' = cbuf_front ?b" "f' = upd_wq_1 ?sid (\<lambda>q. q\<lparr>q_buf := CBUF_REM (q_buf q)\<rparr>) ?h"
      using s True by (auto simp: msel_ffs_session_recv_def Let_def)
    have sid: "sid_ok ?sid" using True by (intro task_sid_ok len) simp
    have h: "ffs_ok ?h" "wq ?h = wq f" "rq ?h = rq f" "s0_rq ?h = s0_rq f" "rfile_nonce ?h = rfile_nonce f" "rfile_empty ?h = rfile_empty f"
      using ok by (auto intro: ok_cong [OF ok])
    have b: "cbuf_ok ?b" using ok nth_mem [of "unat ?sid - 1" "wq f"] sid_ok_less [OF sid] by (auto simp: ffs_ok_def ffs_wf_def wq_1_def)
    have w: "wq_1 ?h sid = wq_1 f sid" for sid using h(2) by (simp add: wq_1_def)
    have "ffs_wf f'" unfolding e(3) using h(1) sid cb.rem_ok [OF b] True by (intro wf_upd) (simp_all add: ffs_ok_def w)
    then have "ffs_ok f'" using ok h by (simp add: ffs_ok_def e(3))
    moreover have "outgoing [] [] f f'" using h by (intro outgoing_refl) (simp_all add: e(3))
    moreover have "keeps sid [] [(?sid, p')] f f'" if "sid_ok sid" "q_active (wq_1 f sid)" for sid
      using that sid len h(2) cb.rem_contents [OF b] True
      by (auto simp: keeps_def e wq_1_upd w in_packets_def)
    ultimately show ?thesis using e(1) by (simp add: effect_def)
  qed
qed

lemma route_effect:
  assumes ok: "ffs_ok f" and p: "pkt_session (s0 f) = sid" "sid \<noteq> 0" and s: "route_packet sid f = (status, f')"
  shows "effect K (no_obs\<lparr>obs_in := (if status = FFS_CHANNEL_LAST_SUCC then [s0 f] else []), obs_shown := x\<rparr>) f f'"
proof -
  have len: "length (wq f) = 5" using ok by (simp add: ffs_ok_def ffs_wf_def)
  let ?b = "q_buf (wq_1 f sid)"
  show ?thesis
  proof (cases "sid \<le> 5 \<and> q_active (wq_1 f sid) \<and> cb_size ?b < 2")
    case False
    then have "status \<noteq> FFS_CHANNEL_LAST_SUCC" "f' = f \<or> f' = f\<lparr>retry_session_id := sid\<rparr>"
      using s p(2) by (auto simp: route_packet_def not_le not_less split: if_splits)
    then show ?thesis using ok by (intro effect_same) auto
  next
    case True
    have e: "status = FFS_CHANNEL_LAST_SUCC" "f' = upd_wq_1 sid (\<lambda>q. q\<lparr>q_buf := cbuf_put (s0 f) (q_buf q)\<rparr>) f"
      using s True p(2) by (auto simp: route_packet_def split: if_splits dest: leD)
    have sid: "sid_ok sid" using True p(2) by (simp add: sid_ok_def)
    have b: "cbuf_ok ?b" using ok nth_mem [of "unat sid - 1" "wq f"] sid_ok_less [OF sid] by (auto simp: ffs_ok_def ffs_wf_def wq_1_def)
    have "ffs_wf f'" unfolding e(2) using ok sid cb.put_ok [OF b] True by (intro wf_upd) (simp_all add: ffs_ok_def)
    then have "ffs_ok f'" using ok by (simp add: ffs_ok_def e(2))
    moreover have "outgoing [] [] f f'" by (intro outgoing_refl) (simp_all add: e(2))
    moreover have "keeps s' [s0 f] [] f f'" if "sid_ok s'" "q_active (wq_1 f s')" for s'
      using that sid len cb.put_contents [OF b] True p(1) by (auto simp: keeps_def e(2) wq_1_upd in_packets_def)
    ultimately show ?thesis using e(1) by (simp add: effect_def)
  qed
qed

lemma end_session_effect:
  assumes ok: "ffs_ok f" and sid: "sid_ok sid" and a: "q_active (wq_1 f sid)" and e: "end_session sid st f = Some (st', f')"
  shows "effect (\<lambda>s. s = sid) (no_obs\<lparr>obs_shown := x\<rparr>) f f' \<and> \<not> q_active (wq_1 f' sid)"
proof -
  have len: "length (wq f) = 5" using ok by (simp add: ffs_ok_def ffs_wf_def)
  define g where "g = (upd_wq_1 sid (\<lambda>q. zero_queue) f)\<lparr>num_sessions := num_sessions f - 1\<rparr>"
  have f': "f' = g \<or> f' = clear_retry_id g"
    using e by (auto simp: end_session_def g_def Let_def split: bind_splits if_splits)
  have i: "unat sid - 1 < length (wq f)" using sid_ok_less [OF sid] len by simp
  have c: "Suc (length (filter q_active (wq g))) = length (filter q_active (wq f))"
    using active_count_upd [OF i, of zero_queue] a by (simp add: g_def upd_wq_1_def wq_1_def zero_queue_def)
  have "unat (num_sessions f) = length (filter q_active (wq f))" using ok by (simp add: ffs_ok_def ffs_wf_def)
  moreover from this c have "num_sessions f \<noteq> 0" by auto
  ultimately have n: "unat (num_sessions g) = length (filter q_active (wq g))"
    using c by (simp add: g_def unat_minus_one)
  have "cbuf_ok (q_buf zero_queue)" by (simp add: zero_queue_def cbuf_ok_def)
  then have "\<forall>q \<in> set (wq g). cbuf_ok (q_buf q)"
    using ok set_update_subset_insert [of "wq f" "unat sid - 1" zero_queue] by (auto simp: ffs_ok_def ffs_wf_def g_def upd_wq_1_def)
  then have g: "ffs_ok g" using ok n by (simp add: ffs_ok_def ffs_wf_def g_def)
  have w: "wq_1 g s = (if sid = s then zero_queue else wq_1 f s)" if "sid_ok s" for s
    using wq_1_upd [OF len sid that, of "\<lambda>q. zero_queue"] by (simp add: g_def wq_1_def)
  have "outgoing [] [] f g" by (rule outgoing_refl) (simp_all add: g_def)
  then have "effect (\<lambda>s. s = sid) (no_obs\<lparr>obs_shown := x\<rparr>) f g" using g w by (auto simp: effect_def intro: keeps_same)
  moreover have "\<not> q_active (wq_1 g sid)" using w [OF sid] by (simp add: zero_queue_def)
  ultimately show ?thesis using f' effect_cong [of "\<lambda>s. s = sid" "no_obs\<lparr>obs_shown := x\<rparr>" f g "clear_retry_id g"] by auto
qed

lemma kill_effect:
  assumes ok: "ffs_ok f" and s: "kill_session st f = Some (status, st', f')"
  shows "effect (\<lambda>s. s = kill_sid (s0 f)) (no_obs\<lparr>obs_shown := x\<rparr>) f f'"
proof (cases "kill_sid (s0 f) > 0 \<and> kill_sid (s0 f) \<le> 5 \<and> q_active (wq_1 f (kill_sid (s0 f)))")
  case True
  then have "sid_ok (kill_sid (s0 f))" by (auto simp: sid_ok_def)
  moreover obtain st1 where "end_session (kill_sid (s0 f)) st f = Some (st1, f')"
    using s True by (auto simp: kill_session_def Let_def split: bind_splits)
  ultimately show ?thesis using end_session_effect [OF ok] True by blast
next
  case False
  then have "f' = f" using s by (auto simp: kill_session_def Let_def)
  then show ?thesis using ok by (intro effect_same) simp_all
qed

lemma init_session:
  assumes ok: "ffs_wf f" and n: "num_sessions f < MAX_NUM_SESSIONS" and i: "init_session t e p f = (sid, f')"
  shows "sid = first_sid (\<lambda>q. \<not> q_active q) (wq f) \<and> sid_ok sid \<and> \<not> q_active (wq_1 f sid) \<and> ffs_wf f'
    \<and> rq f' = rq f \<and> s0_rq f' = s0_rq f \<and> rfile_nonce f' = rfile_nonce f \<and> rfile_empty f' = rfile_empty f
    \<and> q_active (wq_1 f' sid) \<and> q_task_id (wq_1 f' sid) = t \<and> in_packets f' sid = []
    \<and> (\<forall>s. sid_ok s \<and> s \<noteq> sid \<longrightarrow> wq_1 f' s = wq_1 f s)"
proof -
  have len: "length (wq f) = 5" and c: "unat (num_sessions f) = length (filter q_active (wq f))" using ok by (simp_all add: ffs_wf_def)
  define g :: "ffs_queue \<Rightarrow> ffs_queue" where "g = (\<lambda>q. q\<lparr>q_buf := cbuf_reset (q_buf q), q_task_id := t, q_endpoint := e, q_port := p, q_active := True\<rparr>)"
  have sid: "sid = first_sid (\<lambda>q. \<not> q_active q) (wq f)" and f': "f' = (upd_wq_1 sid g f)\<lparr>num_sessions := num_sessions f + 1\<rparr>"
    using i by (auto simp: init_session_def Let_def g_def)
  have n5: "unat (num_sessions f) < 5" using n by (simp add: word_less_nat_alt)
  have "\<exists>q \<in> set (wq f). \<not> q_active q" using n5 c len by (intro inactive_exists) simp
  then have le: "sid \<le> 5" using first_sid(3) [OF len] by (simp add: sid)
  then have so: "sid_ok sid" using first_sid(1) [OF len, of "\<lambda>q. \<not> q_active q"] by (auto simp: sid_ok_def sid)
  have na: "\<not> q_active (wq_1 f sid)" using first_sid(4) [OF len, of "\<lambda>q. \<not> q_active q"] le by (simp add: sid wq_1_def)
  have idx: "unat sid - 1 < length (wq f)" using sid_ok_less [OF so] len by simp
  have "length (filter q_active (wq f')) = Suc (length (filter q_active (wq f)))"
    using active_count_upd [OF idx, of "g (wq_1 f sid)"] na by (simp add: f' upd_wq_1_def wq_1_def g_def)
  moreover have "unat (num_sessions f + 1) = Suc (unat (num_sessions f))" using n5 by (simp add: unat_word_ariths)
  ultimately have n': "unat (num_sessions f') = length (filter q_active (wq f'))" using c by (simp add: f')
  have "cbuf_ok (q_buf (wq_1 f sid))" using ok nth_mem [OF idx] by (simp add: ffs_wf_def wq_1_def)
  then have b: "cbuf_ok (q_buf (g (wq_1 f sid)))" by (simp add: g_def cbuf_reset_ok(1) cbuf_ok_def [of "q_buf (wq_1 f sid)"])
  then have "\<forall>q \<in> set (wq f'). cbuf_ok (q_buf q)"
    using ok set_update_subset_insert [of "wq f" "unat sid - 1" "g (wq_1 f sid)"] by (auto simp: ffs_wf_def f' upd_wq_1_def)
  then have wf: "ffs_wf f'" using ok n' by (simp add: ffs_wf_def f')
  have w: "wq_1 f' s = (if sid = s then g (wq_1 f sid) else wq_1 f s)" if "sid_ok s" for s
    using wq_1_upd [OF len so that, of g] by (simp add: f' wq_1_def)
  show ?thesis using wf so na sid w w [OF so] by (simp add: f' g_def in_packets_def cbuf_reset_ok(2))
qed

lemma start_effect:
  assumes ok: "ffs_ok f" and s: "start_session lay get_task st f = Some (status, st', f')"
  shows "effect K (no_obs\<lparr>obs_started := (if status = FFS_CHANNEL_LAST_SUCC then [first_sid (\<lambda>q. \<not> q_active q) (wq f)] else []), obs_shown := x\<rparr>) f f'"
proof (cases "status = FFS_CHANNEL_LAST_SUCC")
  case False
  then have "f' = f" using s by (auto simp: start_session_def Let_def split: if_splits bind_splits prod.splits)
  then show ?thesis using ok False by (intro effect_same) simp_all
next
  case True
  have b: "cbuf_ok (s0_rq f)" and wf: "ffs_wf f" using ok by (simp_all add: ffs_ok_def ffs_wf_def)
  obtain t e p sid g where n: "cb_size (s0_rq f) < 2" "num_sessions f < 5" and i: "init_session t e p f = (sid, g)"
    and f': "f' = (let f = g\<lparr>s0_rq := cbuf_put (ucast sid) (s0_rq g)\<rparr> in if rfile_empty f then msel_rfile_step_queue f else f)"
    using s True by (auto simp: start_session_def Let_def not_le split: if_splits bind_splits prod.splits)
  note g = init_session [OF wf n(2) i]
  let ?h = "g\<lparr>s0_rq := cbuf_put (ucast sid) (s0_rq g)\<rparr>"
  have u: "ucast (ucast sid :: u32) = sid" by (simp add: bit_eq_iff bit_simps)
  have "ffs_wf ?h" using g cb.put_ok [OF b n(1)] by (auto simp: ffs_wf_def)
  moreover have "out_packets ?h = out_packets f @ []" "out_announce ?h = out_announce f @ [sid]"
    using g cb.put_contents [OF b n(1)] u by (simp_all add: out_packets_def out_announce_def)
  ultimately have "ffs_ok f' \<and> outgoing [] [sid] f f' \<and> wq f' = wq ?h"
    using g unfolding f' Let_def by (intro outgoing_kick) simp_all
  moreover from this have "wq_1 f' s = wq_1 f s" if "sid_ok s" "q_active (wq_1 f s)" for s
    using g that by (auto simp: wq_1_def)
  ultimately show ?thesis using g True by (auto simp: effect_def intro: keeps_same)
qed

lemma host_packet:
  assumes "length raw = FFS_HDR_SIZE + FFS_DATA_SIZE"
  shows "pkt_session (host_packet raw f) = of_nat (be_num (take 2 raw))" "pkt_data (host_packet raw f) = drop FFS_HDR_SIZE raw"
    "pkt_session (host_packet raw f) = 0 \<longleftrightarrow> be_num (take 2 raw) = 0"
proof -
  show s: "pkt_session (host_packet raw f) = of_nat (be_num (take 2 raw))" "pkt_data (host_packet raw f) = drop FFS_HDR_SIZE raw"
    using assms by (simp_all add: host_packet_def msel_ffs_wfile_read_def arch_ffs_wfile_read_def)
  have "length (take 2 raw) = 2" using assms by simp
  then have u: "unat (of_nat (be_num (take 2 raw)) :: u16) = be_num (take 2 raw)"
    by (intro unat_of_bytes [OF _ be_num_less]) simp
  show "pkt_session (host_packet raw f) = 0 \<longleftrightarrow> be_num (take 2 raw) = 0"
    unfolding s(1) by (subst unat_eq_0 [symmetric]) (simp only: u)
qed

text \<open>The state in which a packet from the host is dispatched.\<close>

definition host_state :: "bytes \<Rightarrow> ffs \<Rightarrow> ffs" where
  "host_state raw f = msel_ffs_wfile_set_status FFS_CHANNEL_READY (pkt_nonce (host_packet raw f)) (f\<lparr>ffs_recv_data := raw, s0 := host_packet raw f\<rparr>)"

lemma host_state:
  assumes "ffs_ok f"
  shows "ffs_ok (host_state raw f)" "s0 (host_state raw f) = host_packet raw f" "wq (host_state raw f) = wq f" "rq (host_state raw f) = rq f"
    "s0_rq (host_state raw f) = s0_rq f" "rfile_nonce (host_state raw f) = rfile_nonce f"
    "rfile_empty (host_state raw f) = rfile_empty f" "ffs_send_data (host_state raw f) = ffs_send_data f"
  by (rule ok_cong [OF assms]) (simp_all add: host_state_def)

lemma host_write_eq:
  "FauxFileSystemWrite lay get_task st (f\<lparr>ffs_recv_data := raw\<rparr>) = do {
     (status, st, h) \<leftarrow> dispatch_packet lay get_task st (host_state raw f);
     let h = msel_ffs_wfile_set_status status (pkt_nonce (host_packet raw f)) h;
     Some (st, h\<lparr>ffs_ctrl := ffs_ctrl h OR 1\<rparr>) }"
  by (simp add: FauxFileSystemWrite_def msel_wfile_get_packet_def Let_def host_state_def host_packet_def case_prod_beta
      split: bind_splits)

lemma write_effect:
  assumes ok: "ffs_ok f" and l: "length raw = FFS_HDR_SIZE + FFS_DATA_SIZE"
    and s: "ffs_step lay get_task (Host_Write raw) (st, f) = Some (ob, st', f')"
  shows "effect (\<lambda>s. kills s (Host_Write raw)) ob f f'"
proof -
  define p where "p = host_packet raw f"
  define g where "g = host_state raw f"
  have g: "ffs_ok g" "s0 g = p" "wq g = wq f" "rq g = rq f" "s0_rq g = s0_rq f" "rfile_nonce g = rfile_nonce f"
    using host_state [OF ok, of raw] by (simp_all add: g_def p_def)
  obtain status h where h: "dispatch_packet lay get_task st g = Some (status, st', h)"
    and f': "f' = (msel_ffs_wfile_set_status status (pkt_nonce p) h)\<lparr>ffs_ctrl := ffs_ctrl (msel_ffs_wfile_set_status status (pkt_nonce p) h) OR 1\<rparr>"
    and ob: "ob = no_obs\<lparr>obs_in := (if status = FFS_CHANNEL_LAST_SUCC \<and> pkt_session p \<noteq> 0 then [p] else []),
       obs_started := (if status = FFS_CHANNEL_LAST_SUCC \<and> pkt_session p = 0 \<and> pkt_data p ! 0 = CMD_START_SESSION then [first_sid (\<lambda>q. \<not> q_active q) (wq f)] else []),
       obs_shown := shown f f'\<rparr>"
    using s by (auto simp: host_write_eq Let_def p_def [symmetric] g_def [symmetric] split: bind_splits)
  note h = h [unfolded dispatch_packet_def Let_def g(2)]
  have k: "pkt_session p = 0 \<longleftrightarrow> be_num (take 2 raw) = 0" "pkt_data p ! j = raw ! (4 + j)" for j
    using host_packet [OF l] by (simp_all add: p_def l)
  have "effect (\<lambda>s. kills s (Host_Write raw)) ob g h"
  proof -
    consider (start) "pkt_session p = 0" "pkt_data p ! 0 = 1" | (kill) "pkt_session p = 0" "pkt_data p ! 0 = 2"
      | (input) "pkt_session p = 0" "pkt_data p ! 0 \<noteq> 1" "pkt_data p ! 0 \<noteq> 2" | (route) "pkt_session p \<noteq> 0" by auto
    then show ?thesis
    proof cases
      case start
      then have "start_session lay get_task st g = Some (status, st', h)" using h by simp
      then show ?thesis by (rule effect_obs [OF start_effect [OF g(1)]]) (simp_all add: ob start g(3))
    next
      case kill
      then have "(\<lambda>s. kills s (Host_Write raw)) = (\<lambda>s. s = kill_sid (s0 g))"
        using k by (auto simp: kills_def kill_sid_def g(2) fun_eq_iff)
      moreover have "kill_session st g = Some (status, st', h)" using h kill by simp
      ultimately show ?thesis using effect_obs [OF kill_effect [OF g(1)]] by (simp add: ob kill)
    next
      case input
      then show ?thesis using h g(1) by (intro effect_same) (auto simp: ob)
    next
      case route
      then have r: "route_packet (pkt_session p) g = (status, h)" using h by (simp split: prod.splits)
      have "pkt_session (s0 g) = pkt_session p" by (simp add: g(2))
      from effect_obs [OF route_effect [OF g(1) this route r]] show ?thesis by (simp add: ob g(2) route)
    qed
  qed
  then have "effect (\<lambda>s. kills s (Host_Write raw)) ob f h" by (rule effect_cong1) (simp_all add: g)
  then show ?thesis unfolding f' by (rule effect_cong) simp_all
qed

lemma ack_effect:
  assumes ok: "ffs_ok f"
  shows "effect K (no_obs\<lparr>obs_shown := x\<rparr>) f (FauxFileSystemReadAck (f\<lparr>ffs_send_ack := status\<rparr>))"
proof -
  define g where "g = f\<lparr>ffs_send_ack := status, hasSeenReadAck := True\<rparr>"
  define h where "h = (if msel_ffs_rfile_get_status g = FFS_CHANNEL_READY \<or> msel_ffs_rfile_get_status g = FFS_CHANNEL_LAST_SUCC
    then msel_rfile_step_queue g else g)"
  have g: "ffs_ok g" by (rule ok_cong [OF ok]) (simp_all add: g_def)
  have "effect K (no_obs\<lparr>obs_shown := x\<rparr>) g h"
  proof (cases "h = g")
    case True
    then show ?thesis using g by (intro effect_same) simp_all
  next
    case False
    then have "h = msel_rfile_step_queue g" by (auto simp: h_def)
    then show ?thesis using step_queue [of g] g by (auto simp: effect_def ffs_ok_def wq_1_def intro: keeps_same)
  qed
  then have "effect K (no_obs\<lparr>obs_shown := x\<rparr>) f h" by (rule effect_cong1) (simp_all add: g_def)
  moreover have "FauxFileSystemReadAck (f\<lparr>ffs_send_ack := status\<rparr>) = h\<lparr>ffs_ctrl := ffs_ctrl h OR 2\<rparr>"
    unfolding FauxFileSystemReadAck_def Let_def h_def g_def by simp
  ultimately show ?thesis by (simp add: effect_cong)
qed

lemma step_effect:
  assumes ok: "ffs_ok f" and e: "event_ok e" and s: "ffs_step lay get_task e (st, f) = Some (ob, st', f')"
  shows "effect (\<lambda>sid. kills sid e) ob f f' \<and> obs_shown ob = shown f f'"
proof (cases e)
  case (Host_Write raw)
  then show ?thesis using write_effect [OF ok, of raw lay get_task st ob st' f'] e s
    by (auto simp: Let_def split: bind_splits)
next
  case (Host_Ack status)
  then show ?thesis using s ack_effect [OF ok] by (auto simp: Let_def)
next
  case (Task_Send p)
  obtain r p' g where g: "msel_ffs_session_send st p f = (r, p', g)" using prod_cases3 by blast
  then show ?thesis using s e Task_Send send_effect [OF ok _ g] by (auto simp: Let_def)
next
  case (Task_Recv p)
  obtain r p' g where g: "msel_ffs_session_recv st p f = (r, p', g)" using prod_cases3 by blast
  moreover have "shown f g = []" using g by (auto simp: msel_ffs_session_recv_def Let_def split: if_splits)
  ultimately show ?thesis using s e Task_Recv recv_effect [OF ok g] by (auto simp: Let_def)
next
  case (Os_Change st1)
  then show ?thesis using s ok by (auto intro: effect_same)
qed

lemma queue_trans: "a @ i = r @ b \<Longrightarrow> b @ j = s @ c \<Longrightarrow> a @ i @ j = r @ s @ c"
  by (metis append.assoc)

lemma keeps_trans:
  "keeps sid a b f g \<Longrightarrow> keeps sid c d g h \<Longrightarrow> keeps sid (a @ c) (b @ d) f h"
  by (auto simp: keeps_def intro: queue_trans)

lemma run_effect:
  assumes "ffs_run lay get_task es (st, f) = Some (obs, st', f')" "ffs_ok f" "list_all event_ok es"
  shows "ffs_ok f'
    \<and> out_packets f @ concat (map obs_sent obs) = map img_packet (filter (\<lambda>i. img_session i \<noteq> 0) (concat (map obs_shown obs))) @ out_packets f'
    \<and> out_announce f @ concat (map obs_started obs) = map img_announce (filter (\<lambda>i. img_session i = 0) (concat (map obs_shown obs))) @ out_announce f'
    \<and> (\<forall>sid. sid_ok sid \<and> q_active (wq_1 f sid) \<and> list_all (\<lambda>e. \<not> kills sid e) es \<longrightarrow>
         keeps sid (concat (map obs_in obs)) (concat (map obs_recv obs)) f f')"
  using assms
proof (induction es arbitrary: st f obs)
  case Nil
  then show ?case by (auto intro: keeps_same)
next
  case (Cons e es)
  obtain ob st1 f1 obs1 where s: "ffs_step lay get_task e (st, f) = Some (ob, st1, f1)"
    and r: "ffs_run lay get_task es (st1, f1) = Some (obs1, st', f')" and obs: "obs = ob # obs1"
    using Cons.prems(1) by (auto split: bind_splits)
  note e = step_effect [OF Cons.prems(2) _ s]
  have e: "effect (\<lambda>sid. kills sid e) ob f f1" "obs_shown ob = shown f f1" using e Cons.prems(3) by simp_all
  have ok1: "ffs_ok f1" using e(1) by (simp add: effect_def)
  note IH = Cons.IH [OF r ok1]
  have "keeps sid (concat (map obs_in obs)) (concat (map obs_recv obs)) f f'"
    if "sid_ok sid" "q_active (wq_1 f sid)" "list_all (\<lambda>e. \<not> kills sid e) (e # es)" for sid
  proof -
    have "keeps sid (obs_in ob) (obs_recv ob) f f1" using that e(1) by (simp add: effect_def)
    moreover from this have "keeps sid (concat (map obs_in obs1)) (concat (map obs_recv obs1)) f1 f'"
      using IH that Cons.prems(3) by (simp add: keeps_def [of sid "obs_in ob"])
    ultimately show ?thesis using keeps_trans by (simp add: obs)
  qed
  moreover have "outgoing (obs_sent ob) (obs_started ob) f f1" using e(1) by (simp add: effect_def)
  ultimately show ?case using IH e(2) Cons.prems(3) by (simp add: outgoing_def obs) (blast intro: queue_trans)
qed

section \<open>Initial state\<close>

lemma init_ffs_ok:
  assumes "length (cb_data (s0_rq f)) = MAX_QUEUE_SIZE" "num_sessions f = 0" "rfile_nonce f \<noteq> 0"
    "length (ffs_send_data f) = FFS_HDR_SIZE + FFS_DATA_SIZE"
  shows "ffs_ok (msel_init_ffs_queues f)"
proof -
  have "cbuf_ok (q_buf zero_queue)" "cbuf_contents (q_buf zero_queue) = []" "\<not> q_active zero_queue" "cb_size (q_buf zero_queue) = 0"
    by (simp_all add: zero_queue_def cbuf_ok_def cbuf_contents_def)
  then show ?thesis using assms cbuf_reset_ok [of "s0_rq f"]
    by (simp add: msel_init_ffs_queues_def Let_def ffs_ok_def ffs_wf_def msel_ffs_rfile_clear_def arch_ffs_rfile_clear_def)
      (simp add: cbuf_reset_def)
qed

text \<open>The state at reset, and one after initialisation with a session of task 1.\<close>

definition reset_ffs :: ffs where
  "reset_ffs = \<lparr>rfile_empty = False, rq = q_buf zero_queue, wq = replicate 5 zero_queue, s0 = zero_packet,
     s0_rq = \<lparr>cb_data = [0, 0], cb_size = 0, cb_start = 0, cb_end = 0\<rparr>, num_sessions = 0, retry_session_id = 6,
     hasSeenReadAck = False, curr_wfile_status = FFS_CHANNEL_READY, rfile_nonce = 1, ffs_recv_data = replicate 2048 0,
     ffs_send_data = replicate 2048 0, ffs_recv_ack = [0, 0], ffs_send_ack = 0, ffs_ctrl = 0\<rparr>"

definition demo_ffs :: ffs where
  "demo_ffs = snd (init_session 1 (Some []) 0 (msel_init_ffs_queues reset_ffs))"

lemma reset_init_ok: "ffs_ok (msel_init_ffs_queues reset_ffs)"
  by (rule init_ffs_ok) (simp_all add: reset_ffs_def)

lemma demo_ffs:
  "ffs_ok demo_ffs" "q_active (wq_1 demo_ffs 1)" "q_task_id (wq_1 demo_ffs 1) = 1" "in_packets demo_ffs 1 = []" "sid_ok 1"
  "task_sid 1 demo_ffs = 1" "num_sessions demo_ffs = 1" "cb_size (s0_rq demo_ffs) = 0"
  "sid_ok s \<Longrightarrow> s \<noteq> 1 \<Longrightarrow> wq_1 demo_ffs s = zero_queue"
proof -
  let ?f = "msel_init_ffs_queues reset_ffs"
  have w: "wq ?f = replicate 5 zero_queue" "num_sessions ?f = 0" "rfile_empty ?f" "cb_size (rq ?f) = 0" "cb_size (s0_rq ?f) = 0"
    by (simp_all add: msel_init_ffs_queues_def Let_def reset_ffs_def msel_ffs_rfile_clear_def arch_ffs_rfile_clear_def zero_queue_def cbuf_reset_def)
  have s: "first_sid (\<lambda>q. \<not> q_active q) (wq ?f) = 1" by (simp add: w first_sid_def zero_queue_def numeral_eq_Suc)
  have i: "init_session 1 (Some []) 0 ?f = (first_sid (\<lambda>q. \<not> q_active q) (wq ?f), demo_ffs)"
    unfolding demo_ffs_def by (simp add: init_session_def Let_def)
  have wf: "ffs_wf ?f" using reset_init_ok by (simp add: ffs_ok_def)
  note d = init_session [OF wf _ i [unfolded s]]
  have d: "ffs_wf demo_ffs" "rq demo_ffs = rq ?f" "s0_rq demo_ffs = s0_rq ?f" "q_active (wq_1 demo_ffs 1)"
    "q_task_id (wq_1 demo_ffs 1) = 1" "in_packets demo_ffs 1 = []" "sid_ok 1" using d by (simp_all add: w(2))
  then show "ffs_ok demo_ffs" "q_active (wq_1 demo_ffs 1)" "q_task_id (wq_1 demo_ffs 1) = 1" "in_packets demo_ffs 1 = []" "sid_ok 1"
    using w by (simp_all add: ffs_ok_def)
  show "num_sessions demo_ffs = 1" by (simp add: demo_ffs_def init_session_def Let_def w(2))
  show "cb_size (s0_rq demo_ffs) = 0" using d w by simp
  have "wq demo_ffs = (wq ?f)[0 := wq_1 demo_ffs 1]"
    unfolding demo_ffs_def init_session_def Let_def s by (simp add: upd_wq_1_def wq_1_def w(1))
  then have q: "wq demo_ffs = wq_1 demo_ffs 1 # replicate 4 zero_queue" by (simp add: w numeral_eq_Suc)
  show "wq_1 demo_ffs s = zero_queue" if "sid_ok s" "s \<noteq> 1"
    using sid_ok_less [OF that(1)] sid_ok_inject [OF that(1) d(7)] that(2) by (simp add: wq_1_def [of demo_ffs s] q nth_Cons')
  show "task_sid 1 demo_ffs = 1" using d q by (simp add: task_sid_def first_sid_def)
qed

section \<open>Sessions and tasks\<close>

text \<open>Sessions belong to tasks other than the main one; with that, every event returns.\<close>

definition ffs_tasks :: "ffs \<Rightarrow> bool" where
  "ffs_tasks f \<longleftrightarrow> (\<forall>sid. sid_ok sid \<and> q_active (wq_1 f sid) \<longrightarrow> 0 < q_task_id (wq_1 f sid) \<and> q_task_id (wq_1 f sid) < 5)"

lemma force_kill_returns:
  assumes "os_ok st" "msel_num_tasks st \<le> 5" "0 < k" "k < 5"
  shows "\<exists>st'. msel_task_force_kill k reason st = Some st' \<and> os_ok st' \<and> msel_num_tasks st' = msel_num_tasks st"
proof -
  let ?s = "upd_task k (\<lambda>t. t\<lparr>tcb_killed := True, tcb_reason := reason\<rparr>) st"
  have ok: "os_ok ?s" using assms(1,3) by (intro upd_ok) simp_all
  then have "msel_num_tasks ?s \<le> length (msel_task_list ?s)" "0 < msel_num_tasks ?s" "msel_task_is_valid (msel_task_list ?s ! 0)"
    using assms(2) unfolding os_ok_def by (simp_all del: upd_task_simps(1))
  from schedule_returns [OF this] obtain st' where s: "msel_task_schedule ?s = Some (MSEL_OK, st')" "msel_num_tasks st' = msel_num_tasks st"
    by force
  then show ?thesis using schedule_ok [OF ok s(1)] assms(1,4) by (simp add: msel_task_force_kill_def os_ok_def)
qed

lemma create_returns:
  assumes "os_ok st" "entry \<noteq> 0"
  shows "\<exists>r tid st'. msel_task_create lay entry None 0 st = Some (r, tid, st') \<and> os_ok st'
    \<and> (r = MSEL_OK \<longrightarrow> tid = Some (free_slot (msel_task_list st)) \<and> 0 < free_slot (msel_task_list st) \<and> free_slot (msel_task_list st) < 5)"
proof -
  let ?k = "free_slot (msel_task_list st)"
  have l: "length (msel_task_list st) = 5" using assms(1) by (simp add: os_ok_def)
  have k0: "?k \<noteq> 0" using free_slot(3) [of "msel_task_list st"] assms(1) l
    by (metis os_ok_def msel_task_is_valid_def zero_less_numeral)
  show ?thesis
  proof (cases "?k < 5")
    case True
    then obtain st' where "msel_task_create lay entry None 0 st = Some (MSEL_OK, Some ?k, st')"
      using create_plain [OF l] assms(2) by blast
    moreover from this have "os_ok st'" using os_step_ok [OF os_step.create assms(1)] by blast
    ultimately show ?thesis using True k0 by blast
  next
    case False
    then have "?k = 5" using free_slot(1) [of "msel_task_list st"] l by simp
    then show ?thesis using assms(1) by (simp add: msel_task_create_def)
  qed
qed

lemma step_queue_wq [simp]: "wq (msel_rfile_step_queue f) = wq f"
  by (simp add: msel_rfile_step_queue_def Let_def msel_ffs_rfile_write_def arch_ffs_rfile_write_def
      msel_ffs_rfile_clear_def arch_ffs_rfile_clear_def split: prod.split)

lemma start_session_succ:
  assumes "start_session lay get_task st f = Some (FFS_CHANNEL_LAST_SUCC, st', f')"
  shows "\<exists>t e fn p g. get_task (drop 1 (pkt_data (s0 f))) = (e, fn, p) \<and> fn \<noteq> 0 \<and> msel_task_create lay fn None 0 st = Some (MSEL_OK, Some t, st')
    \<and> num_sessions f < MAX_NUM_SESSIONS \<and> init_session t e p f = (first_sid (\<lambda>q. \<not> q_active q) (wq f), g) \<and> wq f' = wq g"
  using assms by (auto simp: start_session_def init_session_def Let_def not_le split: if_splits bind_splits prod.splits)

lemma start_session_fail:
  assumes "start_session lay get_task st f = Some (status, st', f')" "status \<noteq> FFS_CHANNEL_LAST_SUCC"
  shows "f' = f"
  using assms by (auto simp: start_session_def Let_def split: if_splits bind_splits prod.splits)

lemma start_returns:
  assumes "os_ok st"
  shows "\<exists>status st' f'. start_session lay get_task st f = Some (status, st', f') \<and> os_ok st'"
proof -
  obtain e fn p where g: "get_task (drop 1 (pkt_data (s0 f))) = (e, fn, p)" using prod_cases3 by blast
  show ?thesis
  proof (cases "cb_size (s0_rq f) \<ge> 2 \<or> num_sessions f \<ge> 5 \<or> e = None \<or> fn = 0")
    case True
    then show ?thesis using assms g by (auto simp: start_session_def Let_def)
  next
    case False
    obtain r tid st' where "msel_task_create lay fn None 0 st = Some (r, tid, st')" "os_ok st'"
      "r = MSEL_OK \<Longrightarrow> tid = Some (free_slot (msel_task_list st))"
      using create_returns [OF assms, of fn lay] False by blast
    then show ?thesis using False g by (cases "r = MSEL_OK") (auto simp: start_session_def Let_def split: prod.split)
  qed
qed

lemma start_tasks:
  assumes "ffs_ok f" "ffs_tasks f" "os_ok st" "start_session lay get_task st f = Some (status, st', f')"
  shows "ffs_tasks f'"
proof (cases "status = FFS_CHANNEL_LAST_SUCC")
  case True
  then obtain t e fn p g where s: "fn \<noteq> 0" "msel_task_create lay fn None 0 st = Some (MSEL_OK, Some t, st')"
    "num_sessions f < 5" "init_session t e p f = (first_sid (\<lambda>q. \<not> q_active q) (wq f), g)" "wq f' = wq g"
    using start_session_succ assms(4) by blast
  have t: "0 < t" "t < 5" using create_returns [OF assms(3) s(1), of lay] s(2) by auto
  have "ffs_wf f" using assms(1) by (simp add: ffs_ok_def)
  note i = init_session [OF this s(3,4)]
  have "0 < q_task_id (wq_1 f' s) \<and> q_task_id (wq_1 f' s) < 5" if "sid_ok s" "q_active (wq_1 f' s)" for s
    using i that assms(2) t s(5) by (cases "s = first_sid (\<lambda>q. \<not> q_active q) (wq f)") (auto simp: ffs_tasks_def wq_1_def)
  then show ?thesis by (simp add: ffs_tasks_def)
qed (use start_session_fail assms in blast)

lemma end_session_wq:
  assumes "ffs_ok f" "sid_ok sid" "end_session sid st f = Some (st', f')" "sid_ok s"
  shows "wq_1 f' s = (if s = sid then zero_queue else wq_1 f s)"
  using assms wq_1_upd [OF _ assms(2,4), of f "\<lambda>q. zero_queue"]
  by (auto simp: end_session_def Let_def ffs_ok_def ffs_wf_def wq_1_def split: bind_splits if_splits)

lemma kill_returns:
  assumes "ffs_ok f" "ffs_tasks f" "os_ok st" "msel_num_tasks st \<le> 5"
  shows "\<exists>status st' f'. kill_session st f = Some (status, st', f') \<and> os_ok st' \<and> ffs_tasks f'"
proof -
  let ?sid = "kill_sid (s0 f)"
  show ?thesis
  proof (cases "?sid > 0 \<and> ?sid \<le> 5 \<and> q_active (wq_1 f ?sid)")
    case True
    then have sid: "sid_ok ?sid" by (auto simp: sid_ok_def)
    then have "0 < q_task_id (wq_1 f ?sid)" "q_task_id (wq_1 f ?sid) < 5" using assms(2) True by (simp_all add: ffs_tasks_def)
    then obtain st' where "msel_task_force_kill (q_task_id (wq_1 f ?sid)) ''Force quit by Android'' st = Some st'" "os_ok st'"
      using force_kill_returns [OF assms(3,4)] by blast
    then obtain f' where e: "end_session ?sid st f = Some (st', f')" "os_ok st'" by (simp add: end_session_def Let_def)
    moreover have "ffs_tasks f'" using end_session_wq [OF assms(1) sid e(1)] assms(2) by (auto simp: ffs_tasks_def zero_queue_def)
    ultimately show ?thesis using True by (auto simp: kill_session_def Let_def)
  next
    case False
    then show ?thesis using assms by (auto simp: kill_session_def Let_def)
  qed
qed

lemma route_tasks:
  assumes "ffs_ok f" "ffs_tasks f" "route_packet sid f = (status, f')"
  shows "ffs_tasks f'"
proof -
  have "length (wq f) = 5" using assms(1) by (simp add: ffs_ok_def ffs_wf_def)
  then have "q_active (wq_1 f' s) = q_active (wq_1 f s) \<and> q_task_id (wq_1 f' s) = q_task_id (wq_1 f s)" if "sid_ok s" for s
    using assms(3) that wq_1_upd [of f sid s]
    by (auto simp: route_packet_def wq_1_def sid_ok_def not_less split: if_splits)
  then show ?thesis using assms(2) by (auto simp: ffs_tasks_def)
qed

lemma dispatch_returns:
  assumes "ffs_ok f" "ffs_tasks f" "os_ok st" "msel_num_tasks st \<le> 5"
  shows "\<exists>status st' f'. dispatch_packet lay get_task st f = Some (status, st', f') \<and> os_ok st' \<and> ffs_tasks f'"
  using start_returns [OF assms(3), of lay get_task f] start_tasks [OF assms(1-3)] kill_returns [OF assms] route_tasks [OF assms(1,2)] assms(2,3)
  by (cases "pkt_session (s0 f) = 0") (auto simp: dispatch_packet_def Let_def split: prod.split)

text \<open>Every active session is the one its task is served, and its task is alive.\<close>

definition ffs_owned :: "os \<Rightarrow> ffs \<Rightarrow> bool" where
  "ffs_owned st f \<longleftrightarrow> (\<forall>sid. sid_ok sid \<and> q_active (wq_1 f sid) \<longrightarrow>
     (let t = q_task_id (wq_1 f sid)
      in 0 < t \<and> t < 5 \<and> tcb_valid (msel_task_list st ! t) \<and> \<not> tcb_killed (msel_task_list st ! t) \<and> task_sid t f = sid))"

lemma task_sid_le:
  assumes "length (wq f) = 5" "sid_ok s" "q_active (wq_1 f s)" "q_task_id (wq_1 f s) = t"
  shows "task_sid t f \<le> s"
proof (rule ccontr)
  assume "\<not> task_sid t f \<le> s"
  then have "unat s < unat (task_sid t f)" by (simp add: word_less_nat_alt not_le)
  moreover have "unat s \<noteq> 0" using assms(2) by (simp add: sid_ok_def unat_eq_0)
  ultimately have "unat s - 1 < unat (task_sid t f) - 1" by simp
  from first_sid(5) [OF assms(1) this [unfolded task_sid_def]] show False using assms(3,4) by (simp add: wq_1_def)
qed

lemma task_sid_eq_iff:
  assumes "length (wq f) = 5" "sid_ok sid"
  shows "task_sid t f = sid \<longleftrightarrow> q_active (wq_1 f sid) \<and> q_task_id (wq_1 f sid) = t
    \<and> (\<forall>s. sid_ok s \<and> s < sid \<longrightarrow> \<not> (q_active (wq_1 f s) \<and> q_task_id (wq_1 f s) = t))"
proof -
  let ?P = "\<lambda>q. q_active q \<and> q_task_id q = t" and ?s = "first_sid (\<lambda>q. q_active q \<and> q_task_id q = t) (wq f)"
  have lt: "\<not> ?P (wq_1 f s)" if "sid_ok s" "s < ?s" for s
    using task_sid_le [OF assms(1) that(1), of t] that(2) by (auto simp: task_sid_def)
  show ?thesis
  proof
    assume e: "task_sid t f = sid"
    then have "?s \<le> 5" using assms(2) by (simp add: sid_ok_def task_sid_def)
    then show "q_active (wq_1 f sid) \<and> q_task_id (wq_1 f sid) = t
      \<and> (\<forall>s. sid_ok s \<and> s < sid \<longrightarrow> \<not> (q_active (wq_1 f s) \<and> q_task_id (wq_1 f s) = t))"
      using first_sid(4) [OF assms(1), of ?P] lt e by (auto simp: wq_1_def task_sid_def)
  next
    assume a: "q_active (wq_1 f sid) \<and> q_task_id (wq_1 f sid) = t
      \<and> (\<forall>s. sid_ok s \<and> s < sid \<longrightarrow> \<not> (q_active (wq_1 f s) \<and> q_task_id (wq_1 f s) = t))"
    then have "\<exists>q \<in> set (wq f). ?P q" using sid_ok_less [OF assms(2)] assms(1) nth_mem [of "unat sid - 1" "wq f"] by (auto simp: wq_1_def)
    then have le: "?s \<le> 5" using first_sid(3) [OF assms(1), of ?P] by blast
    then have so: "sid_ok ?s" "?P (wq_1 f ?s)" using first_sid(1,4) [OF assms(1), of ?P] by (auto simp: sid_ok_def wq_1_def)
    have "\<not> sid < ?s" using lt [OF assms(2)] a by blast
    moreover have "\<not> ?s < sid" using a so by blast
    ultimately show "task_sid t f = sid" by (simp add: task_sid_def)
  qed
qed

lemma owned_distinct:
  assumes "ffs_owned st f" "sid_ok a" "sid_ok b" "q_active (wq_1 f a)" "q_active (wq_1 f b)" "q_task_id (wq_1 f a) = q_task_id (wq_1 f b)"
  shows "a = b"
  using assms unfolding ffs_owned_def Let_def by metis

lemma ffs_ownedI:
  assumes "length (wq f) = 5"
    and "\<And>sid. sid_ok sid \<Longrightarrow> q_active (wq_1 f sid) \<Longrightarrow> 0 < q_task_id (wq_1 f sid) \<and> q_task_id (wq_1 f sid) < 5
      \<and> tcb_valid (msel_task_list st ! q_task_id (wq_1 f sid)) \<and> \<not> tcb_killed (msel_task_list st ! q_task_id (wq_1 f sid))"
    and "\<And>a b. sid_ok a \<Longrightarrow> sid_ok b \<Longrightarrow> q_active (wq_1 f a) \<Longrightarrow> q_active (wq_1 f b) \<Longrightarrow> q_task_id (wq_1 f a) = q_task_id (wq_1 f b) \<Longrightarrow> a = b"
  shows "ffs_owned st f"
  unfolding ffs_owned_def Let_def
proof (intro allI impI conjI)
  fix sid assume s: "sid_ok sid \<and> q_active (wq_1 f sid)"
  show "task_sid (q_task_id (wq_1 f sid)) f = sid"
    using s assms(3) by (subst task_sid_eq_iff [OF assms(1)]) auto
qed (use assms(2) in auto)

lemma owned_cong:
  assumes "ffs_owned st f" "wq f' = wq f" "\<And>j. tcb_valid (msel_task_list st ! j) \<Longrightarrow> j < 5 \<Longrightarrow> msel_task_list st' ! j = msel_task_list st ! j"
  shows "ffs_owned st' f'"
  using assms by (simp add: ffs_owned_def Let_def wq_1_def task_sid_def)

lemma force_kill_others:
  assumes "os_ok st" "0 < k" "msel_task_force_kill k reason st = Some st'" "j \<noteq> k" "j < 5" "\<not> tcb_killed (msel_task_list st ! j)"
  shows "msel_task_list st' ! j = msel_task_list st ! j"
proof -
  let ?s = "upd_task k (\<lambda>t. t\<lparr>tcb_killed := True, tcb_reason := reason\<rparr>) st"
  obtain r where r: "msel_task_schedule ?s = Some (r, st')" using assms(3) by (auto simp: msel_task_force_kill_def split: if_splits bind_splits)
  have "os_ok ?s" using assms(1,2) by (intro upd_ok) simp_all
  then have o: "length (msel_task_list ?s) = 5" "0 < msel_num_tasks ?s" "msel_task_is_valid (msel_task_list ?s ! 0)"
    unfolding os_ok_def by blast+
  have n: "msel_num_tasks ?s \<le> length (msel_task_list ?s)"
    using r o(2) by (auto simp: msel_task_schedule_def reap_tasks_def split: bind_splits if_splits)
  have "msel_task_list st' = reaped (msel_num_tasks ?s) (msel_task_list ?s)"
    using schedule_returns [OF n o(2,3)] r by auto
  then show ?thesis using assms(1,4-6) by (simp add: os_ok_def)
qed

lemma start_owned:
  assumes "ffs_ok f" "ffs_owned st f" "os_ok st" "start_session lay get_task st f = Some (status, st', f')" "ffs_ok f'"
  shows "ffs_owned st' f'"
proof (cases "status = FFS_CHANNEL_LAST_SUCC")
  case True
  then obtain t e fn p g where s: "fn \<noteq> 0" "msel_task_create lay fn None 0 st = Some (MSEL_OK, Some t, st')"
    "num_sessions f < 5" "init_session t e p f = (first_sid (\<lambda>q. \<not> q_active q) (wq f), g)" "wq f' = wq g"
    using start_session_succ assms(4) by blast
  let ?n = "first_sid (\<lambda>q. \<not> q_active q) (wq f)"
  have t: "t = free_slot (msel_task_list st)" "0 < t" "t < 5" using create_returns [OF assms(3) s(1), of lay] s(2) by auto
  have l: "length (msel_task_list st) = 5" using assms(3) by (simp add: os_ok_def)
  have v: "msel_task_is_valid (msel_task_list st' ! t)" using create_plain [OF l, of fn lay] s(1,2) t by auto
  have o: "msel_task_list st' ! j = msel_task_list st ! j" if "j \<noteq> t" for j using create_frame [OF s(2)] that t(1) by blast
  have ne: "q_task_id (wq_1 f s) \<noteq> t" if "sid_ok s" "q_active (wq_1 f s)" for s
    using assms(2) that free_slot(3) [of "msel_task_list st"] l t(1,3) by (auto simp: ffs_owned_def Let_def)
  have "ffs_wf f" using assms(1) by (simp add: ffs_ok_def)
  note i = init_session [OF this s(3,4)]
  have w: "wq_1 f' s = wq_1 g s" for s using s(5) by (simp add: wq_1_def)
  have n: "sid_ok ?n" "q_active (wq_1 f' ?n)" "q_task_id (wq_1 f' ?n) = t" and w': "\<And>s. sid_ok s \<Longrightarrow> s \<noteq> ?n \<Longrightarrow> wq_1 f' s = wq_1 f s"
    using i w by auto
  show ?thesis
  proof (rule ffs_ownedI)
    show "length (wq f') = 5" using assms(5) by (simp add: ffs_ok_def ffs_wf_def)
  next
    fix sid assume "sid_ok sid" "q_active (wq_1 f' sid)"
    then show "0 < q_task_id (wq_1 f' sid) \<and> q_task_id (wq_1 f' sid) < 5 \<and> tcb_valid (msel_task_list st' ! q_task_id (wq_1 f' sid))
        \<and> \<not> tcb_killed (msel_task_list st' ! q_task_id (wq_1 f' sid))"
      using assms(2) n w' [of sid] t v o ne [of sid]
      by (cases "sid = ?n") (auto simp: ffs_owned_def Let_def msel_task_is_valid_def msel_task_is_killed_def)
  next
    fix a b assume "sid_ok a" "sid_ok b" "q_active (wq_1 f' a)" "q_active (wq_1 f' b)" "q_task_id (wq_1 f' a) = q_task_id (wq_1 f' b)"
    then show "a = b" using n w' [of a] w' [of b] ne [of a] ne [of b] owned_distinct [OF assms(2), of a b]
      by (cases "a = ?n"; cases "b = ?n") auto
  qed
next
  case False
  have "st' = st \<or> (\<exists>fn r tid. msel_task_create lay fn None 0 st = Some (r, tid, st'))"
    using assms(4) by (auto simp: start_session_def Let_def split: if_splits bind_splits prod.splits)
  then have "msel_task_list st' ! j = msel_task_list st ! j" if "j \<noteq> free_slot (msel_task_list st)" for j
    using that create_frame by blast
  moreover have "j \<noteq> free_slot (msel_task_list st)" if "tcb_valid (msel_task_list st ! j)" "j < 5" for j
    using that free_slot(3) [of "msel_task_list st"] assms(3) by (auto simp: os_ok_def)
  moreover have "f' = f" using False start_session_fail assms(4) by blast
  ultimately show ?thesis using assms(2) by (intro owned_cong [OF assms(2)]) simp_all
qed

lemma kill_owned:
  assumes "ffs_ok f" "ffs_owned st f" "os_ok st" "kill_session st f = Some (status, st', f')" "ffs_ok f'"
  shows "ffs_owned st' f'"
proof (cases "kill_sid (s0 f) > 0 \<and> kill_sid (s0 f) \<le> 5 \<and> q_active (wq_1 f (kill_sid (s0 f)))")
  case True
  let ?sid = "kill_sid (s0 f)" and ?t = "q_task_id (wq_1 f (kill_sid (s0 f)))"
  have sid: "sid_ok ?sid" using True by (auto simp: sid_ok_def)
  have e: "end_session ?sid st f = Some (st', f')" using assms(4) True by (auto simp: kill_session_def Let_def split: bind_splits)
  then have k: "msel_task_force_kill ?t ''Force quit by Android'' st = Some st'" by (auto simp: end_session_def Let_def split: bind_splits)
  note w = end_session_wq [OF assms(1) sid e]
  have t0: "0 < ?t" using assms(2) sid True by (simp add: ffs_owned_def Let_def)
  have act: "s \<noteq> ?sid \<and> q_active (wq_1 f s) \<and> wq_1 f' s = wq_1 f s \<and> q_task_id (wq_1 f s) \<noteq> ?t" if "sid_ok s" "q_active (wq_1 f' s)" for s
    using w [OF that(1)] that owned_distinct [OF assms(2) that(1) sid] True by (auto simp: zero_queue_def split: if_splits)
  show ?thesis
  proof (rule ffs_ownedI)
    show "length (wq f') = 5" using assms(5) by (simp add: ffs_ok_def ffs_wf_def)
  next
    fix s assume s: "sid_ok s" "q_active (wq_1 f' s)"
    then have o: "0 < q_task_id (wq_1 f s)" "q_task_id (wq_1 f s) < 5" "tcb_valid (msel_task_list st ! q_task_id (wq_1 f s))"
      "\<not> tcb_killed (msel_task_list st ! q_task_id (wq_1 f s))" using act [OF s] assms(2) by (auto simp: ffs_owned_def Let_def)
    then show "0 < q_task_id (wq_1 f' s) \<and> q_task_id (wq_1 f' s) < 5 \<and> tcb_valid (msel_task_list st' ! q_task_id (wq_1 f' s))
        \<and> \<not> tcb_killed (msel_task_list st' ! q_task_id (wq_1 f' s))"
      using act [OF s] force_kill_others [OF assms(3) t0 k] by auto
  next
    fix a b assume "sid_ok a" "sid_ok b" "q_active (wq_1 f' a)" "q_active (wq_1 f' b)" "q_task_id (wq_1 f' a) = q_task_id (wq_1 f' b)"
    then show "a = b" using act [of a] act [of b] owned_distinct [OF assms(2), of a b] by auto
  qed
next
  case False
  then show ?thesis using assms by (auto simp: kill_session_def Let_def)
qed

lemma owned_same:
  assumes "ffs_owned st f" "length (wq f) = 5" "length (wq f') = 5"
    "\<And>s. sid_ok s \<Longrightarrow> q_active (wq_1 f' s) = q_active (wq_1 f s) \<and> q_task_id (wq_1 f' s) = q_task_id (wq_1 f s)"
  shows "ffs_owned st f'"
  using assms owned_distinct [OF assms(1)] by (intro ffs_ownedI) (auto simp: ffs_owned_def Let_def)

lemma owned_tasks: "ffs_owned st f \<Longrightarrow> ffs_tasks f"
  by (auto simp: ffs_owned_def ffs_tasks_def Let_def)

lemma dispatch_owned:
  assumes "ffs_ok f" "ffs_owned st f" "os_ok st" "dispatch_packet lay get_task st f = Some (status, st', f')" "ffs_ok f'"
  shows "ffs_owned st' f'"
proof (cases "pkt_session (s0 f) = 0")
  case True
  then show ?thesis using assms start_owned [OF assms(1-3) _ assms(5)] kill_owned [OF assms(1-3) _ assms(5)]
    by (auto simp: dispatch_packet_def Let_def split: if_splits)
next
  case False
  then have r: "route_packet (pkt_session (s0 f)) f = (status, f')" "st' = st" using assms(4) by (auto simp: dispatch_packet_def Let_def split: prod.splits)
  have l: "length (wq f) = 5" "length (wq f') = 5" using assms(1,5) by (simp_all add: ffs_ok_def ffs_wf_def)
  show ?thesis unfolding r(2)
  proof (rule owned_same [OF assms(2) l])
    fix s assume "sid_ok s"
    then show "q_active (wq_1 f' s) = q_active (wq_1 f s) \<and> q_task_id (wq_1 f' s) = q_task_id (wq_1 f s)"
      using r(1) wq_1_upd [OF l(1), of "pkt_session (s0 f)" s] by (auto simp: route_packet_def wq_1_def sid_ok_def not_less split: if_splits)
  qed
qed

lemma dispatch_keeps_shown:
  assumes "\<not> rfile_empty f" "dispatch_packet lay get_task st f = Some (status, st', f')"
  shows "ffs_send_data f' = ffs_send_data f \<and> rfile_nonce f' = rfile_nonce f"
proof -
  have "ffs_send_data f' = ffs_send_data f \<and> rfile_nonce f' = rfile_nonce f" if "start_session lay get_task st f = Some (status, st', f')"
    using that assms(1) by (auto simp: start_session_def init_session_def Let_def split: if_splits bind_splits prod.splits)
  moreover have "ffs_send_data f' = ffs_send_data f \<and> rfile_nonce f' = rfile_nonce f" if "kill_session st f = Some (status, st', f')"
    using that by (auto simp: kill_session_def end_session_def Let_def split: if_splits bind_splits)
  moreover have "ffs_send_data f' = ffs_send_data f \<and> rfile_nonce f' = rfile_nonce f" if "route_packet s f = (status, f')" for s
    using that by (auto simp: route_packet_def split: if_splits)
  ultimately show ?thesis using assms(2)
    by (cases "pkt_session (s0 f) = 0") (auto simp: dispatch_packet_def Let_def split: if_splits prod.splits)
qed

lemma task_step_returns:
  "\<exists>ob f'. ffs_step lay get_task (Task_Send p) (st, f) = Some (ob, st, f') \<and> wq f' = wq f"
  "ffs_ok f \<Longrightarrow> \<exists>ob f'. ffs_step lay get_task (Task_Recv p) (st, f) = Some (ob, st, f')
    \<and> (\<forall>s. sid_ok s \<longrightarrow> q_active (wq_1 f' s) = q_active (wq_1 f s) \<and> q_task_id (wq_1 f' s) = q_task_id (wq_1 f s))"
  "\<exists>ob f'. ffs_step lay get_task (Host_Ack a) (st, f) = Some (ob, st, f') \<and> wq f' = wq f"
proof -
  show "\<exists>ob f'. ffs_step lay get_task (Task_Send p) (st, f) = Some (ob, st, f') \<and> wq f' = wq f"
    by (simp add: msel_ffs_session_send_def Let_def)
  show "\<exists>ob f'. ffs_step lay get_task (Host_Ack a) (st, f) = Some (ob, st, f') \<and> wq f' = wq f"
    by (simp add: FauxFileSystemReadAck_def Let_def)
  assume "ffs_ok f"
  then have l: "length (wq f) = 5" by (simp add: ffs_ok_def ffs_wf_def)
  let ?t = "task_sid (msel_active_task_num st) f"
  have "wq_1 (upd_wq_1 ?t g h) s = (if ?t = s then g (wq_1 f ?t) else wq_1 f s)" if "wq h = wq f" "sid_ok s" "?t \<le> 5" for g h s
    using wq_1_upd [of h ?t s g] task_sid_ok [OF l] that l by (simp add: wq_1_def)
  then show "\<exists>ob f'. ffs_step lay get_task (Task_Recv p) (st, f) = Some (ob, st, f')
    \<and> (\<forall>s. sid_ok s \<longrightarrow> q_active (wq_1 f' s) = q_active (wq_1 f s) \<and> q_task_id (wq_1 f' s) = q_task_id (wq_1 f s))"
    by (simp add: msel_ffs_session_recv_def Let_def)
qed

section \<open>Properties\<close>

text \<open>
  C13. Packets from the host reach their session in order, each once: over any sequence of events
  that does not kill an active session, the packets it held and the packets for it that the host was
  told are accepted are the packets its task received followed by those it holds, of which there
  are at most two.
\<close>

theorem ffs_delivery_in:
  assumes "ffs_run lay get_task es (st, f) = Some (obs, st', f')" "ffs_ok f" "list_all event_ok es"
    "sid_ok sid" "q_active (wq_1 f sid)" "list_all (\<lambda>e. \<not> kills sid e) es"
  shows "in_packets f sid @ filter (\<lambda>p. pkt_session p = sid) (concat (map obs_in obs))
      = map snd (filter (\<lambda>r. fst r = sid) (concat (map obs_recv obs))) @ in_packets f' sid
    \<and> length (in_packets f' sid) \<le> 2"
proof -
  note r = run_effect [OF assms(1-3)]
  have "keeps sid (concat (map obs_in obs)) (concat (map obs_recv obs)) f f'" using r assms(4-6) by blast
  moreover have "cbuf_ok (q_buf (wq_1 f' sid))"
    using r sid_ok_less [OF assms(4)] nth_mem [of "unat sid - 1" "wq f'"] by (simp add: ffs_ok_def ffs_wf_def wq_1_def)
  ultimately show ?thesis using cb.count_contents [of "q_buf (wq_1 f' sid)"] cb.bounded [of "q_buf (wq_1 f' sid)"] by (simp add: keeps_def in_packets_def)
qed

theorem ffs_delivery_in_witness:
  "\<exists>obs st' f'. ffs_run or1k_layout (\<lambda>d. (None, 0, 0)) [Host_Ack 0x12, Task_Recv zero_packet, Os_Change demo_os] (demo_os, demo_ffs) = Some (obs, st', f')
     \<and> filter (\<lambda>p. pkt_session p = 1) (concat (map obs_in obs)) = map snd (filter (\<lambda>r. fst r = 1) (concat (map obs_recv obs))) @ in_packets f' 1"
proof -
  have "\<exists>obs st' f'. ffs_run or1k_layout (\<lambda>d. (None, 0, 0)) [Host_Ack 0x12, Task_Recv zero_packet, Os_Change demo_os] (demo_os, demo_ffs) = Some (obs, st', f')"
    by (simp add: Let_def split: prod.split)
  then obtain obs st' f' where r: "ffs_run or1k_layout (\<lambda>d. (None, 0, 0)) [Host_Ack 0x12, Task_Recv zero_packet, Os_Change demo_os] (demo_os, demo_ffs) = Some (obs, st', f')"
    by blast
  from ffs_delivery_in [OF r demo_ffs(1) _ demo_ffs(5,2)] show ?thesis using r demo_ffs(4) by (simp add: kills_def)
qed

text \<open>
  C14. What tasks send reaches the host in order, each packet once, and so do the numbers of started
  sessions: over any sequence of events, the packets the outgoing queue held and those accepted from
  tasks are the packets shown to the host with a session number other than 0, followed by those the
  queue holds, and likewise for the announcements of session numbers, shown as session 0.
\<close>

theorem ffs_delivery_out:
  assumes "ffs_run lay get_task es (st, f) = Some (obs, st', f')" "ffs_ok f" "list_all event_ok es"
  shows "out_packets f @ concat (map obs_sent obs) = map img_packet (filter (\<lambda>i. img_session i \<noteq> 0) (concat (map obs_shown obs))) @ out_packets f'
    \<and> out_announce f @ concat (map obs_started obs) = map img_announce (filter (\<lambda>i. img_session i = 0) (concat (map obs_shown obs))) @ out_announce f'"
  using run_effect [OF assms] by simp

theorem ffs_delivery_out_witness:
  "\<exists>obs st' f'. ffs_run or1k_layout (\<lambda>d. (None, 0, 0)) [Task_Send zero_packet, Host_Ack 0x12] (demo_os, demo_ffs) = Some (obs, st', f')
     \<and> out_packets demo_ffs @ concat (map obs_sent obs) = map img_packet (filter (\<lambda>i. img_session i \<noteq> 0) (concat (map obs_shown obs))) @ out_packets f'"
proof -
  have "\<exists>obs st' f'. ffs_run or1k_layout (\<lambda>d. (None, 0, 0)) [Task_Send zero_packet, Host_Ack 0x12] (demo_os, demo_ffs) = Some (obs, st', f')"
    by (simp add: Let_def split: prod.split)
  then obtain obs st' f' where r: "ffs_run or1k_layout (\<lambda>d. (None, 0, 0)) [Task_Send zero_packet, Host_Ack 0x12] (demo_os, demo_ffs) = Some (obs, st', f')"
    by blast
  from ffs_delivery_out [OF r demo_ffs(1)] show ?thesis using r by (simp add: packet_ok_def)
qed







end
