(* ===== verification/Flash.thy ===== *)
theory Flash
  imports Prelude
begin

unbundle bit_operations_syntax

text \<open>
  The flash driver of \<^verbatim>\<open>arch/openrisc/flash.c\<close>. The flash controller is a parameter: a record of the
  operations the driver performs on it, each a function of the controller state. What the driver
  relies on, as \<^verbatim>\<open>flash.h\<close> and \<^verbatim>\<open>mtc.h\<close> describe it, is the predicate \<open>flash_hw_ok\<close>: a command keeps the
  controller busy for a finite number of status reads, a page read fills the page register, a
  page write can only clear bits, and a bank erase sets all bits of the bank.
\<close>

section \<open>The part\<close>

abbreviation (input) FLASH_PAGE_BYTES :: nat where "FLASH_PAGE_BYTES \<equiv> 2048"
abbreviation (input) FLASH_BANK_PAGES :: nat where "FLASH_BANK_PAGES \<equiv> 64"
abbreviation (input) FLASH_PART_BANKS :: u32 where "FLASH_PART_BANKS \<equiv> 1024"
abbreviation (input) FLASH_PART_BYTES :: u32 where "FLASH_PART_BYTES \<equiv> 0x8000000"
abbreviation (input) FLASH_ADDR_BASE :: u32 where "FLASH_ADDR_BASE \<equiv> 0xE0000000"
abbreviation (input) FLASH_ADDR_MAX :: u32 where "FLASH_ADDR_MAX \<equiv> 0xE8000000"

definition FLASH_ADDR :: "u32 \<Rightarrow> u32 \<Rightarrow> u32 \<Rightarrow> u32" where
  "FLASH_ADDR bank page offset =
     FLASH_ADDR_BASE OR (push_bit 17 bank AND 0x07fe0000) OR (push_bit 11 page AND 0x0001f800) OR (offset AND 0x000007ff)"

definition FLASH_PAGE_ADDR :: "u32 \<Rightarrow> u32 \<Rightarrow> u32" where
  "FLASH_PAGE_ADDR bank page = (push_bit 17 bank AND 0x07fe0000) OR (push_bit 11 page AND 0x0001f800)"

definition FLASH_OFFSET :: "u32 \<Rightarrow> u32" where
  "FLASH_OFFSET a = a AND 0x000007ff"

definition FLASH_PAGE :: "u32 \<Rightarrow> u32" where
  "FLASH_PAGE a = drop_bit 11 (a AND 0x0001f800)"

definition FLASH_BANK :: "u32 \<Rightarrow> u32" where
  "FLASH_BANK a = drop_bit 17 (a AND 0x07fe0000)"

section \<open>The controller and the driver\<close>

record 'h flash_hw =
  hw_status :: "'h \<Rightarrow> u32 \<times> 'h"
  hw_erase :: "u32 \<Rightarrow> 'h \<Rightarrow> 'h"
  hw_read :: "u32 \<Rightarrow> 'h \<Rightarrow> 'h"
  hw_write :: "u32 \<Rightarrow> 'h \<Rightarrow> 'h"
  hw_page :: "'h \<Rightarrow> bytes"
  hw_set_page :: "bytes \<Rightarrow> 'h \<Rightarrow> 'h"

text \<open>The static variables of \<^verbatim>\<open>flash.c\<close> and \<^verbatim>\<open>mtc.c\<close>, with the controller state; \<^verbatim>\<open>NULL\<close> and \<^verbatim>\<open>-1\<close> are words.\<close>

record 'h flash =
  flash_scratch_page :: bytes
  flash_current_bank :: u32
  flash_current_page :: u32
  first_unused :: u32
  fl_hw :: 'h

definition FLASH_IS_BUSY :: "'h flash_hw \<Rightarrow> 'h flash \<Rightarrow> bool \<times> 'h flash" where
  "FLASH_IS_BUSY c f = (let (s, h) = hw_status c (fl_hw f) in (s AND 0x2 \<noteq> 0, f\<lparr>fl_hw := h\<rparr>))"

definition FLASH_HAD_ERROR :: "'h flash_hw \<Rightarrow> 'h flash \<Rightarrow> bool \<times> 'h flash" where
  "FLASH_HAD_ERROR c f = (let (s, h) = hw_status c (fl_hw f) in (s AND 0x1 \<noteq> 0, f\<lparr>fl_hw := h\<rparr>))"

text \<open>\<^verbatim>\<open>while(FLASH_IS_BUSY);\<close> returns \<open>None\<close> when the controller stays busy for ever.\<close>

partial_function (option) flash_wait :: "'h flash_hw \<Rightarrow> 'h flash \<Rightarrow> 'h flash option" where
  "flash_wait c f = (case FLASH_IS_BUSY c f of (busy, f) \<Rightarrow> if busy then flash_wait c f else Some f)"

definition drop_cache :: "'h flash \<Rightarrow> 'h flash" where
  "drop_cache f = f\<lparr>flash_current_bank := - 1, flash_current_page := - 1\<rparr>"

definition flash_erase_bank :: "'h flash_hw \<Rightarrow> u32 \<Rightarrow> 'h flash \<Rightarrow> (msel_status \<times> 'h flash) option" where
  "flash_erase_bank c banknum f =
     (if banknum > FLASH_PART_BANKS then Some (MSEL_EINVAL, f)
      else let (busy, f) = FLASH_IS_BUSY c f
           in if busy then Some (MSEL_EBUSY, f)
              else let f = drop_cache f;
                       f = f\<lparr>fl_hw := hw_erase c banknum (fl_hw f)\<rparr>
                   in case flash_wait c f of None \<Rightarrow> None
                      | Some f \<Rightarrow> let (err, f) = FLASH_HAD_ERROR c f
                                  in Some (if err then MSEL_EUNKNOWN else MSEL_OK, f))"

definition flash_read_page :: "'h flash_hw \<Rightarrow> u32 \<Rightarrow> u32 \<Rightarrow> 'h flash \<Rightarrow> 'h flash option" where
  "flash_read_page c bank page f =
     (if flash_current_bank f = bank \<and> flash_current_page f = page then Some f
      else case flash_wait c (drop_cache f) of None \<Rightarrow> None
           | Some f \<Rightarrow> (case flash_wait c (f\<lparr>fl_hw := hw_read c (FLASH_PAGE_ADDR bank page) (fl_hw f)\<rparr>) of None \<Rightarrow> None
             | Some f \<Rightarrow> Some (f\<lparr>flash_scratch_page := hw_page c (fl_hw f), flash_current_bank := bank, flash_current_page := page\<rparr>)))"

definition flash_flush_page :: "'h flash_hw \<Rightarrow> u32 \<Rightarrow> u32 \<Rightarrow> 'h flash \<Rightarrow> 'h flash option" where
  "flash_flush_page c bank page f =
     (case flash_wait c f of None \<Rightarrow> None
      | Some f \<Rightarrow> let f = f\<lparr>fl_hw := hw_set_page c (flash_scratch_page f) (fl_hw f)\<rparr>;
                      f = f\<lparr>fl_hw := hw_write c (FLASH_PAGE_ADDR bank page) (fl_hw f)\<rparr>
                  in flash_wait c f)"

text \<open>The number of bytes of one iteration: up to the end of the page, and not past the requested area.\<close>

definition chunk_count :: "u32 \<Rightarrow> nat \<Rightarrow> nat" where
  "chunk_count ptr left =
     (let offset = unat (FLASH_OFFSET ptr);
          tmpcnt = (if offset > 0 then FLASH_PAGE_BYTES - offset else FLASH_PAGE_BYTES)
      in if tmpcnt > left then left else tmpcnt)"

lemma unat_mask11: "unat (FLASH_OFFSET a) = unat a mod 2048"
proof -
  have "(0x7ff :: u32) = mask 11" by (simp add: mask_eq_exp_minus_1)
  then show ?thesis unfolding FLASH_OFFSET_def using unat_mask [of a 11] by simp
qed

lemma chunk_count_pos: "0 < left \<Longrightarrow> 0 < chunk_count ptr left"
  unfolding chunk_count_def Let_def unat_mask11 by simp

function flash_write_loop :: "'h flash_hw \<Rightarrow> u32 \<Rightarrow> bytes \<Rightarrow> 'h flash \<Rightarrow> 'h flash option" where
  "flash_write_loop c ptr src f =
     (if src = [] then Some f
      else let bank = FLASH_BANK ptr; page = FLASH_PAGE ptr; offset = unat (FLASH_OFFSET ptr); n = chunk_count ptr (length src)
           in case flash_read_page c bank page f of None \<Rightarrow> None
              | Some f \<Rightarrow> (case flash_flush_page c bank page (f\<lparr>flash_scratch_page := blit (flash_scratch_page f) offset (take n src)\<rparr>) of None \<Rightarrow> None
                | Some f \<Rightarrow> flash_write_loop c (ptr + of_nat n) (drop n src) f))"
  by pat_completeness auto
termination
  by (relation "measure (\<lambda>(c, ptr, src, f). length src)") (auto simp: chunk_count_pos)

function flash_read_loop :: "'h flash_hw \<Rightarrow> u32 \<Rightarrow> nat \<Rightarrow> 'h flash \<Rightarrow> (bytes \<times> 'h flash) option" where
  "flash_read_loop c ptr left f =
     (if left = 0 then Some ([], f)
      else let bank = FLASH_BANK ptr; page = FLASH_PAGE ptr; offset = unat (FLASH_OFFSET ptr); n = chunk_count ptr left
           in case flash_read_page c bank page f of None \<Rightarrow> None
              | Some f \<Rightarrow> (case flash_read_loop c (ptr + of_nat n) (left - n) f of None \<Rightarrow> None
                | Some (bs, f') \<Rightarrow> Some (take n (drop offset (flash_scratch_page f)) @ bs, f')))"
  by pat_completeness auto
termination
  by (relation "measure (\<lambda>(c, ptr, left, f). left)") (auto simp: chunk_count_pos)

declare flash_write_loop.simps [simp del] flash_read_loop.simps [simp del]

definition flash_writemem :: "'h flash_hw \<Rightarrow> u32 \<Rightarrow> bytes \<Rightarrow> 'h flash \<Rightarrow> (msel_status \<times> 'h flash) option" where
  "flash_writemem c dst src f =
     (let sz = of_nat (length src)
      in if dst < FLASH_ADDR_BASE \<or> dst + sz \<ge> FLASH_ADDR_MAX \<or> sz > FLASH_PART_BYTES then Some (MSEL_EINVAL, f)
         else map_option (\<lambda>f. (MSEL_OK, f)) (flash_write_loop c dst src f))"

text \<open>The buffer \<open>dst\<close>, of the size to read, keeps its contents when the range is refused.\<close>

definition flash_readmem :: "'h flash_hw \<Rightarrow> bytes \<Rightarrow> u32 \<Rightarrow> 'h flash \<Rightarrow> (msel_status \<times> bytes \<times> 'h flash) option" where
  "flash_readmem c dst src f =
     (let sz = of_nat (length dst)
      in if src < FLASH_ADDR_BASE \<or> src + sz \<ge> FLASH_ADDR_MAX \<or> sz > FLASH_PART_BYTES then Some (MSEL_EINVAL, dst, f)
         else map_option (\<lambda>(bs, f). (MSEL_OK, bs, f)) (flash_read_loop c src (length dst) f))"

section \<open>The contract of the controller\<close>

text \<open>
  \<open>cells h n\<close> is the byte at position \<open>n\<close> of the part, \<open>work h\<close> the number of status reads that will still
  see the controller busy.
\<close>

definition page_of :: "(nat \<Rightarrow> u8) \<Rightarrow> nat \<Rightarrow> bytes" where
  "page_of m a = map m [a..<a + FLASH_PAGE_BYTES]"

definition flash_hw_ok :: "'h flash_hw \<Rightarrow> ('h \<Rightarrow> nat \<Rightarrow> u8) \<Rightarrow> ('h \<Rightarrow> nat) \<Rightarrow> bool" where
  "flash_hw_ok c cells work \<longleftrightarrow>
     (\<forall>h s h'. hw_status c h = (s, h') \<longrightarrow> cells h' = cells h \<and> hw_page c h' = hw_page c h
        \<and> work h' = work h - 1 \<and> (s AND 2 \<noteq> 0 \<longleftrightarrow> 0 < work h) \<and> s AND 1 = 0)
   \<and> (\<forall>h a. work h = 0 \<longrightarrow> cells (hw_read c a h) = cells h \<and> hw_page c (hw_read c a h) = page_of (cells h) (unat a))
   \<and> (\<forall>h p. work h = 0 \<longrightarrow> length p = FLASH_PAGE_BYTES \<longrightarrow>
        cells (hw_set_page c p h) = cells h \<and> hw_page c (hw_set_page c p h) = p \<and> work (hw_set_page c p h) = 0)
   \<and> (\<forall>h a. work h = 0 \<longrightarrow> cells (hw_write c a h) =
        (\<lambda>n. if unat a \<le> n \<and> n < unat a + FLASH_PAGE_BYTES then cells h n AND hw_page c h ! (n - unat a) else cells h n))
   \<and> (\<forall>h b. work h = 0 \<longrightarrow> cells (hw_erase c b h) = (\<lambda>n. if n div 131072 = unat b then 0xff else cells h n))"

section \<open>Addresses\<close>

text \<open>The address of position \<open>n\<close> of the part, and the fields of an address.\<close>

definition pos_addr :: "nat \<Rightarrow> u32" where "pos_addr n = FLASH_ADDR_BASE + of_nat n"

abbreviation (input) part_bytes :: nat where "part_bytes \<equiv> 134217728"

lemma unat_pos_addr: "n < part_bytes \<Longrightarrow> unat (pos_addr n) = 3758096384 + n"
  unfolding pos_addr_def by (subst unat_add_lem [THEN iffD1]) (simp_all add: unat_of_nat32)

lemma unat_field: "unat (drop_bit i (a AND push_bit i (mask k)) :: u32) = unat a div 2 ^ i mod 2 ^ k"
proof -
  have "drop_bit i (a AND push_bit i (mask k)) = drop_bit i a AND mask k"
    by (rule bit_word_eqI) (auto simp: bit_simps dest: bit_imp_le_length)
  then show ?thesis unfolding unat_mask unat_drop_bit [symmetric] by (simp only: unat_mask)
qed

lemma field_masks: "(0x1f800 :: u32) = push_bit 11 (mask 6)" "(0x07fe0000 :: u32) = push_bit 17 (mask 10)" "(0x7ff :: u32) = mask 11"
  by (simp_all add: mask_eq_exp_minus_1)

lemma unat_FLASH_PAGE: "unat (FLASH_PAGE a) = unat a div 2048 mod 64"
  unfolding FLASH_PAGE_def field_masks(1) unat_field by simp

lemma unat_FLASH_BANK: "unat (FLASH_BANK a) = unat a div 131072 mod 1024"
  unfolding FLASH_BANK_def field_masks(2) unat_field by simp

lemma fields_pos_addr:
  assumes "n < part_bytes"
  shows "FLASH_BANK (pos_addr n) = of_nat (n div 131072)" "FLASH_PAGE (pos_addr n) = of_nat (n div 2048 mod 64)"
    "unat (FLASH_OFFSET (pos_addr n)) = n mod 2048"
proof -
  have d: "(3758096384 + n) div 131072 = 28672 + n div 131072" "(3758096384 + n) div 2048 = 1835008 + n div 2048"
    using div_mult_self2 [of 131072 n 28672] div_mult_self2 [of 2048 n 1835008] by (simp_all add: add.commute)
  have b: "n div 131072 < 1024" using assms by (simp add: less_mult_imp_div_less)
  have "(28672 + n div 131072) mod 1024 = n div 131072" using mod_mult_self2 [of "n div 131072" 1024 28] b by (simp add: add.commute)
  moreover have "(1835008 + n div 2048) mod 64 = n div 2048 mod 64" using mod_mult_self2 [of "n div 2048" 64 28672] by (simp add: add.commute)
  moreover have "(3758096384 + n) mod 2048 = n mod 2048" using mod_mult_self2 [of n 2048 1835008] by (simp add: add.commute)
  ultimately show "FLASH_BANK (pos_addr n) = of_nat (n div 131072)" "FLASH_PAGE (pos_addr n) = of_nat (n div 2048 mod 64)"
    "unat (FLASH_OFFSET (pos_addr n)) = n mod 2048"
    using b less_trans [OF mod_less_divisor [of 64 "n div 2048"], of 4294967296]
    by (simp_all add: word_unat_eq_iff unat_FLASH_BANK unat_FLASH_PAGE unat_mask11 unat_pos_addr [OF assms] d unat_of_nat32)
qed

lemma unat_shifted: "j < 2 ^ k \<Longrightarrow> i + k \<le> 32 \<Longrightarrow> push_bit i (of_nat j :: u32) AND push_bit i (mask k) = of_nat (j * 2 ^ i)"
proof -
  assume a: "j < 2 ^ k" "i + k \<le> 32"
  have "push_bit i (of_nat j :: u32) AND push_bit i (mask k) = push_bit i (take_bit k (of_nat j))"
    by (rule bit_word_eqI) (auto simp: bit_simps)
  also have "take_bit k (of_nat j :: u32) = of_nat (take_bit k j)" by (rule take_bit_of_nat)
  also have "take_bit k j = j" using a(1) by (rule take_bit_nat_eq_self)
  finally show ?thesis by (simp add: push_bit_eq_mult)
qed

lemma or_disjoint_add: "(a :: u32) AND b = 0 \<Longrightarrow> a OR b = a + b"
  by (rule disjunctive_add_eq_or [symmetric])

lemma page_addr: "b < 1024 \<Longrightarrow> p < 64 \<Longrightarrow> FLASH_PAGE_ADDR (of_nat b) (of_nat p) = of_nat (b * 131072 + p * 2048)"
proof -
  assume bp: "b < 1024" "p < 64"
  let ?x = "push_bit 17 (of_nat b :: u32) AND 0x07fe0000" and ?y = "push_bit 11 (of_nat p :: u32) AND 0x0001f800"
  have m: "(0x07fe0000 :: u32) AND 0x0001f800 = 0" by simp
  have "?x AND ?y = (push_bit 17 (of_nat b) AND push_bit 11 (of_nat p)) AND (0x07fe0000 AND 0x0001f800)" by (simp only: ac_simps)
  then have "?x OR ?y = ?x + ?y" unfolding m and_zero_eq by (rule or_disjoint_add)
  moreover have "?x = of_nat (b * 131072)" "?y = of_nat (p * 2048)"
    unfolding field_masks using unat_shifted [of b 10 17] unat_shifted [of p 6 11] bp by simp_all
  ultimately show ?thesis unfolding FLASH_PAGE_ADDR_def by simp
qed

lemma flash_addr: "b < 1024 \<Longrightarrow> p < 64 \<Longrightarrow> i < 2048 \<Longrightarrow> FLASH_ADDR (of_nat b) (of_nat p) (of_nat i) = pos_addr (b * 131072 + p * 2048 + i)"
proof -
  assume bpi: "b < 1024" "p < 64" "i < 2048"
  let ?x = "FLASH_PAGE_ADDR (of_nat b) (of_nat p)" and ?y = "(of_nat i :: u32) AND 0x000007ff"
  have xm: "?x = ?x AND 0x07fff800"
    unfolding FLASH_PAGE_ADDR_def by (simp add: bit.conj_disj_distrib2 and.assoc)
  have "?x AND ?y = ?x AND of_nat i AND (0x07fff800 AND 0x000007ff)" by (subst xm) (simp only: ac_simps)
  then have 1: "?x OR ?y = ?x + ?y" by (intro or_disjoint_add) simp
  have sm: "?x OR ?y = (?x OR ?y) AND 0x07ffffff" by (subst (1 2) xm) (simp add: bit.conj_disj_distrib2 and.assoc)
  have "FLASH_ADDR_BASE AND (?x OR ?y) = (?x OR ?y) AND (0x07ffffff AND FLASH_ADDR_BASE)" by (subst sm) (simp only: ac_simps)
  then have 2: "FLASH_ADDR_BASE OR (?x OR ?y) = FLASH_ADDR_BASE + (?x OR ?y)" by (intro or_disjoint_add) simp
  have "?y = of_nat i" unfolding field_masks take_bit_eq_mask [symmetric] take_bit_of_nat using bpi(3) by (simp add: take_bit_nat_eq_self)
  then have "FLASH_ADDR_BASE OR (?x OR ?y) = FLASH_ADDR_BASE + (of_nat (b * 131072 + p * 2048) + of_nat i)"
    using 1 2 page_addr [OF bpi(1,2)] by simp
  then show ?thesis unfolding FLASH_ADDR_def pos_addr_def FLASH_PAGE_ADDR_def or.assoc of_nat_add .
qed

section \<open>The driver on a working controller\<close>

text \<open>
  A state between two calls: the controller is idle and the scratch page is a copy of the page its
  two numbers name, if they name one.
\<close>

definition coherent :: "(nat \<Rightarrow> u8) \<Rightarrow> 'h flash \<Rightarrow> bool" where
  "coherent m f \<longleftrightarrow> length (flash_scratch_page f) = FLASH_PAGE_BYTES \<and>
     (\<forall>b p. b < 1024 \<and> p < 64 \<and> flash_current_bank f = of_nat b \<and> flash_current_page f = of_nat p
        \<longrightarrow> flash_scratch_page f = page_of m (b * 131072 + p * 2048))"

definition flash_ok :: "('h \<Rightarrow> nat \<Rightarrow> u8) \<Rightarrow> ('h \<Rightarrow> nat) \<Rightarrow> 'h flash \<Rightarrow> bool" where
  "flash_ok cells work f \<longleftrightarrow> work (fl_hw f) = 0 \<and> coherent (cells (fl_hw f)) f"

lemma hw_status_ok:
  assumes "flash_hw_ok c cells work" "hw_status c h = (s, h')"
  shows "cells h' = cells h" "hw_page c h' = hw_page c h" "work h' = work h - 1" "s AND 2 \<noteq> 0 \<longleftrightarrow> 0 < work h" "s AND 1 = 0"
  using assms unfolding flash_hw_ok_def by blast+

lemma flash_wait:
  assumes "flash_hw_ok c cells work"
  shows "\<exists>h'. flash_wait c f = Some (f\<lparr>fl_hw := h'\<rparr>) \<and> cells h' = cells (fl_hw f) \<and> hw_page c h' = hw_page c (fl_hw f) \<and> work h' = 0"
proof (induction "work (fl_hw f)" arbitrary: f)
  case 0
  obtain s h' where s: "hw_status c (fl_hw f) = (s, h')" by fastforce
  note k = hw_status_ok [OF assms s]
  have "flash_wait c f = Some (f\<lparr>fl_hw := h'\<rparr>)" using s k(4) 0 by (subst flash_wait.simps) (simp add: FLASH_IS_BUSY_def)
  then show ?case using k 0 by auto
next
  case (Suc n)
  obtain s h' where s: "hw_status c (fl_hw f) = (s, h')" by fastforce
  note k = hw_status_ok [OF assms s]
  have w: "flash_wait c f = flash_wait c (f\<lparr>fl_hw := h'\<rparr>)"
    using s k(4) Suc(2) by (subst flash_wait.simps) (simp add: FLASH_IS_BUSY_def)
  have "n = work (fl_hw (f\<lparr>fl_hw := h'\<rparr>))" using k(3) Suc(2) by simp
  from Suc(1) [OF this] show ?case unfolding w using k(1,2) by auto
qed

lemma of_nat32_eq: "a < 4294967296 \<Longrightarrow> b < 4294967296 \<Longrightarrow> (of_nat a :: u32) = of_nat b \<longleftrightarrow> a = b"
  by (metis unat_of_nat32)

lemma flash_read_page:
  assumes hw: "flash_hw_ok c cells work" and ok: "flash_ok cells work f" and b: "b < 1024" "p < 64"
  shows "\<exists>f'. flash_read_page c (of_nat b) (of_nat p) f = Some f' \<and> flash_ok cells work f' \<and> cells (fl_hw f') = cells (fl_hw f)
    \<and> flash_scratch_page f' = page_of (cells (fl_hw f)) (b * 131072 + p * 2048) \<and> first_unused f' = first_unused f
    \<and> flash_current_bank f' = of_nat b \<and> flash_current_page f' = of_nat p"
proof (cases "flash_current_bank f = of_nat b \<and> flash_current_page f = of_nat p")
  case True
  then show ?thesis using ok b unfolding flash_read_page_def flash_ok_def coherent_def by auto
next
  case False
  let ?a = "b * 131072 + p * 2048"
  obtain h1 where w1: "flash_wait c (drop_cache f) = Some (drop_cache f\<lparr>fl_hw := h1\<rparr>)" "cells h1 = cells (fl_hw f)" "work h1 = 0"
    using flash_wait [OF hw, of "drop_cache f"] by (auto simp: drop_cache_def)
  define g where "g = drop_cache f\<lparr>fl_hw := hw_read c (FLASH_PAGE_ADDR (of_nat b) (of_nat p)) h1\<rparr>"
  obtain h2 where w2: "flash_wait c g = Some (g\<lparr>fl_hw := h2\<rparr>)" "cells h2 = cells (fl_hw g)" "hw_page c h2 = hw_page c (fl_hw g)" "work h2 = 0"
    using flash_wait [OF hw, of g] by auto
  have ua: "unat (FLASH_PAGE_ADDR (of_nat b) (of_nat p)) = ?a" unfolding page_addr [OF b] using b by (intro unat_of_nat32) simp
  have r: "cells (fl_hw g) = cells h1" "hw_page c (fl_hw g) = page_of (cells h1) ?a"
    using hw w1(3) unfolding flash_hw_ok_def g_def by (simp_all add: ua)
  have res: "flash_read_page c (of_nat b) (of_nat p) f =
      Some (g\<lparr>fl_hw := h2, flash_scratch_page := page_of (cells (fl_hw f)) ?a, flash_current_bank := of_nat b, flash_current_page := of_nat p\<rparr>)"
    using False w1 w2 r unfolding flash_read_page_def by (auto simp: g_def)
  have "coherent (cells (fl_hw f)) (g\<lparr>fl_hw := h2, flash_scratch_page := page_of (cells (fl_hw f)) ?a, flash_current_bank := of_nat b, flash_current_page := of_nat p\<rparr>)"
    unfolding coherent_def using b by (auto simp: page_of_def of_nat32_eq)
  then show ?thesis unfolding res using w1 w2 r by (auto simp: flash_ok_def g_def drop_cache_def)
qed

text \<open>The cells after writing \<open>src\<close> at position \<open>n\<close>, and when every bit to be written can be.\<close>

definition programmed :: "(nat \<Rightarrow> u8) \<Rightarrow> nat \<Rightarrow> bytes \<Rightarrow> nat \<Rightarrow> u8" where
  "programmed m n src k = (if n \<le> k \<and> k < n + length src then m k AND src ! (k - n) else m k)"

definition writable :: "(nat \<Rightarrow> u8) \<Rightarrow> nat \<Rightarrow> bytes \<Rightarrow> bool" where
  "writable m n src \<longleftrightarrow> (\<forall>i < length src. m (n + i) AND src ! i = src ! i)"

lemma programmed_Nil [simp]: "programmed m n [] = m"
  by (rule ext) (auto simp: programmed_def)

lemma programmed_split:
  "j \<le> length src \<Longrightarrow> programmed (programmed m n (take j src)) (n + j) (drop j src) = programmed m n src"
  by (rule ext) (auto simp: programmed_def)

lemma writable_drop:
  assumes "writable m n src" "j \<le> length src"
  shows "writable (programmed m n (take j src)) (n + j) (drop j src)"
  unfolding writable_def
proof (intro allI impI)
  fix i assume "i < length (drop j src)"
  then have "m (n + (j + i)) AND src ! (j + i) = src ! (j + i)" using assms by (simp add: writable_def)
  then show "programmed m n (take j src) (n + j + i) AND drop j src ! i = drop j src ! i"
    using assms(2) by (simp add: programmed_def add.assoc)
qed

lemma flash_flush_page:
  assumes hw: "flash_hw_ok c cells work" and l: "length (flash_scratch_page f) = 2048" and b: "b < 1024" "p < 64"
  defines "a \<equiv> b * 131072 + p * 2048"
  shows "\<exists>h'. flash_flush_page c (of_nat b) (of_nat p) f = Some (f\<lparr>fl_hw := h'\<rparr>) \<and> work h' = 0
    \<and> cells h' = programmed (cells (fl_hw f)) a (flash_scratch_page f)"
proof -
  obtain h1 where w1: "flash_wait c f = Some (f\<lparr>fl_hw := h1\<rparr>)" "cells h1 = cells (fl_hw f)" "work h1 = 0"
    using flash_wait [OF hw, of f] by auto
  let ?h2 = "hw_set_page c (flash_scratch_page f) h1"
  have s: "cells ?h2 = cells h1" "hw_page c ?h2 = flash_scratch_page f" "work ?h2 = 0"
    using hw w1(3) l unfolding flash_hw_ok_def by simp_all
  have ua: "unat (FLASH_PAGE_ADDR (of_nat b) (of_nat p)) = a" unfolding page_addr [OF b] a_def using b by (intro unat_of_nat32) simp
  let ?h3 = "hw_write c (FLASH_PAGE_ADDR (of_nat b) (of_nat p)) ?h2"
  have w: "cells ?h3 = programmed (cells (fl_hw f)) a (flash_scratch_page f)"
    using hw s w1(2) l unfolding flash_hw_ok_def by (simp add: ua programmed_def fun_eq_iff)
  obtain h4 where w4: "flash_wait c (f\<lparr>fl_hw := ?h3\<rparr>) = Some (f\<lparr>fl_hw := h4\<rparr>)" "cells h4 = cells ?h3" "work h4 = 0"
    using flash_wait [OF hw, of "f\<lparr>fl_hw := ?h3\<rparr>"] by auto
  then show ?thesis using w1 w unfolding flash_flush_page_def by (auto simp: Let_def)
qed

lemma page_split: "n = n div 131072 * 131072 + n div 2048 mod 64 * 2048 + n mod (2048 :: nat)"
proof -
  have "n div 131072 = n div 2048 div 64" by (simp add: div_mult2_eq [symmetric])
  then have "n div 2048 = n div 131072 * 64 + n div 2048 mod 64" by simp
  then have "n div 2048 * 2048 = n div 131072 * 131072 + n div 2048 mod 64 * 2048" by simp
  then show ?thesis using div_mult_mod_eq [of n 2048] by simp
qed

lemma programmed_page:
  assumes "length src \<le> 2048 - i" "i < 2048"
  shows "programmed m a (blit (page_of m a) i src) = programmed m (a + i) src"
proof
  fix k
  have l: "length (page_of m a) = 2048" by (simp add: page_of_def)
  show "programmed m a (blit (page_of m a) i src) k = programmed m (a + i) src k"
  proof (cases "a \<le> k \<and> k < a + 2048")
    case True
    then have "blit (page_of m a) i src ! (k - a) = (if i \<le> k - a \<and> k - a < i + length src then src ! (k - a - i) else page_of m a ! (k - a))"
      using assms l by (intro nth_blit) auto
    then show ?thesis using True assms l by (auto simp: programmed_def page_of_def)
  next
    case False
    then show ?thesis using assms l by (auto simp: programmed_def)
  qed
qed

lemma blit_programmed:
  assumes "length src \<le> 2048 - i" "i < 2048" "writable m (a + i) src"
  shows "blit (page_of m a) i src = page_of (programmed m (a + i) src) a"
proof (rule nth_equalityI)
  have l: "length (page_of m a) = 2048" "length (blit (page_of m a) i src) = 2048" using assms(1,2) by (simp_all add: page_of_def)
  then show "length (blit (page_of m a) i src) = length (page_of (programmed m (a + i) src) a)" by (simp add: page_of_def)
  fix k assume "k < length (blit (page_of m a) i src)"
  then have k: "k < 2048" using l by simp
  then have b: "blit (page_of m a) i src ! k = (if i \<le> k \<and> k < i + length src then src ! (k - i) else page_of m a ! k)"
    using assms(1,2) l by (intro nth_blit) simp_all
  show "blit (page_of m a) i src ! k = page_of (programmed m (a + i) src) a ! k"
  proof (cases "i \<le> k \<and> k < i + length src")
    case True
    then have "k - i < length src" by auto
    then have "m (a + i + (k - i)) AND src ! (k - i) = src ! (k - i)" using assms(3) unfolding writable_def by blast
    then show ?thesis using True k b by (simp add: page_of_def programmed_def)
  next
    case False
    then show ?thesis using k b by (auto simp: page_of_def programmed_def)
  qed
qed

lemma chunk_count_bounds:
  assumes "n < part_bytes" "0 < left"
  shows "chunk_count (pos_addr n) left \<le> 2048 - n mod 2048" "chunk_count (pos_addr n) left \<le> left" "0 < chunk_count (pos_addr n) left"
  using assms chunk_count_pos by (auto simp: chunk_count_def Let_def fields_pos_addr)

lemma pos_addr_add: "pos_addr n + of_nat k = pos_addr (n + k)"
  by (simp add: pos_addr_def)

lemma bank_page_less: "n < part_bytes \<Longrightarrow> n div 131072 < 1024" "n div 2048 mod 64 < (64 :: nat)"
  by (simp_all add: less_mult_imp_div_less)

lemma flash_write_chunk:
  assumes hw: "flash_hw_ok c cells work" and ok: "flash_ok cells work f" and n: "n < part_bytes"
    and w: "writable (cells (fl_hw f)) n src" "length src \<le> 2048 - n mod 2048"
  shows "\<exists>f1 f2. flash_read_page c (FLASH_BANK (pos_addr n)) (FLASH_PAGE (pos_addr n)) f = Some f1
    \<and> flash_flush_page c (FLASH_BANK (pos_addr n)) (FLASH_PAGE (pos_addr n))
        (f1\<lparr>flash_scratch_page := blit (flash_scratch_page f1) (unat (FLASH_OFFSET (pos_addr n))) src\<rparr>) = Some f2
    \<and> flash_ok cells work f2 \<and> cells (fl_hw f2) = programmed (cells (fl_hw f)) n src \<and> first_unused f2 = first_unused f"
proof -
  let ?b = "n div 131072" and ?p = "n div 2048 mod 64" and ?i = "n mod 2048" and ?m = "cells (fl_hw f)"
  let ?a = "?b * 131072 + ?p * 2048"
  have a: "?a + ?i = n" using page_split [of n] by simp
  have bp: "?b < 1024" "?p < 64" using bank_page_less(1) [OF n] by simp_all
  obtain f1 where f1: "flash_read_page c (of_nat ?b) (of_nat ?p) f = Some f1" "flash_ok cells work f1" "cells (fl_hw f1) = ?m"
    "flash_scratch_page f1 = page_of ?m ?a" "first_unused f1 = first_unused f" "flash_current_bank f1 = of_nat ?b" "flash_current_page f1 = of_nat ?p"
    using flash_read_page [OF hw ok bp] by blast
  let ?s = "blit (page_of ?m ?a) ?i src"
  have i: "?i < 2048" by simp
  have l: "length ?s = 2048" using w(2) i by (simp add: page_of_def)
  obtain h2 where h2: "flash_flush_page c (of_nat ?b) (of_nat ?p) (f1\<lparr>flash_scratch_page := ?s\<rparr>) = Some (f1\<lparr>flash_scratch_page := ?s, fl_hw := h2\<rparr>)"
    "work h2 = 0" "cells h2 = programmed ?m ?a ?s"
    using flash_flush_page [OF hw _ bp, of "f1\<lparr>flash_scratch_page := ?s\<rparr>"] l f1(3) by auto
  have m: "cells h2 = programmed ?m n src" unfolding h2(3) using programmed_page [OF w(2) i, of ?m ?a] a by simp
  have "?s = page_of (programmed ?m n src) ?a" using blit_programmed [OF w(2) i, of ?m ?a] w(1) a by simp
  then have "coherent (cells h2) (f1\<lparr>flash_scratch_page := ?s, fl_hw := h2\<rparr>)"
    unfolding coherent_def m using l f1(6,7) bp by (auto simp: of_nat32_eq)
  then have "flash_ok cells work (f1\<lparr>flash_scratch_page := ?s, fl_hw := h2\<rparr>)" using h2(2) by (simp add: flash_ok_def)
  then show ?thesis unfolding fields_pos_addr [OF n] using f1 h2(1) m by (auto intro!: exI [of _ "f1\<lparr>flash_scratch_page := ?s, fl_hw := h2\<rparr>"])
qed

lemma flash_write_loop:
  assumes hw: "flash_hw_ok c cells work"
  shows "flash_ok cells work f \<Longrightarrow> n + length src \<le> part_bytes \<Longrightarrow> writable (cells (fl_hw f)) n src \<Longrightarrow>
    \<exists>f'. flash_write_loop c (pos_addr n) src f = Some f' \<and> flash_ok cells work f' \<and> cells (fl_hw f') = programmed (cells (fl_hw f)) n src
      \<and> first_unused f' = first_unused f"
proof (induction "length src" arbitrary: n src f rule: less_induct)
  case less
  show ?case
  proof (cases "src = []")
    case True
    then show ?thesis using less.prems by (simp add: flash_write_loop.simps)
  next
    case False
    let ?k = "chunk_count (pos_addr n) (length src)"
    have n: "n < part_bytes" using less.prems(2) False by (cases src) simp_all
    have k: "?k \<le> 2048 - n mod 2048" "?k \<le> length src" "0 < ?k" using chunk_count_bounds [OF n] False by simp_all
    have "writable (cells (fl_hw f)) n (take ?k src)" using less.prems(3) k(2) by (simp add: writable_def)
    then obtain f1 f2 where s: "flash_read_page c (FLASH_BANK (pos_addr n)) (FLASH_PAGE (pos_addr n)) f = Some f1"
      "flash_flush_page c (FLASH_BANK (pos_addr n)) (FLASH_PAGE (pos_addr n))
        (f1\<lparr>flash_scratch_page := blit (flash_scratch_page f1) (unat (FLASH_OFFSET (pos_addr n))) (take ?k src)\<rparr>) = Some f2"
      "flash_ok cells work f2" "cells (fl_hw f2) = programmed (cells (fl_hw f)) n (take ?k src)" "first_unused f2 = first_unused f"
      using flash_write_chunk [OF hw less.prems(1) n, of "take ?k src"] k by auto
    have u: "flash_write_loop c (pos_addr n) src f = flash_write_loop c (pos_addr (n + ?k)) (drop ?k src) f2"
      using False s by (subst flash_write_loop.simps) (simp add: Let_def pos_addr_add)
    have wd: "writable (cells (fl_hw f2)) (n + ?k) (drop ?k src)" unfolding s(4) using less.prems(3) k(2) by (rule writable_drop)
    have lt: "length (drop ?k src) < length src" using k(2,3) by simp
    have le: "n + ?k + length (drop ?k src) \<le> part_bytes" using less.prems(2) k(2) by simp
    from less.hyps [OF lt s(3) le wd] show ?thesis unfolding u s(4,5) programmed_split [OF k(2)] .
  qed
qed

lemma flash_read_loop:
  assumes hw: "flash_hw_ok c cells work"
  shows "flash_ok cells work f \<Longrightarrow> n + left \<le> part_bytes \<Longrightarrow>
    \<exists>f'. flash_read_loop c (pos_addr n) left f = Some (map (cells (fl_hw f)) [n..<n + left], f') \<and> flash_ok cells work f'
      \<and> cells (fl_hw f') = cells (fl_hw f) \<and> first_unused f' = first_unused f"
proof (induction left arbitrary: n f rule: less_induct)
  case (less left)
  show ?case
  proof (cases "left = 0")
    case True
    then show ?thesis using less.prems by (simp add: flash_read_loop.simps)
  next
    case False
    let ?k = "chunk_count (pos_addr n) left" and ?m = "cells (fl_hw f)"
    let ?b = "n div 131072" and ?p = "n div 2048 mod 64" and ?i = "n mod 2048"
    have n: "n < part_bytes" using less.prems(2) False by simp
    have k: "?k \<le> 2048 - ?i" "?k \<le> left" "0 < ?k" using chunk_count_bounds [OF n] False by simp_all
    have bp: "?b < 1024" "?p < 64" using bank_page_less(1) [OF n] by simp_all
    obtain f1 where f1: "flash_read_page c (of_nat ?b) (of_nat ?p) f = Some f1" "flash_ok cells work f1" "cells (fl_hw f1) = ?m"
      "flash_scratch_page f1 = page_of ?m (?b * 131072 + ?p * 2048)" "first_unused f1 = first_unused f"
      using flash_read_page [OF hw less.prems(1) bp] by blast
    have i: "?b * 131072 + ?p * 2048 + ?i = n" "?i < 2048" using page_split [of n] by simp_all
    then have "n + ?k \<le> ?b * 131072 + ?p * 2048 + 2048" using k(1) by linarith
    then have c: "take ?k (drop ?i (flash_scratch_page f1)) = map ?m [n..<n + ?k]"
      unfolding f1(4) page_of_def drop_map take_map drop_upt i(1) by (simp add: take_upt)
    obtain f' where r: "flash_read_loop c (pos_addr (n + ?k)) (left - ?k) f1 = Some (map ?m [n + ?k..<n + left], f')"
      "flash_ok cells work f'" "cells (fl_hw f') = ?m" "first_unused f' = first_unused f"
      using less.IH [of "left - ?k" f1 "n + ?k"] k f1 less.prems(2) by auto
    have "map ?m [n..<n + ?k] @ map ?m [n + ?k..<n + left] = map ?m [n..<n + left]"
      using upt_add_eq_append [of n "n + ?k" "left - ?k"] k(2) by simp
    then have "flash_read_loop c (pos_addr n) left f = Some (map ?m [n..<n + left], f')"
      using False f1(1) r(1) c fields_pos_addr [OF n] by (subst flash_read_loop.simps) (simp add: Let_def pos_addr_add)
    then show ?thesis using r by blast
  qed
qed

lemma range_check:
  assumes "n + sz < part_bytes"
  shows "\<not> (pos_addr n < FLASH_ADDR_BASE \<or> pos_addr n + of_nat sz \<ge> FLASH_ADDR_MAX \<or> (of_nat sz :: u32) > FLASH_PART_BYTES)"
proof -
  have "unat (pos_addr n) = 3758096384 + n" "unat (pos_addr (n + sz)) = 3758096384 + (n + sz)" "unat (of_nat sz :: u32) = sz"
    using assms by (auto intro!: unat_pos_addr unat_of_nat32)
  then show ?thesis using assms unfolding pos_addr_add by (simp add: word_less_nat_alt word_le_nat_alt)
qed

lemma flash_writemem:
  assumes "flash_hw_ok c cells work" "flash_ok cells work f" "n + length src < part_bytes" "writable (cells (fl_hw f)) n src"
  shows "\<exists>f'. flash_writemem c (pos_addr n) src f = Some (MSEL_OK, f') \<and> flash_ok cells work f'
    \<and> cells (fl_hw f') = programmed (cells (fl_hw f)) n src \<and> first_unused f' = first_unused f"
  using flash_write_loop [OF assms(1,2) _ assms(4)] assms(3) range_check [OF assms(3)] unfolding flash_writemem_def Let_def
  by (auto simp del: of_nat_add)

lemma flash_readmem:
  assumes "flash_hw_ok c cells work" "flash_ok cells work f" "n + length dst < part_bytes"
  shows "\<exists>f'. flash_readmem c dst (pos_addr n) f = Some (MSEL_OK, map (cells (fl_hw f)) [n..<n + length dst], f') \<and> flash_ok cells work f'
    \<and> cells (fl_hw f') = cells (fl_hw f) \<and> first_unused f' = first_unused f"
  using flash_read_loop [OF assms(1,2), of n "length dst"] assms(3) range_check [OF assms(3)] unfolding flash_readmem_def Let_def
  by (auto simp del: of_nat_add)

definition erased :: "nat \<Rightarrow> (nat \<Rightarrow> u8) \<Rightarrow> nat \<Rightarrow> u8" where
  "erased b m n = (if n div 131072 = b then 0xff else m n)"

lemma minus_one_neq: "b < 1024 \<Longrightarrow> (- 1 :: u32) \<noteq> of_nat b"
proof
  assume "b < 1024" "(- 1 :: u32) = of_nat b"
  moreover from this have "unat (of_nat b :: u32) = b" by (intro unat_of_nat32) simp
  moreover have "unat (- 1 :: u32) = 4294967295" by (simp add: unsigned_minus_1_eq_mask mask_eq_exp_minus_1)
  ultimately show False by (simp only:)
qed

lemma flash_erase_bank:
  assumes hw: "flash_hw_ok c cells work" and ok: "flash_ok cells work f" and b: "b < 1024"
  shows "\<exists>f'. flash_erase_bank c (of_nat b) f = Some (MSEL_OK, f') \<and> flash_ok cells work f' \<and> cells (fl_hw f') = erased b (cells (fl_hw f))
    \<and> first_unused f' = first_unused f"
proof -
  have ub: "unat (of_nat b :: u32) = b" using b by (intro unat_of_nat32) simp
  obtain s h1 where s: "hw_status c (fl_hw f) = (s, h1)" by fastforce
  note k = hw_status_ok [OF hw s]
  have w: "work (fl_hw f) = 0" using ok by (simp add: flash_ok_def)
  have nb: "FLASH_IS_BUSY c f = (False, f\<lparr>fl_hw := h1\<rparr>)" using s k(4) w by (simp add: FLASH_IS_BUSY_def)
  let ?h2 = "hw_erase c (of_nat b) h1"
  have e: "cells ?h2 = erased b (cells (fl_hw f))"
    using hw k(1,3) w unfolding flash_hw_ok_def by (simp add: ub erased_def fun_eq_iff)
  define g where "g = (drop_cache (f\<lparr>fl_hw := h1\<rparr>))\<lparr>fl_hw := ?h2\<rparr>"
  obtain h3 where h3: "flash_wait c g = Some (g\<lparr>fl_hw := h3\<rparr>)" "cells h3 = cells ?h2" "work h3 = 0"
    using flash_wait [OF hw, of g] by (auto simp: g_def)
  obtain s' h4 where s': "hw_status c h3 = (s', h4)" by fastforce
  note k' = hw_status_ok [OF hw s']
  have res: "flash_erase_bank c (of_nat b) f = Some (MSEL_OK, g\<lparr>fl_hw := h4\<rparr>)"
    unfolding flash_erase_bank_def using nb h3(1) s' k'(5) b
    by (simp add: g_def drop_cache_def Let_def FLASH_HAD_ERROR_def word_less_nat_alt ub)
  have "coherent m (g\<lparr>fl_hw := h4\<rparr>)" for m
    using ok unfolding coherent_def flash_ok_def g_def drop_cache_def by (auto simp: minus_one_neq)
  then show ?thesis unfolding res using k'(1,3) h3 e by (auto simp: flash_ok_def g_def drop_cache_def)
qed

end
