(* ===== verification/Mtc.thy ===== *)
theory Mtc
  imports Flash
begin

unbundle bit_operations_syntax

text \<open>
  The monotonic counter, the master key and provisioning: \<^verbatim>\<open>arch/openrisc/mtc.c\<close>, \<^verbatim>\<open>master_key.c\<close> and the
  drivers \<^verbatim>\<open>driver/mtc.c\<close>, \<^verbatim>\<open>driver/master_key.c\<close>, \<^verbatim>\<open>driver/provision.c\<close>. The counter lives in one bank of the
  flash, as an array of 64-bit values that is filled in order; memory is big-endian. The argument
  \<open>stk\<close> stands for the initial contents of the 8-byte local variables.
\<close>

section \<open>The counter\<close>

abbreviation (input) MTC_BANK_NUM :: u32 where "MTC_BANK_NUM \<equiv> 1020"
abbreviation (input) MTC_ENTRY_UNUSED :: u64 where "MTC_ENTRY_UNUSED \<equiv> 0xffffffffffffffff"
abbreviation (input) MTC_SIZE :: nat where "MTC_SIZE \<equiv> 8"

definition MTC_START_ADDR :: u32 where
  "MTC_START_ADDR = FLASH_ADDR MTC_BANK_NUM 0 0"

definition mtc_value :: "bytes \<Rightarrow> u64" where
  "mtc_value bs = of_nat (be_num bs)"

text \<open>The two loops of the search; the inner one stops at \<^verbatim>\<open>FLASH_PAGE_BYTES/sizeof(mtc_t)\<close>.\<close>

function mtc_scan_page :: "'h flash_hw \<Rightarrow> nat \<Rightarrow> nat \<Rightarrow> bytes \<Rightarrow> 'h flash \<Rightarrow> (u32 option \<times> bytes \<times> 'h flash) option" where
  "mtc_scan_page c page offset scratch f =
     (if offset < FLASH_PAGE_BYTES div MTC_SIZE
      then let check = FLASH_ADDR MTC_BANK_NUM (of_nat page) (of_nat offset)
           in case flash_readmem c scratch check f of None \<Rightarrow> None
              | Some (_, scratch, f) \<Rightarrow>
                  if mtc_value scratch = MTC_ENTRY_UNUSED then Some (Some check, scratch, f\<lparr>first_unused := check\<rparr>)
                  else mtc_scan_page c page (offset + MTC_SIZE) scratch f
      else Some (None, scratch, f))"
  by pat_completeness auto
termination
  by (relation "measure (\<lambda>(c, page, offset, scratch, f). 256 - offset)") auto

function mtc_scan :: "'h flash_hw \<Rightarrow> nat \<Rightarrow> nat \<Rightarrow> bytes \<Rightarrow> 'h flash \<Rightarrow> (u32 \<times> 'h flash) option" where
  "mtc_scan c page offset scratch f =
     (if page < FLASH_BANK_PAGES
      then case mtc_scan_page c page offset scratch f of None \<Rightarrow> None
           | Some (Some check, scratch, f) \<Rightarrow> Some (check, f)
           | Some (None, scratch, f) \<Rightarrow> mtc_scan c (page + 1) 0 scratch f
      else Some (MTC_START_ADDR, f\<lparr>first_unused := MTC_START_ADDR\<rparr>))"
  by pat_completeness auto
termination
  by (relation "measure (\<lambda>(c, page, offset, scratch, f). 64 - page)") auto

declare mtc_scan_page.simps [simp del] mtc_scan.simps [simp del]

definition mtc_find_first_unused :: "'h flash_hw \<Rightarrow> bytes \<Rightarrow> 'h flash \<Rightarrow> (u32 \<times> 'h flash) option" where
  "mtc_find_first_unused c stk f =
     (let f = (if first_unused f = 0 then f\<lparr>first_unused := MTC_START_ADDR\<rparr> else f)
      in mtc_scan c (unat (FLASH_PAGE (first_unused f))) (unat (FLASH_OFFSET (first_unused f))) stk f)"

definition mtc_next :: "u64 \<Rightarrow> u64 \<Rightarrow> u64" where
  "mtc_next forced_next lastmtc =
     (let nextmtc = (if forced_next \<noteq> 0 \<and> forced_next \<noteq> MTC_ENTRY_UNUSED then forced_next else lastmtc + 1)
      in if nextmtc = MTC_ENTRY_UNUSED then 0 else nextmtc)"

text \<open>The status, the value stored through \<^verbatim>\<open>retval\<close>, if any, and the state.\<close>

definition mtc_increment_store :: "'h flash_hw \<Rightarrow> bytes \<Rightarrow> u64 \<Rightarrow> 'h flash \<Rightarrow> (msel_status \<times> u64 option \<times> 'h flash) option" where
  "mtc_increment_store c stk forced_next f =
     (case mtc_find_first_unused c stk f of None \<Rightarrow> None
      | Some (nextptr, f) \<Rightarrow>
        (let lastptr = nextptr - of_nat MTC_SIZE;
             lastptr = (if lastptr < MTC_START_ADDR then FLASH_ADDR MTC_BANK_NUM 64 (of_nat (FLASH_PAGE_BYTES - MTC_SIZE)) else lastptr)
         in case flash_readmem c stk lastptr f of None \<Rightarrow> None
            | Some (_, lastmtc, f) \<Rightarrow>
              (let nextmtc = mtc_next forced_next (mtc_value lastmtc)
               in case (if nextptr = MTC_START_ADDR then flash_erase_bank c MTC_BANK_NUM f else Some (MSEL_OK, f)) of None \<Rightarrow> None
                  | Some (ret, f) \<Rightarrow>
                    if ret \<noteq> MSEL_OK then Some (ret, None, f)
                    else (case flash_writemem c nextptr (be_bytes MTC_SIZE nextmtc) f of None \<Rightarrow> None
                      | Some (ret, f) \<Rightarrow> if ret \<noteq> MSEL_OK then Some (ret, None, f) else Some (MSEL_OK, Some nextmtc, f)))))"

text \<open>\<open>None\<close> for \<open>val\<close> is the null pointer; the second result is what \<^verbatim>\<open>val\<close> points to afterwards.\<close>

definition arch_mtc_read_increment :: "'h flash_hw \<Rightarrow> bytes \<Rightarrow> u64 option \<Rightarrow> 'h flash \<Rightarrow> (msel_status \<times> u64 option \<times> 'h flash) option" where
  "arch_mtc_read_increment c stk val f =
     (if val = None then Some (MSEL_EINVAL, None, f)
      else let val = MTC_ENTRY_UNUSED
           in case mtc_increment_store c stk 0 f of None \<Rightarrow> None
              | Some (ret, v, f) \<Rightarrow> Some (ret, Some (case v of None \<Rightarrow> val | Some x \<Rightarrow> x), f))"

definition arch_mtc_write :: "'h flash_hw \<Rightarrow> bytes \<Rightarrow> u64 \<Rightarrow> 'h flash \<Rightarrow> (msel_status \<times> 'h flash) option" where
  "arch_mtc_write c stk val f = map_option (\<lambda>(ret, _, f). (ret, f)) (mtc_increment_store c stk val f)"

definition msel_mtc_read_increment :: "'h flash_hw \<Rightarrow> bytes \<Rightarrow> u64 option \<Rightarrow> 'h flash \<Rightarrow> (msel_status \<times> u64 option \<times> 'h flash) option" where
  "msel_mtc_read_increment c stk val f = arch_mtc_read_increment c stk val f"

definition msel_mtc_write :: "'h flash_hw \<Rightarrow> bytes \<Rightarrow> u64 \<Rightarrow> 'h flash \<Rightarrow> (msel_status \<times> 'h flash) option" where
  "msel_mtc_write c stk val f = arch_mtc_write c stk val f"

section \<open>The master key and provisioning\<close>

abbreviation (input) MKEY_BANK_NUM :: u32 where "MKEY_BANK_NUM \<equiv> 1022"
abbreviation (input) MASTER_KEY_SIZE :: nat where "MASTER_KEY_SIZE \<equiv> 256"

text \<open>The buffers of the key hold \<^verbatim>\<open>MASTER_KEY_SIZE\<close> bytes.\<close>

definition arch_master_key_read :: "'h flash_hw \<Rightarrow> bytes \<Rightarrow> 'h flash \<Rightarrow> (msel_status \<times> bytes \<times> 'h flash) option" where
  "arch_master_key_read c val f =
     (case flash_readmem c val (FLASH_ADDR MKEY_BANK_NUM 0 0) f of None \<Rightarrow> None | Some (_, val, f) \<Rightarrow> Some (MSEL_OK, val, f))"

definition arch_master_key_write :: "'h flash_hw \<Rightarrow> bytes \<Rightarrow> 'h flash \<Rightarrow> (msel_status \<times> 'h flash) option" where
  "arch_master_key_write c val f =
     (case flash_erase_bank c MKEY_BANK_NUM f of None \<Rightarrow> None | Some (_, f) \<Rightarrow> flash_writemem c (FLASH_ADDR MKEY_BANK_NUM 0 0) val f)"

definition msel_master_key_read :: "'h flash_hw \<Rightarrow> bytes \<Rightarrow> 'h flash \<Rightarrow> (msel_status \<times> bytes \<times> 'h flash) option" where
  "msel_master_key_read c val f = arch_master_key_read c val f"

definition msel_master_key_write :: "'h flash_hw \<Rightarrow> bytes \<Rightarrow> 'h flash \<Rightarrow> (msel_status \<times> 'h flash) option" where
  "msel_master_key_write c val f = arch_master_key_write c val f"

record provision_args =
  prov_key :: bytes
  prov_mtc :: u64

definition msel_provision :: "'h flash_hw \<Rightarrow> bytes \<Rightarrow> provision_args \<Rightarrow> 'h flash \<Rightarrow> (msel_status \<times> 'h flash) option" where
  "msel_provision c stk arg f =
     (case msel_mtc_write c stk (prov_mtc arg) f of None \<Rightarrow> None
      | Some (ret, f) \<Rightarrow>
        if ret \<noteq> MSEL_OK then Some (ret, f)
        else (case msel_master_key_write c (prov_key arg) f of None \<Rightarrow> None
          | Some (ret, f) \<Rightarrow> if ret \<noteq> MSEL_OK then Some (ret, f) else Some (MSEL_OK, f)))"

section \<open>The counter bank\<close>

abbreviation (input) mtc_base :: nat where "mtc_base \<equiv> 133693440"

text \<open>Entry \<open>j\<close> of page \<open>p\<close> of the bank, and its address.\<close>

definition entry_pos :: "nat \<Rightarrow> nat \<Rightarrow> nat" where "entry_pos p j = mtc_base + p * 2048 + 8 * j"

definition mtc_entry :: "(nat \<Rightarrow> u8) \<Rightarrow> nat \<Rightarrow> nat \<Rightarrow> u64" where
  "mtc_entry m p j = mtc_value (map m [entry_pos p j..<entry_pos p j + 8])"

text \<open>The first 32 entries of the pages before \<open>p\<close> and the first \<open>k\<close> of page \<open>p\<close> are used, the rest of the bank is erased.\<close>

definition used_byte :: "nat \<Rightarrow> nat \<Rightarrow> nat \<Rightarrow> bool" where
  "used_byte p k n \<longleftrightarrow> n mod 2048 < 256 \<and> ((n - mtc_base) div 2048 < p \<or> (n - mtc_base) div 2048 = p \<and> n mod 2048 < 8 * k)"

definition mtc_bank :: "(nat \<Rightarrow> u8) \<Rightarrow> nat \<Rightarrow> nat \<Rightarrow> bool" where
  "mtc_bank m p k \<longleftrightarrow> (\<forall>p' < p. \<forall>j < 32. mtc_entry m p' j \<noteq> MTC_ENTRY_UNUSED) \<and> (\<forall>j < k. mtc_entry m p j \<noteq> MTC_ENTRY_UNUSED)
     \<and> (\<forall>n. n div 131072 = 1020 \<longrightarrow> \<not> used_byte p k n \<longrightarrow> m n = 0xff)"

text \<open>The search pointer is null or at an entry that is not behind the first unused one.\<close>

definition search_ok :: "'h flash \<Rightarrow> nat \<Rightarrow> nat \<Rightarrow> bool" where
  "search_ok f p k \<longleftrightarrow> first_unused f = 0 \<or>
     (\<exists>p' j. p' < 64 \<and> j < 32 \<and> (p' < p \<or> p' = p \<and> j \<le> k) \<and> first_unused f = pos_addr (entry_pos p' j))"

lemma entry_byte:
  assumes "p < 64" "j < 256" "i < 8"
  shows "(entry_pos p j + i) div 131072 = 1020" "(entry_pos p j + i) mod 2048 = 8 * j + i" "(entry_pos p j + i - mtc_base) div 2048 = p"
proof -
  let ?n = "entry_pos p j + i"
  have "8 * j + i < 2048" using assms by simp
  moreover have "?n = 8 * j + i + (65280 + p) * 2048" by (simp add: entry_pos_def)
  ultimately show "?n mod 2048 = 8 * j + i" by (simp only: mod_mult_self1 mod_less)
  have "p * 2048 + (8 * j + i) < 131072" using assms by simp
  moreover have "?n = p * 2048 + (8 * j + i) + 1020 * 131072" by (simp add: entry_pos_def)
  ultimately show "?n div 131072 = 1020" by simp
  have "?n - mtc_base = 8 * j + i + p * 2048" by (simp add: entry_pos_def)
  then show "(?n - mtc_base) div 2048 = p" using \<open>8 * j + i < 2048\<close> by simp
qed

lemma entry_unused:
  assumes "\<forall>i < 8. m (entry_pos p j + i) = 0xff"
  shows "mtc_entry m p j = MTC_ENTRY_UNUSED"
proof -
  have "map m [entry_pos p j..<entry_pos p j + 8] = replicate 8 0xff" using assms by (intro nth_equalityI) simp_all
  moreover have "replicate 8 (0xff :: u8) = [0xff, 0xff, 0xff, 0xff, 0xff, 0xff, 0xff, 0xff]" by code_simp
  then have "mtc_value (replicate 8 0xff) = MTC_ENTRY_UNUSED" by (simp add: mtc_value_def be_num_Cons)
  ultimately show ?thesis by (simp add: mtc_entry_def)
qed

lemma bank_unused:
  assumes "mtc_bank m p k" "p' < 64" "j < 256" "32 \<le> j \<or> p < p' \<or> p' = p \<and> k \<le> j"
  shows "\<forall>i < 8. m (entry_pos p' j + i) = 0xff" "mtc_entry m p' j = MTC_ENTRY_UNUSED"
proof -
  show u: "\<forall>i < 8. m (entry_pos p' j + i) = 0xff"
  proof (intro allI impI)
    fix i :: nat assume i: "i < 8"
    note e = entry_byte [OF assms(2,3) i]
    have "\<not> used_byte p k (entry_pos p' j + i)" unfolding used_byte_def e using assms(4) by auto
    then show "m (entry_pos p' j + i) = 0xff" using assms(1) e(1) by (simp add: mtc_bank_def)
  qed
  then show "mtc_entry m p' j = MTC_ENTRY_UNUSED" by (rule entry_unused)
qed

lemma entry_addr: "p < 64 \<Longrightarrow> j < 256 \<Longrightarrow> FLASH_ADDR MTC_BANK_NUM (of_nat p) (of_nat (8 * j)) = pos_addr (entry_pos p j)"
  using flash_addr [of 1020 p "8 * j"] by (simp add: entry_pos_def)

lemma start_addr: "MTC_START_ADDR = pos_addr (entry_pos 0 0)"
  unfolding MTC_START_ADDR_def using entry_addr [of 0 0] by simp

lemma flash_ok_first_unused [simp]: "flash_ok cells work (f\<lparr>first_unused := a\<rparr>) = flash_ok cells work f"
  by (simp add: flash_ok_def coherent_def)

lemma read_entry:
  assumes "flash_hw_ok c cells work" "flash_ok cells work f" "length scratch = 8" "p < 64" "j < 256"
  shows "\<exists>s f'. flash_readmem c scratch (pos_addr (entry_pos p j)) f = Some (MSEL_OK, s, f') \<and> mtc_value s = mtc_entry (cells (fl_hw f)) p j
    \<and> length s = 8 \<and> flash_ok cells work f' \<and> cells (fl_hw f') = cells (fl_hw f) \<and> first_unused f' = first_unused f"
proof -
  have "entry_pos p j + length scratch < part_bytes" using assms(3-5) by (simp add: entry_pos_def)
  from flash_readmem [OF assms(1,2) this] show ?thesis using assms(3) by (fastforce simp: mtc_entry_def)
qed

lemma mtc_scan_page:
  assumes hw: "flash_hw_ok c cells work" and p: "p < 64"
  shows "flash_ok cells work f \<Longrightarrow> length scratch = 8 \<Longrightarrow> j \<le> k \<Longrightarrow> k \<le> 32 \<Longrightarrow>
    (\<forall>i. j \<le> i \<and> i < k \<longrightarrow> mtc_entry (cells (fl_hw f)) p i \<noteq> MTC_ENTRY_UNUSED) \<Longrightarrow>
    (k < 32 \<longrightarrow> mtc_entry (cells (fl_hw f)) p k = MTC_ENTRY_UNUSED) \<Longrightarrow>
    \<exists>s' f'. mtc_scan_page c p (8 * j) scratch f = Some (if k < 32 then Some (pos_addr (entry_pos p k)) else None, s', f') \<and> length s' = 8
      \<and> flash_ok cells work f' \<and> cells (fl_hw f') = cells (fl_hw f)
      \<and> first_unused f' = (if k < 32 then pos_addr (entry_pos p k) else first_unused f)"
proof (induction "32 - j" arbitrary: j scratch f)
  case 0
  then have "j = 32" "k = 32" by simp_all
  then show ?case using 0 by (subst mtc_scan_page.simps) simp
next
  case (Suc n)
  have j: "j < 32" using Suc(2) by simp
  have j256: "j < 256" using j by simp
  obtain s f1 where r: "flash_readmem c scratch (pos_addr (entry_pos p j)) f = Some (MSEL_OK, s, f1)"
    "mtc_value s = mtc_entry (cells (fl_hw f)) p j" "length s = 8" "flash_ok cells work f1" "cells (fl_hw f1) = cells (fl_hw f)" "first_unused f1 = first_unused f"
    using read_entry [OF hw Suc.prems(1,2) p j256] by blast
  have u: "mtc_scan_page c p (8 * j) scratch f =
     (if mtc_value s = MTC_ENTRY_UNUSED then Some (Some (pos_addr (entry_pos p j)), s, f1\<lparr>first_unused := pos_addr (entry_pos p j)\<rparr>)
      else mtc_scan_page c p (8 * Suc j) s f1)"
    using r(1) entry_addr [OF p j256] j by (subst mtc_scan_page.simps) (simp add: Let_def add.commute)
  show ?case
  proof (cases "j = k")
    case True
    then show ?thesis unfolding u using r j Suc.prems(6) by auto
  next
    case False
    then have "mtc_value s \<noteq> MTC_ENTRY_UNUSED" using r(2) Suc.prems(3,5) by auto
    then show ?thesis unfolding u using Suc(1) [of "Suc j" f1 s] Suc(2) Suc.prems False r by auto
  qed
qed

text \<open>The place where the next value goes: the first unused entry, or the start of a full bank.\<close>

definition next_place :: "nat \<Rightarrow> nat \<Rightarrow> u32" where
  "next_place p k = (if p < 64 then pos_addr (entry_pos p k) else MTC_START_ADDR)"

lemma mtc_scan:
  assumes hw: "flash_hw_ok c cells work" and pk: "p \<le> 64" "k < 32"
  shows "flash_ok cells work f \<Longrightarrow> mtc_bank (cells (fl_hw f)) p k \<Longrightarrow> length scratch = 8 \<Longrightarrow> j < 32 \<Longrightarrow> p0 < p \<or> p0 = p \<and> j \<le> k \<Longrightarrow>
    \<exists>f'. mtc_scan c p0 (8 * j) scratch f = Some (next_place p k, f') \<and> flash_ok cells work f' \<and> cells (fl_hw f') = cells (fl_hw f)
      \<and> first_unused f' = next_place p k"
proof (induction "64 - p0" arbitrary: p0 j scratch f)
  case 0
  then have "p0 = 64" "p = 64" using pk by simp_all
  then show ?case using 0 by (subst mtc_scan.simps) (simp add: next_place_def)
next
  case (Suc n)
  have p0: "p0 < 64" using Suc(2) by simp
  show ?case
  proof (cases "p0 = p")
    case True
    have k256: "k < 256" using pk by simp
    have "mtc_entry (cells (fl_hw f)) p k = MTC_ENTRY_UNUSED" using bank_unused(2) [OF Suc.prems(2)] p0 True k256 by simp
    then obtain s f1 where "mtc_scan_page c p (8 * j) scratch f = Some (Some (pos_addr (entry_pos p k)), s, f1)" "flash_ok cells work f1"
      "cells (fl_hw f1) = cells (fl_hw f)" "first_unused f1 = pos_addr (entry_pos p k)"
      using mtc_scan_page [OF hw _ Suc.prems(1,3), of p j k] Suc.prems True pk p0 by (auto simp: mtc_bank_def)
    then show ?thesis using True p0 by (subst mtc_scan.simps) (simp add: next_place_def)
  next
    case False
    then have lt: "p0 < p" using Suc.prems(5) by simp
    obtain s f1 where s: "mtc_scan_page c p0 (8 * j) scratch f = Some (None, s, f1)" "length s = 8" "flash_ok cells work f1"
      "cells (fl_hw f1) = cells (fl_hw f)" "first_unused f1 = first_unused f"
      using mtc_scan_page [OF hw p0 Suc.prems(1,3), of j 32] Suc.prems(2,4) lt by (auto simp: mtc_bank_def)
    have u: "mtc_scan c p0 (8 * j) scratch f = mtc_scan c (Suc p0) (8 * 0) s f1" using s(1) p0 by (subst mtc_scan.simps) simp
    have "n = 64 - Suc p0" "Suc p0 < p \<or> Suc p0 = p \<and> 0 \<le> k" using Suc(2) lt by auto
    from Suc(1) [OF this(1) s(3) _ s(2) _ this(2)] show ?thesis unfolding u s(4) [symmetric] using Suc.prems(2) s(4) by simp
  qed
qed

lemma mtc_find:
  assumes "flash_hw_ok c cells work" "flash_ok cells work f" "mtc_bank (cells (fl_hw f)) p k" "p \<le> 64" "k < 32" "p < 64 \<or> k = 0"
    and "search_ok f p k" "length stk = 8"
  shows "\<exists>f'. mtc_find_first_unused c stk f = Some (next_place p k, f') \<and> flash_ok cells work f' \<and> cells (fl_hw f') = cells (fl_hw f)
      \<and> first_unused f' = next_place p k"
proof -
  let ?f = "if first_unused f = 0 then f\<lparr>first_unused := MTC_START_ADDR\<rparr> else f"
  have ok: "flash_ok cells work ?f" "cells (fl_hw ?f) = cells (fl_hw f)" using assms(2) by simp_all
  obtain p' j where q: "p' < 64" "j < 32" "p' < p \<or> p' = p \<and> j \<le> k" "first_unused ?f = pos_addr (entry_pos p' j)"
  proof (cases "first_unused f = 0")
    case True
    then show thesis using that [of 0 0] start_addr by (auto simp: not_less)
  next
    case False
    then show thesis using that assms(7) by (auto simp: search_ok_def)
  qed
  have n: "entry_pos p' j < part_bytes" using q(1,2) by (simp add: entry_pos_def)
  have "entry_pos p' j div 2048 mod 64 = p'" "entry_pos p' j mod 2048 = 8 * j"
  proof -
    have e: "entry_pos p' j = 8 * j + (65280 + p') * 2048" by (simp add: entry_pos_def)
    have "8 * j < 2048" using q(2) by simp
    then show "entry_pos p' j mod 2048 = 8 * j" unfolding e by (simp only: mod_mult_self1 mod_less)
    have "entry_pos p' j div 2048 = 65280 + p'" unfolding e using \<open>8 * j < 2048\<close> by simp
    moreover have "(65280 + p') mod 64 = p'" using mod_mult_self2 [of p' 64 1020] q(1) by (simp add: add.commute)
    ultimately show "entry_pos p' j div 2048 mod 64 = p'" by simp
  qed
  then have a: "unat (FLASH_PAGE (first_unused ?f)) = p'" "unat (FLASH_OFFSET (first_unused ?f)) = 8 * j"
    unfolding q(4) fields_pos_addr [OF n] using q(1) by (simp_all add: unat_of_nat32)
  have "mtc_bank (cells (fl_hw ?f)) p k" using assms(3) ok(2) by simp
  from mtc_scan [OF assms(1,4,5) ok(1) this assms(8) q(2,3)] show ?thesis
    unfolding mtc_find_first_unused_def Let_def a ok(2) .
qed

definition last_value :: "(nat \<Rightarrow> u8) \<Rightarrow> nat \<Rightarrow> nat \<Rightarrow> u64" where
  "last_value m p k = (if 0 < k then mtc_entry m p (k - 1) else MTC_ENTRY_UNUSED)"

definition last_ptr :: "u32 \<Rightarrow> u32" where
  "last_ptr nextptr = (if nextptr - of_nat MTC_SIZE < MTC_START_ADDR then FLASH_ADDR MTC_BANK_NUM 64 (of_nat (FLASH_PAGE_BYTES - MTC_SIZE))
     else nextptr - of_nat MTC_SIZE)"

lemma pos_addr_minus: "8 \<le> n \<Longrightarrow> pos_addr n - of_nat 8 = pos_addr (n - 8)"
  by (simp add: pos_addr_def of_nat_diff)

lemma last_ptr:
  assumes "p < 64 \<or> k = 0" "k < 32"
  shows "\<exists>q j. q < 64 \<and> j < 256 \<and> last_ptr (next_place p k) = pos_addr (entry_pos q j)
    \<and> (0 < k \<and> q = p \<and> j = k - 1 \<or> k = 0 \<and> 32 \<le> j)"
proof -
  have wrap: "FLASH_ADDR MTC_BANK_NUM 64 (of_nat (FLASH_PAGE_BYTES - MTC_SIZE)) = pos_addr (entry_pos 0 255)"
    by (simp add: FLASH_ADDR_def pos_addr_def entry_pos_def)
  have start: "unat MTC_START_ADDR = 3758096384 + mtc_base" unfolding start_addr by (subst unat_pos_addr) (simp_all add: entry_pos_def)
  show ?thesis
  proof (cases "p = 0 \<and> k = 0 \<or> 64 \<le> p")
    case True
    then have "next_place p k = pos_addr (entry_pos 0 0)" by (auto simp: next_place_def start_addr)
    then have "next_place p k - of_nat 8 = pos_addr (entry_pos 0 0 - 8)" by (simp only:) (rule pos_addr_minus, simp add: entry_pos_def)
    moreover have "pos_addr (entry_pos 0 0 - 8) < MTC_START_ADDR"
      unfolding word_less_nat_alt start by (subst unat_pos_addr) (simp_all add: entry_pos_def)
    ultimately have "last_ptr (next_place p k) = pos_addr (entry_pos 0 255)" unfolding last_ptr_def wrap by simp
    moreover have "k = 0" using True assms by auto
    ultimately show ?thesis by (intro exI [of _ 0] exI [of _ 255]) simp
  next
    case False
    let ?n = "entry_pos p k - 8"
    have p: "p < 64" using False by simp
    have n: "mtc_base \<le> ?n" "?n < part_bytes" using False p assms(2) by (auto simp: entry_pos_def)
    have m: "next_place p k - of_nat 8 = pos_addr ?n" unfolding next_place_def using p by (simp only: if_True) (rule pos_addr_minus, simp add: entry_pos_def)
    have "\<not> pos_addr ?n < MTC_START_ADDR" unfolding word_less_nat_alt start unat_pos_addr [OF n(2)] using n(1) by simp
    then have l: "last_ptr (next_place p k) = pos_addr ?n" unfolding last_ptr_def m by simp
    show ?thesis
    proof (cases "0 < k")
      case True
      then have "?n = entry_pos p (k - 1)" by (cases k) (simp_all add: entry_pos_def)
      then show ?thesis using l p True assms(2) by (intro exI [of _ p] exI [of _ "k - 1"]) simp
    next
      case k0: False
      then have "?n = entry_pos (p - 1) 255" using False by (cases p) (simp_all add: entry_pos_def)
      then show ?thesis using l p k0 by (intro exI [of _ "p - 1"] exI [of _ 255]) simp
    qed
  qed
qed

lemma mtc_next_used: "mtc_next v l \<noteq> MTC_ENTRY_UNUSED"
  by (simp add: mtc_next_def Let_def)

text \<open>Writing a value to the first unused entry.\<close>

lemma store_entry:
  assumes "mtc_bank m p k" "p < 64" "k < 32" "v \<noteq> MTC_ENTRY_UNUSED"
  defines "m' \<equiv> programmed m (entry_pos p k) (be_bytes 8 v)"
  shows "writable m (entry_pos p k) (be_bytes 8 v)" "mtc_bank m' p (Suc k)" "mtc_entry m' p k = v"
    "n div 131072 \<noteq> 1020 \<Longrightarrow> m' n = m n"
proof -
  have k: "k < 256" using assms(3) by simp
  have ff: "\<forall>i < 8. m (entry_pos p k + i) = 0xff" using bank_unused(1) [OF assms(1,2) k] by simp
  have "(0xff :: u8) = - 1" by simp
  then have one: "(0xff :: u8) AND x = x" for x by (simp only: and.left_neutral)
  show "writable m (entry_pos p k) (be_bytes 8 v)" unfolding writable_def using ff one by simp
  have "map m' [entry_pos p k..<entry_pos p k + 8] = be_bytes 8 v"
    using ff one by (intro nth_equalityI) (simp_all add: m'_def programmed_def)
  moreover have "of_nat (be_num (be_bytes 8 v)) = v" by (rule of_nat_le_num) simp
  ultimately show e: "mtc_entry m' p k = v" by (simp add: mtc_entry_def mtc_value_def)
  have out: "m' n = m n" if "\<not> (n div 131072 = 1020 \<and> (n - mtc_base) div 2048 = p \<and> 8 * k \<le> n mod 2048 \<and> n mod 2048 < 8 * Suc k)" for n
  proof (cases "entry_pos p k \<le> n \<and> n < entry_pos p k + 8")
    case True
    then obtain i where "n = entry_pos p k + i" "i < 8" by (metis add_less_cancel_left le_Suc_ex)
    then show ?thesis using entry_byte [OF assms(2) k] that by simp
  next
    case False
    then show ?thesis by (auto simp: m'_def programmed_def)
  qed
  show "n div 131072 \<noteq> 1020 \<Longrightarrow> m' n = m n" using out by blast
  have other: "mtc_entry m' q j = mtc_entry m q j" if "q < 64" "j < 256" "(q, j) \<noteq> (p, k)" for q j
  proof -
    have "m' (entry_pos q j + i) = m (entry_pos q j + i)" if i: "i < 8" for i
      using entry_byte [OF \<open>q < 64\<close> \<open>j < 256\<close> i] \<open>(q, j) \<noteq> (p, k)\<close> i by (intro out) auto
    then have "map m' [entry_pos q j..<entry_pos q j + 8] = map m [entry_pos q j..<entry_pos q j + 8]" by (intro nth_equalityI) simp_all
    then show ?thesis by (simp only: mtc_entry_def)
  qed
  show "mtc_bank m' p (Suc k)" unfolding mtc_bank_def
  proof (intro conjI allI impI)
    show "mtc_entry m' q j \<noteq> MTC_ENTRY_UNUSED" if "q < p" "j < 32" for q j using that other assms(1,2) by (simp add: mtc_bank_def)
    show "mtc_entry m' p j \<noteq> MTC_ENTRY_UNUSED" if "j < Suc k" for j
      using that other [of p j] e assms by (cases "j = k") (simp_all add: mtc_bank_def)
    show "m' n = 0xff" if "n div 131072 = 1020" "\<not> used_byte p (Suc k) n" for n
    proof -
      have "m' n = m n" using that assms(3) by (intro out) (auto simp: used_byte_def)
      moreover have "\<not> used_byte p k n" using that(2) by (auto simp: used_byte_def)
      ultimately show ?thesis using assms(1) that(1) by (simp add: mtc_bank_def)
    qed
  qed
qed

lemma erased_bank: "mtc_bank (erased 1020 m) 0 0" "n div 131072 \<noteq> 1020 \<Longrightarrow> erased 1020 m n = m n"
  by (auto simp: mtc_bank_def erased_def used_byte_def)

definition mtc_state :: "('h \<Rightarrow> nat \<Rightarrow> u8) \<Rightarrow> ('h \<Rightarrow> nat) \<Rightarrow> nat \<Rightarrow> nat \<Rightarrow> 'h flash \<Rightarrow> bool" where
  "mtc_state cells work p k f \<longleftrightarrow> flash_ok cells work f \<and> mtc_bank (cells (fl_hw f)) p k \<and> p \<le> 64 \<and> k < 32 \<and> (p < 64 \<or> k = 0) \<and> search_ok f p k"

text \<open>The place after the next value has been stored.\<close>

definition after_store :: "nat \<Rightarrow> nat \<Rightarrow> nat \<times> nat" where
  "after_store p k = (if p = 64 then (0, 1) else if k = 31 then (Suc p, 0) else (p, Suc k))"

lemma full_page: "mtc_bank m p 32 \<Longrightarrow> mtc_bank m (Suc p) 0"
proof -
  assume b: "mtc_bank m p 32"
  have "used_byte p 32 n \<Longrightarrow> used_byte (Suc p) 0 n" for n by (auto simp: used_byte_def)
  then show ?thesis using b by (auto simp: mtc_bank_def less_Suc_eq)
qed

lemma mtc_store:
  fixes forced :: u64
  assumes hw: "flash_hw_ok c cells work" and st: "mtc_state cells work p k f" and stk: "length stk = 8"
  defines "v \<equiv> mtc_next forced (last_value (cells (fl_hw f)) p k)" and "q \<equiv> (if p = 64 then 0 else p)"
  shows "\<exists>f'. mtc_increment_store c stk forced f = Some (MSEL_OK, Some v, f') \<and> flash_ok cells work f' \<and> first_unused f' = pos_addr (entry_pos q k)
    \<and> mtc_bank (cells (fl_hw f')) q (Suc k) \<and> mtc_entry (cells (fl_hw f')) q k = v
    \<and> (\<forall>n. n div 131072 \<noteq> 1020 \<longrightarrow> cells (fl_hw f') n = cells (fl_hw f) n)"
proof -
  let ?m = "cells (fl_hw f)"
  have s: "flash_ok cells work f" "mtc_bank ?m p k" "p \<le> 64" "k < 32" "p < 64 \<or> k = 0" "search_ok f p k" using st by (simp_all add: mtc_state_def)
  have q: "q < 64" "next_place p k = pos_addr (entry_pos q k)" using s(3,5) by (auto simp: q_def next_place_def start_addr)
  obtain f1 where f1: "mtc_find_first_unused c stk f = Some (pos_addr (entry_pos q k), f1)" "flash_ok cells work f1" "cells (fl_hw f1) = ?m"
    "first_unused f1 = pos_addr (entry_pos q k)"
    using mtc_find [OF hw s(1,2,3,4,5,6) stk] unfolding q(2) by blast
  obtain r j where r: "r < 64" "j < 256" "last_ptr (pos_addr (entry_pos q k)) = pos_addr (entry_pos r j)" "0 < k \<and> r = p \<and> j = k - 1 \<or> k = 0 \<and> 32 \<le> j"
    using last_ptr [OF s(5,4)] unfolding q(2) by blast
  obtain l f2 where f2: "flash_readmem c stk (pos_addr (entry_pos r j)) f1 = Some (MSEL_OK, l, f2)" "mtc_value l = mtc_entry ?m r j"
    "flash_ok cells work f2" "cells (fl_hw f2) = ?m" "first_unused f2 = pos_addr (entry_pos q k)"
    using read_entry [OF hw f1(2) stk r(1,2)] f1(3,4) by auto
  have "mtc_entry ?m r j = last_value ?m p k" using r(4) bank_unused(2) [OF s(2) r(1,2)] by (auto simp: last_value_def)
  then have v: "mtc_next forced (mtc_value l) = v" unfolding v_def f2(2) by simp
  let ?start = "pos_addr (entry_pos q k) = MTC_START_ADDR"
  obtain f3 where f3: "(if ?start then flash_erase_bank c MTC_BANK_NUM f2 else Some (MSEL_OK, f2)) = Some (MSEL_OK, f3)" "flash_ok cells work f3"
    "mtc_bank (cells (fl_hw f3)) q k" "\<forall>n. n div 131072 \<noteq> 1020 \<longrightarrow> cells (fl_hw f3) n = ?m n" "first_unused f3 = pos_addr (entry_pos q k)"
  proof (cases ?start)
    case True
    have "entry_pos q k < part_bytes" "entry_pos 0 0 < part_bytes" using q(1) s(4) by (simp_all add: entry_pos_def)
    then have "entry_pos q k = entry_pos 0 0" using arg_cong [OF True, of unat] unfolding start_addr by (simp add: unat_pos_addr)
    then have z: "q = 0" "k = 0" by (simp_all add: entry_pos_def)
    show thesis using that flash_erase_bank [OF hw f2(3), of 1020] f2(4,5) True erased_bank z by auto
  next
    case False
    then have "q = p" using q(2) s(3) start_addr by (auto simp: q_def next_place_def split: if_splits)
    then show thesis using that False f2 s(2) by auto
  qed
  have vu: "v \<noteq> MTC_ENTRY_UNUSED" unfolding v_def by (rule mtc_next_used)
  note se = store_entry [OF f3(3) q(1) s(4) vu]
  have "entry_pos q k + length (be_bytes 8 v) < part_bytes" using q(1) s(4) by (simp add: entry_pos_def)
  from flash_writemem [OF hw f3(2) this se(1)] obtain f4 where f4: "flash_writemem c (pos_addr (entry_pos q k)) (be_bytes 8 v) f3 = Some (MSEL_OK, f4)"
    "flash_ok cells work f4" "cells (fl_hw f4) = programmed (cells (fl_hw f3)) (entry_pos q k) (be_bytes 8 v)" "first_unused f4 = pos_addr (entry_pos q k)"
    using f3(5) by auto
  have "mtc_increment_store c stk forced f = Some (MSEL_OK, Some v, f4)"
    unfolding mtc_increment_store_def Let_def f1(1) option.case prod.case last_ptr_def [symmetric] r(3) f2(1) v f3(1) by (simp add: f4(1))
  then show ?thesis using f4 se(2,3,4) f3(4) by auto
qed

lemma mtc_store_state:
  fixes forced :: u64
  assumes "flash_hw_ok c cells work" "mtc_state cells work p k f" "length stk = 8" "after_store p k = (p', k')"
  defines "v \<equiv> mtc_next forced (last_value (cells (fl_hw f)) p k)"
  shows "\<exists>f'. mtc_increment_store c stk forced f = Some (MSEL_OK, Some v, f') \<and> mtc_state cells work p' k' f'
    \<and> (0 < k' \<longrightarrow> last_value (cells (fl_hw f')) p' k' = v)
    \<and> (\<forall>n. n div 131072 \<noteq> 1020 \<longrightarrow> cells (fl_hw f') n = cells (fl_hw f) n)"
proof -
  let ?q = "if p = 64 then 0 else p"
  obtain f' where f': "mtc_increment_store c stk forced f = Some (MSEL_OK, Some v, f')" "flash_ok cells work f'" "first_unused f' = pos_addr (entry_pos ?q k)"
    "mtc_bank (cells (fl_hw f')) ?q (Suc k)" "mtc_entry (cells (fl_hw f')) ?q k = v"
    "\<forall>n. n div 131072 \<noteq> 1020 \<longrightarrow> cells (fl_hw f') n = cells (fl_hw f) n"
    using mtc_store [OF assms(1-3)] unfolding v_def by blast
  have pk: "p \<le> 64" "k < 32" "p < 64 \<or> k = 0" using assms(2) by (simp_all add: mtc_state_def)
  have b: "mtc_bank (cells (fl_hw f')) p' k'" using f'(4) assms(4) pk full_page by (auto simp: after_store_def split: if_splits)
  have l: "0 < k' \<longrightarrow> last_value (cells (fl_hw f')) p' k' = v" using f'(5) assms(4) pk by (auto simp: after_store_def last_value_def split: if_splits)
  have "search_ok f' p' k'" unfolding search_ok_def
    using f'(3) assms(4) pk by (intro disjI2 exI [of _ ?q] exI [of _ k]) (auto simp: after_store_def split: if_splits)
  then have "mtc_state cells work p' k' f'" unfolding mtc_state_def using f'(2) b assms(4) pk by (auto simp: after_store_def split: if_splits)
  then show ?thesis using f'(1,6) l by blast
qed

text \<open>A sequence of calls, with the values they return.\<close>

fun mtc_calls :: "'h flash_hw \<Rightarrow> bytes \<Rightarrow> nat \<Rightarrow> 'h flash \<Rightarrow> (u64 list \<times> 'h flash) option" where
  "mtc_calls c stk 0 f = Some ([], f)"
| "mtc_calls c stk (Suc n) f =
     (case msel_mtc_read_increment c stk (Some 0) f of
        Some (MSEL_OK, Some v, f) \<Rightarrow> map_option (\<lambda>(vs, f). (v # vs, f)) (mtc_calls c stk n f)
      | _ \<Rightarrow> None)"

lemma mtc_call:
  assumes "flash_hw_ok c cells work" "mtc_state cells work p k f" "length stk = 8" "after_store p k = (p', k')"
  shows "\<exists>f'. msel_mtc_read_increment c stk (Some x) f = Some (MSEL_OK, Some (mtc_next 0 (last_value (cells (fl_hw f)) p k)), f')
    \<and> mtc_state cells work p' k' f' \<and> (0 < k' \<longrightarrow> last_value (cells (fl_hw f')) p' k' = mtc_next 0 (last_value (cells (fl_hw f)) p k))
    \<and> (\<forall>n. n div 131072 \<noteq> 1020 \<longrightarrow> cells (fl_hw f') n = cells (fl_hw f) n)"
  using mtc_store_state [OF assms, of 0] unfolding msel_mtc_read_increment_def arch_mtc_read_increment_def Let_def by fastforce

lemma mtc_next_last: "last_value m p 0 = MTC_ENTRY_UNUSED" "mtc_next 0 MTC_ENTRY_UNUSED = 0"
  "v + 1 \<noteq> MTC_ENTRY_UNUSED \<Longrightarrow> mtc_next 0 v = v + 1"
  by (simp_all add: last_value_def mtc_next_def)

lemma mtc_calls_page:
  assumes hw: "flash_hw_ok c cells work" and stk: "length stk = 8"
  shows "mtc_state cells work p k f \<Longrightarrow> 0 < k \<Longrightarrow> k + n \<le> 32 \<Longrightarrow> last_value (cells (fl_hw f)) p k = v \<Longrightarrow> unat v + n < 2 ^ 64 - 1 \<Longrightarrow>
    \<exists>f'. mtc_calls c stk n f = Some (map (\<lambda>i. v + of_nat (Suc i)) [0..<n], f')
      \<and> (\<forall>n. n div 131072 \<noteq> 1020 \<longrightarrow> cells (fl_hw f') n = cells (fl_hw f) n)"
proof (induction n arbitrary: f k v)
  case (Suc n)
  have p: "p < 64" "k < 32" using Suc.prems(1,2) by (auto simp: mtc_state_def)
  have u: "unat (v + 1) = Suc (unat v)" using Suc.prems(5) by (simp add: unat_word_ariths)
  then have nv: "mtc_next 0 v = v + 1" using Suc.prems(5) by (intro mtc_next_last) (auto simp: word_unat_eq_iff)
  obtain p' k' where a: "after_store p k = (p', k')" by fastforce
  obtain f1 where f1: "msel_mtc_read_increment c stk (Some 0) f = Some (MSEL_OK, Some (v + 1), f1)" "mtc_state cells work p' k' f1"
    "0 < k' \<longrightarrow> last_value (cells (fl_hw f1)) p' k' = v + 1" "\<forall>n. n div 131072 \<noteq> 1020 \<longrightarrow> cells (fl_hw f1) n = cells (fl_hw f) n"
    using mtc_call [OF hw Suc.prems(1) stk a] unfolding Suc.prems(4) nv by blast
  show ?case
  proof (cases "n = 0")
    case True
    then show ?thesis using f1(1,4) by simp
  next
    case False
    then have pk: "p' = p" "k' = Suc k" using a p Suc.prems(3) by (auto simp: after_store_def split: if_splits)
    obtain f2 where "mtc_calls c stk n f1 = Some (map (\<lambda>i. v + 1 + of_nat (Suc i)) [0..<n], f2)"
      "\<forall>n. n div 131072 \<noteq> 1020 \<longrightarrow> cells (fl_hw f2) n = cells (fl_hw f1) n"
      using Suc.IH [of "Suc k" f1 "v + 1"] f1(2,3) Suc.prems(3,5) u pk by auto
    then show ?thesis using f1(1,4) by (simp add: upt_conv_Cons map_Suc_upt [symmetric] add.assoc del: upt_Suc)
  qed
qed simp

lemma unat_of_nat64: "n < 18446744073709551616 \<Longrightarrow> unat (of_nat n :: u64) = n"
  by (simp add: unsigned_of_nat take_bit_nat_eq_self)

lemma mtc_calls_cycle:
  assumes hw: "flash_hw_ok c cells work" and stk: "length stk = 8"
  shows "mtc_state cells work p k f \<Longrightarrow> k = j mod 32 \<Longrightarrow> 0 < k \<longrightarrow> last_value (cells (fl_hw f)) p k = of_nat (k - 1) \<Longrightarrow>
    \<exists>f'. mtc_calls c stk n f = Some (map (\<lambda>i. of_nat (i mod 32)) [j..<j + n], f')"
proof (induction n arbitrary: f p k j)
  case (Suc n)
  obtain p' k' where a: "after_store p k = (p', k')" by fastforce
  let ?v = "mtc_next 0 (last_value (cells (fl_hw f)) p k)"
  obtain f1 where f1: "msel_mtc_read_increment c stk (Some 0) f = Some (MSEL_OK, Some ?v, f1)" "mtc_state cells work p' k' f1"
    "0 < k' \<longrightarrow> last_value (cells (fl_hw f1)) p' k' = ?v"
    using mtc_call [OF hw Suc.prems(1) stk a] by blast
  have k: "k < 32" "p = 64 \<longrightarrow> k = 0" using Suc.prems(1) by (auto simp: mtc_state_def)
  have v: "?v = of_nat k"
  proof (cases k)
    case (Suc i)
    then have i: "unat (of_nat i :: u64) = i" "unat (of_nat (Suc i) :: u64) = Suc i" using k(1) by (auto intro!: unat_of_nat64 simp del: of_nat_Suc)
    have "(of_nat i :: u64) + 1 \<noteq> MTC_ENTRY_UNUSED"
    proof
      assume "(of_nat i :: u64) + 1 = MTC_ENTRY_UNUSED"
      then have "of_nat (Suc i) = MTC_ENTRY_UNUSED" by (simp only: of_nat_Suc add.commute)
      then have "Suc i = unat MTC_ENTRY_UNUSED" using i(2) by (simp only:)
      also have "unat MTC_ENTRY_UNUSED = 18446744073709551615" by simp
      finally show False using k(1) Suc by simp
    qed
    then show ?thesis using Suc.prems(3) Suc by (simp add: mtc_next_last(3) add.commute)
  qed (simp add: mtc_next_last)
  have k': "k' = Suc j mod 32" "0 < k' \<longrightarrow> k' - 1 = k" using a k Suc.prems(2) by (auto simp: after_store_def mod_Suc split: if_splits)
  then obtain f2 where "mtc_calls c stk n f1 = Some (map (\<lambda>i. of_nat (i mod 32)) [Suc j..<Suc j + n], f2)"
    using Suc.IH [OF f1(2), of "Suc j"] f1(3) v by auto
  then show ?case using f1(1) v Suc.prems(2) by (simp add: upt_conv_Cons del: upt_Suc)
qed simp

section \<open>The key bank\<close>

abbreviation (input) mkey_base :: nat where "mkey_base \<equiv> 133955584"

lemma mkey_addr: "FLASH_ADDR MKEY_BANK_NUM 0 0 = pos_addr mkey_base"
  using flash_addr [of 1022 0 0] by simp

lemma map_upt_eqI: "length xs = n \<Longrightarrow> (\<forall>i < n. m (b + i) = xs ! i) \<Longrightarrow> map m [b..<b + n] = xs"
  by (intro nth_equalityI) simp_all

lemma entry_cong: "(\<And>n. n div 131072 = 1020 \<Longrightarrow> m' n = m n) \<Longrightarrow> p < 64 \<Longrightarrow> j < 256 \<Longrightarrow> mtc_entry m' p j = mtc_entry m p j"
proof -
  assume a: "\<And>n. n div 131072 = 1020 \<Longrightarrow> m' n = m n" "p < 64" "j < 256"
  have "map m' [entry_pos p j..<entry_pos p j + 8] = map m [entry_pos p j..<entry_pos p j + 8]"
    using a(1) entry_byte(1) [OF a(2,3)] by (intro nth_equalityI) simp_all
  then show ?thesis by (simp only: mtc_entry_def)
qed

lemma bank_cong:
  assumes "\<And>n. n div 131072 = 1020 \<Longrightarrow> m' n = m n" "mtc_bank m p k" "p \<le> 64" "k \<le> 32" "p < 64 \<or> k = 0"
  shows "mtc_bank m' p k"
  using assms(2-5) entry_cong [of m' m, OF assms(1)] assms(1) unfolding mtc_bank_def by auto

lemma master_key_write:
  assumes hw: "flash_hw_ok c cells work" and ok: "flash_ok cells work f" and l: "length key = 256"
  shows "\<exists>f'. msel_master_key_write c key f = Some (MSEL_OK, f') \<and> flash_ok cells work f' \<and> first_unused f' = first_unused f
    \<and> map (cells (fl_hw f')) [mkey_base..<mkey_base + 256] = key \<and> (\<forall>n. n div 131072 \<noteq> 1022 \<longrightarrow> cells (fl_hw f') n = cells (fl_hw f) n)"
proof -
  obtain f1 where f1: "flash_erase_bank c MKEY_BANK_NUM f = Some (MSEL_OK, f1)" "flash_ok cells work f1"
    "cells (fl_hw f1) = erased 1022 (cells (fl_hw f))" "first_unused f1 = first_unused f"
    using flash_erase_bank [OF hw ok, of 1022] by auto
  have b: "(mkey_base + i) div 131072 = 1022" if "i < 256" for i using that by simp
  have "(0xff :: u8) = - 1" by simp
  then have one: "(0xff :: u8) AND x = x" for x by (simp only: and.left_neutral)
  have w: "writable (cells (fl_hw f1)) mkey_base key" unfolding writable_def f1(3) erased_def using b one l by simp
  have "mkey_base + length key < part_bytes" using l by simp
  from flash_writemem [OF hw f1(2) this w] obtain f2 where f2: "flash_writemem c (pos_addr mkey_base) key f1 = Some (MSEL_OK, f2)" "flash_ok cells work f2"
    "cells (fl_hw f2) = programmed (erased 1022 (cells (fl_hw f))) mkey_base key" "first_unused f2 = first_unused f"
    using f1(3,4) by auto
  have "programmed (erased 1022 (cells (fl_hw f))) mkey_base key (mkey_base + i) = key ! i" if "i < 256" for i
    using that l b [OF that] one by (simp add: programmed_def erased_def)
  then have "map (cells (fl_hw f2)) [mkey_base..<mkey_base + 256] = key" unfolding f2(3) using l by (intro map_upt_eqI) blast+
  moreover have "cells (fl_hw f2) n = cells (fl_hw f) n" if "n div 131072 \<noteq> 1022" for n
  proof -
    have "\<not> (mkey_base \<le> n \<and> n < mkey_base + length key)"
    proof
      assume "mkey_base \<le> n \<and> n < mkey_base + length key"
      then obtain i where "n = mkey_base + i" "i < 256" unfolding l by (metis add_less_cancel_left le_Suc_ex)
      then show False using b that by blast
    qed
    then show ?thesis unfolding f2(3) programmed_def erased_def using that by auto
  qed
  ultimately show ?thesis using f1(1) f2 unfolding msel_master_key_write_def arch_master_key_write_def mkey_addr by auto
qed

lemma master_key_read:
  assumes "flash_hw_ok c cells work" "flash_ok cells work f" "length buf = 256"
  shows "\<exists>f'. msel_master_key_read c buf f = Some (MSEL_OK, map (cells (fl_hw f)) [mkey_base..<mkey_base + 256], f')"
proof -
  have "mkey_base + length buf < part_bytes" using assms(3) by simp
  from flash_readmem [OF assms(1,2) this] show ?thesis
    using assms(3) unfolding msel_master_key_read_def arch_master_key_read_def mkey_addr by auto
qed

lemma provision:
  assumes hw: "flash_hw_ok c cells work" and st: "mtc_state cells work p k f" and stk: "length stk = 8" and l: "length (prov_key arg) = 256"
    and a: "after_store p k = (p', k')"
  shows "\<exists>f'. msel_provision c stk arg f = Some (MSEL_OK, f') \<and> mtc_state cells work p' k' f'
    \<and> (0 < k' \<longrightarrow> last_value (cells (fl_hw f')) p' k' = mtc_next (prov_mtc arg) (last_value (cells (fl_hw f)) p k))
    \<and> map (cells (fl_hw f')) [mkey_base..<mkey_base + 256] = prov_key arg"
proof -
  let ?v = "mtc_next (prov_mtc arg) (last_value (cells (fl_hw f)) p k)"
  obtain f1 where f1: "mtc_increment_store c stk (prov_mtc arg) f = Some (MSEL_OK, Some ?v, f1)" "mtc_state cells work p' k' f1"
    "0 < k' \<longrightarrow> last_value (cells (fl_hw f1)) p' k' = ?v"
    using mtc_store_state [OF hw st stk a] by blast
  have s: "flash_ok cells work f1" "mtc_bank (cells (fl_hw f1)) p' k'" "p' \<le> 64" "k' < 32" "p' < 64 \<or> k' = 0" "search_ok f1 p' k'"
    using f1(2) by (simp_all add: mtc_state_def)
  obtain f2 where f2: "msel_master_key_write c (prov_key arg) f1 = Some (MSEL_OK, f2)" "flash_ok cells work f2" "first_unused f2 = first_unused f1"
    "map (cells (fl_hw f2)) [mkey_base..<mkey_base + 256] = prov_key arg" "\<forall>n. n div 131072 \<noteq> 1022 \<longrightarrow> cells (fl_hw f2) n = cells (fl_hw f1) n"
    using master_key_write [OF hw s(1) l] by blast
  have c: "\<And>n. n div 131072 = 1020 \<Longrightarrow> cells (fl_hw f2) n = cells (fl_hw f1) n" using f2(5) by simp
  have "mtc_bank (cells (fl_hw f2)) p' k'" using bank_cong [OF c s(2,3)] s(4,5) by simp
  then have "mtc_state cells work p' k' f2" using f2(2,3) s by (simp add: mtc_state_def search_ok_def)
  moreover have "0 < k' \<longrightarrow> last_value (cells (fl_hw f2)) p' k' = ?v"
    using f1(3) entry_cong [of "cells (fl_hw f2)" "cells (fl_hw f1)" p' "k' - 1", OF c] s(4,5) by (auto simp: last_value_def)
  ultimately show ?thesis using f1(1) f2(1,4) unfolding msel_provision_def msel_mtc_write_def arch_mtc_write_def by auto
qed

lemma calls_keep_key:
  assumes hw: "flash_hw_ok c cells work" and stk: "length stk = 8"
  shows "mtc_state cells work p k f \<Longrightarrow>
    \<exists>vs f'. mtc_calls c stk n f = Some (vs, f') \<and> length vs = n \<and> flash_ok cells work f' \<and> (\<forall>n. n div 131072 \<noteq> 1020 \<longrightarrow> cells (fl_hw f') n = cells (fl_hw f) n)"
proof (induction n arbitrary: f p k)
  case 0
  then show ?case by (simp add: mtc_state_def)
next
  case (Suc n)
  obtain p' k' where a: "after_store p k = (p', k')" by fastforce
  obtain v f1 where "msel_mtc_read_increment c stk (Some 0) f = Some (MSEL_OK, Some v, f1)" "mtc_state cells work p' k' f1"
    "\<forall>n. n div 131072 \<noteq> 1020 \<longrightarrow> cells (fl_hw f1) n = cells (fl_hw f) n"
    using mtc_call [OF hw Suc.prems stk a] by blast
  then show ?case using Suc.IH [of p' k' f1] by fastforce
qed

section \<open>A controller\<close>

text \<open>A simulation of the part that meets the contract, with a busy time of two status reads.\<close>

record nand =
  n_cells :: "nat \<Rightarrow> u8"
  n_page :: bytes
  n_left :: nat

definition sim_hw :: "nand flash_hw" where
  "sim_hw = \<lparr>hw_status = \<lambda>h. (if 0 < n_left h then 2 else 0, h\<lparr>n_left := n_left h - 1\<rparr>),
     hw_erase = \<lambda>b h. h\<lparr>n_cells := \<lambda>n. if n div 131072 = unat b then 0xff else n_cells h n, n_left := 2\<rparr>,
     hw_read = \<lambda>a h. h\<lparr>n_page := page_of (n_cells h) (unat a), n_left := 2\<rparr>,
     hw_write = \<lambda>a h. h\<lparr>n_cells := \<lambda>n. if unat a \<le> n \<and> n < unat a + 2048 then n_cells h n AND n_page h ! (n - unat a) else n_cells h n, n_left := 2\<rparr>,
     hw_page = n_page, hw_set_page = \<lambda>p h. h\<lparr>n_page := p\<rparr>\<rparr>"

lemma sim_hw_ok: "flash_hw_ok sim_hw n_cells n_left"
  unfolding flash_hw_ok_def sim_hw_def by auto

definition blank_part :: "nand flash" where
  "blank_part = \<lparr>flash_scratch_page = replicate 2048 0, flash_current_bank = - 1, flash_current_page = - 1, first_unused = 0,
     fl_hw = \<lparr>n_cells = \<lambda>_. 0xff, n_page = replicate 2048 0, n_left = 0\<rparr>\<rparr>"

lemma blank_part: "mtc_state n_cells n_left 0 0 blank_part"
  by (auto simp: mtc_state_def flash_ok_def coherent_def blank_part_def mtc_bank_def search_ok_def minus_one_neq)

section \<open>Properties\<close>

text \<open>C15. Flash memory behaves as write-once memory across pages and banks. With a controller that meets its
  documented contract, \<^verbatim>\<open>flash_writemem\<close> of a buffer at any position of the part, where no bit has to be
  set, returns after finitely many status reads with \<^verbatim>\<open>MSEL_OK\<close>; it changes exactly the bytes of
  the range, and \<^verbatim>\<open>flash_readmem\<close> of the range then returns the buffer, from the cached page or from the part.\<close>

theorem flash_write_read:
  assumes "flash_hw_ok c cells work" "flash_ok cells work f" "n + length src < 134217728" "writable (cells (fl_hw f)) n src" "length dst = length src"
  shows "\<exists>f' f''. flash_writemem c (pos_addr n) src f = Some (MSEL_OK, f') \<and> flash_readmem c dst (pos_addr n) f' = Some (MSEL_OK, src, f'')
    \<and> (\<forall>k. \<not> (n \<le> k \<and> k < n + length src) \<longrightarrow> cells (fl_hw f'') k = cells (fl_hw f) k) \<and> flash_ok cells work f''"
proof -
  obtain f1 where f1: "flash_writemem c (pos_addr n) src f = Some (MSEL_OK, f1)" "flash_ok cells work f1"
    "cells (fl_hw f1) = programmed (cells (fl_hw f)) n src"
    using flash_writemem [OF assms(1-4)] by blast
  have "map (programmed (cells (fl_hw f)) n src) [n..<n + length dst] = src"
    using assms(4,5) by (intro nth_equalityI) (simp_all add: programmed_def writable_def)
  then obtain f2 where "flash_readmem c dst (pos_addr n) f1 = Some (MSEL_OK, src, f2)" "flash_ok cells work f2"
    "cells (fl_hw f2) = programmed (cells (fl_hw f)) n src"
    using flash_readmem [OF assms(1) f1(2), of n dst] assms(3,5) f1(3) by auto
  then show ?thesis using f1(1) by (auto simp: programmed_def)
qed

theorem flash_write_read_witness:
  "\<exists>f' f''. flash_writemem sim_hw (pos_addr 5000) [1, 2, 3] blank_part = Some (MSEL_OK, f') \<and> flash_readmem sim_hw [0, 0, 0] (pos_addr 5000) f' = Some (MSEL_OK, [1, 2, 3], f'')"
  using flash_write_read [OF sim_hw_ok, of blank_part 5000 "[1, 2, 3]" "[0, 0, 0]"] blank_part
  by (auto simp: mtc_state_def writable_def blank_part_def nth_Cons' less_Suc_eq)

text \<open>While a page lasts, the monotonic counter counts: with \<open>k\<close> entries of a page used, the next \<open>32 - k\<close> calls
  of \<^verbatim>\<open>msel_mtc_read_increment\<close> return the successors of the last stored value, in order.\<close>

theorem mtc_counts_within_page:
  assumes "flash_hw_ok c cells work" "length stk = 8" "mtc_state cells work p k f" "0 < k" "k + n \<le> 32"
    and "unat (last_value (cells (fl_hw f)) p k) + n < 2 ^ 64 - 1"
  shows "\<exists>f'. mtc_calls c stk n f = Some (map (\<lambda>i. last_value (cells (fl_hw f)) p k + of_nat (Suc i)) [0..<n], f')"
  using mtc_calls_page [OF assms(1,2,3,4,5) refl assms(6)] by blast

theorem mtc_counts_within_page_witness:
  "\<exists>f1 f2. msel_mtc_read_increment sim_hw (replicate 8 0) (Some 0) blank_part = Some (MSEL_OK, Some 0, f1)
    \<and> mtc_calls sim_hw (replicate 8 0) 31 f1 = Some (map (\<lambda>i. 0 + of_nat (Suc i)) [0..<31], f2)"
proof -
  have l: "length (replicate 8 (0 :: u8)) = 8" by simp
  have a: "after_store 0 0 = (0, 1)" by (simp add: after_store_def)
  obtain f1 where f1: "msel_mtc_read_increment sim_hw (replicate 8 0) (Some 0) blank_part = Some (MSEL_OK, Some 0, f1)"
    "mtc_state n_cells n_left 0 1 f1" "last_value (n_cells (fl_hw f1)) 0 1 = 0"
    using mtc_call [OF sim_hw_ok blank_part l a, of 0] unfolding mtc_next_last by auto
  show ?thesis using mtc_counts_within_page [OF sim_hw_ok l f1(2), of 31] f1(1) unfolding f1(3) by simp
qed

text \<open>C34. The counter is not monotonic. The search for the first unused entry stops at 32 entries of a page,
  and the first entry of the next page takes the last, never written, entry of the page before as
  its predecessor. From a device whose bank is at the start of a page, call number \<open>i\<close> returns \<open>i mod 32\<close>:
  the values repeat every 32 calls, where \<^verbatim>\<open>mtc.h\<close> promises \<open>2\<^sup>6\<^sup>4\<close> different values.\<close>

theorem mtc_counter_repeats:
  assumes "flash_hw_ok c cells work" "length stk = 8" "mtc_state cells work p 0 f"
  shows "\<exists>f'. mtc_calls c stk n f = Some (map (\<lambda>i. of_nat (i mod 32)) [0..<n], f')"
  using mtc_calls_cycle [OF assms, of 0 n] by simp

theorem mtc_counter_repeats_witness:
  "\<exists>f'. mtc_calls sim_hw (replicate 8 0) 33 blank_part = Some (map (\<lambda>i. of_nat (i mod 32)) [0..<33], f')"
  using mtc_counter_repeats [OF sim_hw_ok _ blank_part, of "replicate 8 0" 33] by (simp only: length_replicate simp_thms)

text \<open>C33. A provisioned master key survives. \<^verbatim>\<open>msel_provision\<close> stores the key and the counter value and returns
  \<^verbatim>\<open>MSEL_OK\<close>; after any number of counter calls, whatever erase cycles of the counter bank they trigger,
  \<^verbatim>\<open>msel_master_key_read\<close> returns the key.\<close>

theorem master_key_survives:
  assumes "flash_hw_ok c cells work" "length stk = 8" "mtc_state cells work p k f" "length (prov_key arg) = 256" "length buf = 256"
  shows "\<exists>f1 vs f2 f3. msel_provision c stk arg f = Some (MSEL_OK, f1) \<and> mtc_calls c stk n f1 = Some (vs, f2) \<and> length vs = n
    \<and> msel_master_key_read c buf f2 = Some (MSEL_OK, prov_key arg, f3)"
proof -
  obtain p' k' where a: "after_store p k = (p', k')" by fastforce
  obtain f1 where f1: "msel_provision c stk arg f = Some (MSEL_OK, f1)" "mtc_state cells work p' k' f1"
    "map (cells (fl_hw f1)) [133955584..<133955584 + 256] = prov_key arg"
    using provision [OF assms(1,3,2,4) a] by blast
  obtain vs f2 where f2: "mtc_calls c stk n f1 = Some (vs, f2)" "length vs = n" "flash_ok cells work f2"
    "\<forall>n. n div 131072 \<noteq> 1020 \<longrightarrow> cells (fl_hw f2) n = cells (fl_hw f1) n"
    using calls_keep_key [OF assms(1,2) f1(2)] by blast
  have "map (cells (fl_hw f2)) [133955584..<133955584 + 256] = map (cells (fl_hw f1)) [133955584..<133955584 + 256]"
    using f2(4) by (intro map_cong refl) (auto simp: div_le_mono)
  then show ?thesis using f1 f2 master_key_read [OF assms(1) f2(3) assms(5)] by fastforce
qed

theorem master_key_survives_witness:
  "\<exists>f1 vs f2 f3. msel_provision sim_hw (replicate 8 0) \<lparr>prov_key = replicate 256 7, prov_mtc = 5\<rparr> blank_part = Some (MSEL_OK, f1)
    \<and> mtc_calls sim_hw (replicate 8 0) 3000 f1 = Some (vs, f2) \<and> length vs = 3000 \<and> msel_master_key_read sim_hw (replicate 256 0) f2 = Some (MSEL_OK, replicate 256 7, f3)"
  using master_key_survives [OF sim_hw_ok _ blank_part, of "replicate 8 0" "\<lparr>prov_key = replicate 256 7, prov_mtc = 5\<rparr>" "replicate 256 0" 3000]
  by (simp only: length_replicate simp_thms provision_args.simps)

end
