(* ===== verification/Ed521.thy ===== *)
theory Ed521
  imports Prelude
begin

unbundle bit_operations_syntax

text \<open>
  The software curve arithmetic of \<^verbatim>\<open>driver/swcrypto/ed521.c\<close> on the Edwards curve E-521: numbers of 17
  limbs of 32 bits, least significant first, arithmetic modulo the prime \<open>2\<^sup>5\<^sup>2\<^sup>1 - 1\<close>, and projective
  points. A limb array is a list. Each routine of the source reads a limb before it writes the limb
  of the same index, or works on a copy, so its result does not depend on whether its arguments
  are the same array, and a routine is a function of the values of its arguments.
\<close>

abbreviation (input) ED521_LIMBS :: nat where "ED521_LIMBS \<equiv> 17"

section \<open>Constants\<close>

definition ED521_P :: "u32 list" where
  "ED521_P = replicate 16 0xffffffff @ [0x000001ff]"

definition ED521_Gx :: "u32 list" where
  "ED521_Gx = concat [[0x2f19ba6c, 0x302a940a, 0x364838aa, 0x59d0fb13], [0x8fc99c60, 0xae949d56, 0xc72434b1, 0xf6ecc5cc],
     [0xc6203913, 0x8bf3c9c0, 0xc6c818ec, 0xbfd9f42f], [0x6b2878a3, 0xf90cb229, 0x648b189d, 0x2cb45c48], [0x00000075]]"

abbreviation (input) ED521_Gy :: u32 where "ED521_Gy \<equiv> 0xc"

text \<open>\<^verbatim>\<open>ED521_D\<close>, as the 32-bit value that is added to a limb.\<close>

definition ED521_D :: u32 where "ED521_D = - 376014"

section \<open>Conversion\<close>

definition make_mp :: "bytes \<Rightarrow> nat \<Rightarrow> u32 list" where
  "make_mp inp sz = map (\<lambda>i. push_bit 24 (ucast (inp ! (sz - 4 * i - 4))) OR push_bit 16 (ucast (inp ! (sz - 4 * i - 3)))
     OR push_bit 8 (ucast (inp ! (sz - 4 * i - 2))) OR ucast (inp ! (sz - 4 * i - 1))) [0..<ED521_LIMBS]"

definition from_mp :: "bytes \<Rightarrow> u32 list \<Rightarrow> nat \<Rightarrow> bytes" where
  "from_mp out inp sz = fold (\<lambda>i out. out[sz - 4 * i - 4 := ucast (drop_bit 24 (inp ! i)), sz - 4 * i - 3 := ucast (drop_bit 16 (inp ! i)),
     sz - 4 * i - 2 := ucast (drop_bit 8 (inp ! i)), sz - 4 * i - 1 := ucast (inp ! i)]) [0..<ED521_LIMBS] out"

section \<open>Numbers\<close>

definition mp_set :: "u32 list \<Rightarrow> u32 list" where
  "mp_set s = map (\<lambda>i. s ! i) [0..<ED521_LIMBS]"

definition mp_set_ui :: "u32 \<Rightarrow> u32 list" where
  "mp_set_ui s = s # replicate (ED521_LIMBS - 1) 0"

definition mp_cmp :: "u32 list \<Rightarrow> u32 list \<Rightarrow> int" where
  "mp_cmp a b = (if (\<Sum>i\<leftarrow>[0..<ED521_LIMBS]. of_bool (a ! i \<noteq> b ! i)) = (0 :: int) then 0 else - 1)"

definition mp_cmp_ui :: "u32 list \<Rightarrow> u32 \<Rightarrow> int" where
  "mp_cmp_ui a b = (if of_bool (a ! 0 \<noteq> b) + (\<Sum>i\<leftarrow>[1..<ED521_LIMBS]. of_bool (a ! i \<noteq> 0)) = (0 :: int) then 0 else - 1)"

text \<open>The loops carry the 64-bit value \<open>v\<close>, already shifted.\<close>

fun mp_add_loop :: "u64 \<Rightarrow> u32 list \<Rightarrow> u32 list \<Rightarrow> u32 list" where
  "mp_add_loop v (a # as) (b # bs) = (let v = v + ucast a + ucast b in ucast v # mp_add_loop (drop_bit 32 v) as bs)"
| "mp_add_loop v _ _ = []"

definition mp_add :: "u32 list \<Rightarrow> u32 list \<Rightarrow> u32 list" where
  "mp_add a b = mp_add_loop 0 a b"

fun mp_add_ui_loop :: "u64 \<Rightarrow> u32 list \<Rightarrow> u32 list" where
  "mp_add_ui_loop v (a # as) = (let v = v + ucast a in ucast v # mp_add_ui_loop (drop_bit 32 v) as)"
| "mp_add_ui_loop v [] = []"

definition mp_add_ui :: "u32 list \<Rightarrow> u32 \<Rightarrow> u32 list" where
  "mp_add_ui a b = mp_add_ui_loop (ucast b) a"

fun mp_sub_loop :: "u64 \<Rightarrow> u32 list \<Rightarrow> u32 list \<Rightarrow> u32 list" where
  "mp_sub_loop v (a # as) (b # bs) = (let v = ucast a - ucast b - (v AND 1) in ucast v # mp_sub_loop (drop_bit 32 v) as bs)"
| "mp_sub_loop v _ _ = []"

definition mp_sub :: "u32 list \<Rightarrow> u32 list \<Rightarrow> u32 list" where
  "mp_sub a b = mp_sub_loop 0 a b"

fun mp_sub_ui_loop :: "u64 \<Rightarrow> u32 list \<Rightarrow> u32 list" where
  "mp_sub_ui_loop v (a # as) = (let v = drop_bit 32 v; v = ucast a - (v AND 1) in ucast v # mp_sub_ui_loop v as)"
| "mp_sub_ui_loop v [] = []"

definition mp_sub_ui :: "u32 list \<Rightarrow> u32 \<Rightarrow> u32 list" where
  "mp_sub_ui a b = (let v = ucast (a ! 0) - ucast b in ucast v # mp_sub_ui_loop v (drop 1 a))"

definition mp_modadd :: "u32 list \<Rightarrow> u32 list \<Rightarrow> u32 list" where
  "mp_modadd a b =
     (let d = mp_add a b;
          v = drop_bit 9 (d ! (ED521_LIMBS - 1));
          d = d[ED521_LIMBS - 1 := d ! (ED521_LIMBS - 1) AND 0x1ff]
      in mp_add_ui d v)"

definition mp_modsub :: "u32 list \<Rightarrow> u32 list \<Rightarrow> u32 list" where
  "mp_modsub a b =
     (let d = mp_sub a b;
          v = drop_bit 9 (d ! (ED521_LIMBS - 1)) AND 1;
          d = d[ED521_LIMBS - 1 := d ! (ED521_LIMBS - 1) AND 0x1ff]
      in mp_sub_ui d v)"

fun mp_modmul2_loop :: "u32 \<Rightarrow> u32 list \<Rightarrow> u32 list" where
  "mp_modmul2_loop c (v # as) = (push_bit 1 v + c) # mp_modmul2_loop (drop_bit 31 v) as"
| "mp_modmul2_loop c [] = []"

definition mp_modmul2 :: "u32 list \<Rightarrow> u32 list" where
  "mp_modmul2 a =
     (let d = mp_modmul2_loop (drop_bit 8 (a ! (ED521_LIMBS - 1))) a
      in d[ED521_LIMBS - 1 := d ! (ED521_LIMBS - 1) AND 0x1ff])"

text \<open>One row of the schoolbook product, and the product.\<close>

definition mul_step :: "u32 \<Rightarrow> u32 list \<Rightarrow> nat \<Rightarrow> nat \<Rightarrow> u64 \<times> u32 list \<Rightarrow> u64 \<times> u32 list" where
  "mul_step ai b i j s =
     (let (v, tmp) = s;
          v = ucast ai * ucast (b ! j) + v + ucast (tmp ! (i + j));
          tmp = tmp[i + j := ucast v]
      in (drop_bit 32 v, tmp))"

definition mul_row :: "u32 list \<Rightarrow> u32 list \<Rightarrow> nat \<Rightarrow> u32 list \<Rightarrow> u32 list" where
  "mul_row a b i tmp =
     (let (v, tmp) = fold (mul_step (a ! i) b i) [0..<ED521_LIMBS] (0, tmp)
      in tmp[i + ED521_LIMBS := ucast v])"

definition mp_modmul :: "u32 list \<Rightarrow> u32 list \<Rightarrow> u32 list" where
  "mp_modmul a b =
     (let tmp = fold (mul_row a b) [0..<ED521_LIMBS] (replicate (ED521_LIMBS * 2) 0);
          d = map (\<lambda>i. let j = ED521_LIMBS - 1 + i in drop_bit 9 (tmp ! j) + push_bit (32 - 9) (tmp ! (j + 1))) [0..<ED521_LIMBS];
          tmp = tmp[ED521_LIMBS - 1 := tmp ! (ED521_LIMBS - 1) AND 0x1ff]
      in mp_modadd d (take ED521_LIMBS tmp))"

definition mp_modsqrt :: "u32 list \<Rightarrow> u32 list" where
  "mp_modsqrt a = fold (\<lambda>i r1. mp_modmul r1 r1) [1..<520] (mp_set a)"

definition mp_modinv :: "u32 list \<Rightarrow> u32 list" where
  "mp_modinv a =
     (let t = mp_set a; d = mp_set a; t = mp_modmul t t
      in snd (fold (\<lambda>i (t, d). let t = mp_modmul t t in (t, mp_modmul d t)) [2..<521] (t, d)))"

section \<open>The value of a limb list\<close>

abbreviation (input) limb_base :: nat where "limb_base \<equiv> 4294967296"

fun mp_val :: "u32 list \<Rightarrow> nat" where
  "mp_val [] = 0"
| "mp_val (x # xs) = unat x + limb_base * mp_val xs"

lemma unat_u32_less: "unat (x :: u32) < limb_base"
  using unsigned_less [of x, where 'a = nat] by simp

lemma mp_val_less: "mp_val xs < limb_base ^ length xs"
proof (induction xs)
  case (Cons x xs)
  have "mp_val (x # xs) < limb_base * Suc (mp_val xs)" using unat_u32_less [of x] by simp
  also have "\<dots> \<le> limb_base * limb_base ^ length xs" using Cons by (intro mult_le_mono2) simp
  finally show ?case by simp
qed simp

lemma mp_val_append: "mp_val (xs @ ys) = mp_val xs + limb_base ^ length xs * mp_val ys"
  by (induction xs) (simp_all add: algebra_simps)

lemma mp_val_zeros [simp]: "mp_val (replicate n 0) = 0"
  by (induction n) simp_all

lemma mp_val_inject: "length xs = length ys \<Longrightarrow> mp_val xs = mp_val ys \<Longrightarrow> xs = ys"
proof (induction xs ys rule: list_induct2)
  case (Cons x xs y ys)
  have "unat x = unat y" "mp_val xs = mp_val ys"
    using arg_cong [OF Cons.prems, of "\<lambda>n. n mod limb_base"] arg_cong [OF Cons.prems, of "\<lambda>n. n div limb_base"]
      unat_u32_less [of x] unat_u32_less [of y] by simp_all
  then show ?case using Cons.IH by (simp add: word_unat_eq_iff)
qed simp

lemma mp_val_update:
  "k < length xs \<Longrightarrow> mp_val (xs[k := w]) + unat (xs ! k) * limb_base ^ k = mp_val xs + unat w * limb_base ^ k"
proof (induction xs arbitrary: k)
  case (Cons x xs)
  show ?case
  proof (cases k)
    case (Suc j)
    have "mp_val (xs[j := w]) + unat (xs ! j) * limb_base ^ j = mp_val xs + unat w * limb_base ^ j" using Cons Suc by simp
    then have "limb_base * (mp_val (xs[j := w]) + unat (xs ! j) * limb_base ^ j) = limb_base * (mp_val xs + unat w * limb_base ^ j)" by simp
    then show ?thesis by (simp add: Suc algebra_simps)
  qed simp
qed simp

lemma mp_val_take: "n \<le> length xs \<Longrightarrow> mp_val (take n xs) = mp_val xs mod limb_base ^ n"
proof -
  assume "n \<le> length xs"
  moreover have "mp_val xs = mp_val (take n xs) + limb_base ^ length (take n xs) * mp_val (drop n xs)"
    using mp_val_append [of "take n xs" "drop n xs"] by simp
  ultimately show ?thesis using mp_val_less [of "take n xs"] by simp
qed

lemma mp_val_drop: "n \<le> length xs \<Longrightarrow> mp_val (drop n xs) = mp_val xs div limb_base ^ n"
proof -
  assume "n \<le> length xs"
  moreover have "mp_val xs = mp_val (take n xs) + limb_base ^ length (take n xs) * mp_val (drop n xs)"
    using mp_val_append [of "take n xs" "drop n xs"] by simp
  ultimately show ?thesis using mp_val_less [of "take n xs"] by simp
qed

section \<open>Carry loops\<close>

lemma carry_step: "x mod B + B * ((x div B + y) mod M) = (x + B * y) mod (B * M :: nat)" if "0 < B"
proof -
  have "(x + B * y) mod (B * M) = B * ((x + B * y) div B mod M) + (x + B * y) mod B" by (rule mod_mult2_eq)
  then show ?thesis using that by (simp add: add.commute)
qed

lemma unat_ucast32 [simp]: "unat (ucast (x :: u32) :: u64) = unat x"
proof -
  have "unat x < 2 ^ 64" using unat_u32_less [of x] by simp
  then show ?thesis by (simp add: unsigned_ucast_eq take_bit_nat_eq_self)
qed

lemma unat_low [simp]: "unat (ucast (v :: u64) :: u32) = unat v mod limb_base"
  by (simp add: unsigned_ucast_eq take_bit_eq_mod)

lemma unat_shift32: "unat (drop_bit 32 (v :: u64)) = unat v div limb_base"
  by (simp only: unat_drop_bit) simp

lemma add_loop:
  "length a = length b \<Longrightarrow> unat v < limb_base \<Longrightarrow>
   length (mp_add_loop v a b) = length a \<and> mp_val (mp_add_loop v a b) = (unat v + mp_val a + mp_val b) mod limb_base ^ length a"
proof (induction v a b rule: mp_add_loop.induct)
  case (1 v a as b bs)
  let ?s = "unat v + unat a + unat b" and ?w = "v + ucast a + ucast b"
  have s: "?s < 3 * limb_base" using 1(3) unat_u32_less [of a] unat_u32_less [of b] by simp
  then have w: "unat ?w = ?s" by (simp add: unat_word_ariths)
  have c: "unat (drop_bit 32 ?w) = ?s div limb_base" by (simp only: unat_shift32 w)
  have "?s div limb_base < limb_base" using s by simp
  then have IH: "length (mp_add_loop (drop_bit 32 ?w) as bs) = length as"
      "mp_val (mp_add_loop (drop_bit 32 ?w) as bs) = (?s div limb_base + (mp_val as + mp_val bs)) mod limb_base ^ length as"
    using 1(1) [of ?w] 1(2) c by (simp_all add: add.assoc)
  have "mp_val (mp_add_loop v (a # as) (b # bs)) = ?s mod limb_base + limb_base * ((?s div limb_base + (mp_val as + mp_val bs)) mod limb_base ^ length as)"
    by (simp only: mp_add_loop.simps Let_def mp_val.simps IH(2) unat_low w)
  also have "\<dots> = (?s + limb_base * (mp_val as + mp_val bs)) mod (limb_base * limb_base ^ length as)" by (rule carry_step) simp
  finally show ?case using IH(1) by (simp add: algebra_simps Let_def)
qed simp_all

lemma add_ui_loop:
  "unat v < limb_base \<Longrightarrow>
   length (mp_add_ui_loop v a) = length a \<and> mp_val (mp_add_ui_loop v a) = (unat v + mp_val a) mod limb_base ^ length a"
proof (induction v a rule: mp_add_ui_loop.induct)
  case (1 v a as)
  let ?s = "unat v + unat a" and ?w = "v + ucast a"
  have s: "?s < 2 * limb_base" using 1(2) unat_u32_less [of a] by simp
  then have w: "unat ?w = ?s" by (simp add: unat_word_ariths)
  have c: "unat (drop_bit 32 ?w) = ?s div limb_base" by (simp only: unat_shift32 w)
  have "?s div limb_base < limb_base" using s by simp
  then have IH: "length (mp_add_ui_loop (drop_bit 32 ?w) as) = length as"
      "mp_val (mp_add_ui_loop (drop_bit 32 ?w) as) = (?s div limb_base + mp_val as) mod limb_base ^ length as"
    using 1(1) [of ?w] c by simp_all
  have "mp_val (mp_add_ui_loop v (a # as)) = ?s mod limb_base + limb_base * ((?s div limb_base + mp_val as) mod limb_base ^ length as)"
    by (simp only: mp_add_ui_loop.simps Let_def mp_val.simps IH(2) unat_low w)
  also have "\<dots> = (?s + limb_base * mp_val as) mod (limb_base * limb_base ^ length as)" by (rule carry_step) simp
  finally show ?case using IH(1) by (simp add: algebra_simps Let_def)
qed simp

lemma mul2_loop:
  "unat c \<le> 1 \<Longrightarrow> length (mp_modmul2_loop c a) = length a \<and> mp_val (mp_modmul2_loop c a) = (unat c + 2 * mp_val a) mod limb_base ^ length a"
proof (induction c a rule: mp_modmul2_loop.induct)
  case (1 c v as)
  let ?s = "unat c + 2 * unat v"
  have p: "unat (push_bit 1 v) = 2 * unat v mod limb_base" by (simp add: unat_word_ariths mult.commute)
  have "?s div 2 = unat v" using 1(2) by simp
  then have d: "unat (drop_bit 31 v) = ?s div limb_base"
    using div_mult2_eq [of ?s 2 2147483648] by (simp only: unat_drop_bit) simp
  have "2 * unat v mod limb_base = 2 * (unat v mod 2147483648)" using mod_mult_mult1 [of 2 "unat v" 2147483648] by simp
  moreover have "unat v mod 2147483648 < 2147483648" by simp
  ultimately have l: "2 * unat v mod limb_base + unat c < limb_base" using 1(2) by linarith
  have "?s mod limb_base = (2 * unat v mod limb_base + unat c) mod limb_base"
    unfolding mod_add_left_eq by (simp only: add.commute)
  also have "\<dots> = 2 * unat v mod limb_base + unat c" using l by (rule mod_less)
  finally have s: "?s mod limb_base = 2 * unat v mod limb_base + unat c" .
  have "unat (push_bit 1 v + c) = (unat (push_bit 1 v) + unat c) mod 2 ^ LENGTH(32)" by (rule unat_word_ariths)
  then have w: "unat (push_bit 1 v + c) = ?s mod limb_base" unfolding p s using l by simp
  have le: "unat (drop_bit 31 v) \<le> 1" using d 1(2) unat_u32_less [of v] by simp
  have IH: "length (mp_modmul2_loop (drop_bit 31 v) as) = length as"
    "mp_val (mp_modmul2_loop (drop_bit 31 v) as) = (?s div limb_base + 2 * mp_val as) mod limb_base ^ length as"
    using 1(1) [OF le] d by simp_all
  have "mp_val (mp_modmul2_loop c (v # as)) = ?s mod limb_base + limb_base * ((?s div limb_base + 2 * mp_val as) mod limb_base ^ length as)"
    by (simp only: mp_modmul2_loop.simps mp_val.simps IH(2) w)
  also have "\<dots> = (?s + limb_base * (2 * mp_val as)) mod (limb_base * limb_base ^ length as)" by (rule carry_step) simp
  finally show ?case using IH(1) by (simp add: algebra_simps)
qed simp

section \<open>Borrow loops\<close>

lemma borrow_step: "x mod B + B * ((x div B + y) mod M) = (x + B * y) mod (B * M :: int)" if "0 < B" "0 \<le> M"
proof -
  have "(x + B * y) mod (B * M) = B * ((x + B * y) div B mod M) + (x + B * y) mod B" by (rule zmod_zmult2_eq) fact
  then show ?thesis using that(1) by (simp add: add.commute)
qed

lemma unat_and_1: "unat (v AND 1 :: 'a :: len word) = unat v mod 2"
  by (simp only: unsigned_and_eq unsigned_1) (simp add: and_one_eq)

lemma and_1_le: "unat (v AND 1 :: 'a :: len word) \<le> 1"
  unfolding unat_and_1 by simp

lemma div_negative:
  assumes "- B \<le> x" "x < (0 :: int)" "0 < B"
  shows "x div B = - 1" "(x + (k + 1) * B) div B = k"
proof -
  have z: "(x + B) div B = 0" using assms by (intro div_pos_pos_trivial) simp_all
  have "((x + B) + k * B) div B = k + (x + B) div B" for k using assms(3) by (intro div_mult_self1) simp
  from this [of "- 1"] this [of k] show "x div B = - 1" "(x + (k + 1) * B) div B = k" unfolding z by (simp_all add: algebra_simps)
qed

lemma sub_word:
  fixes a b :: u32 and c :: u64
  assumes "unat c \<le> 1"
  defines "x \<equiv> int (unat a) - int (unat b) - int (unat c)" and "w \<equiv> ucast a - ucast b - c"
  shows "int (unat (ucast w :: u32)) = x mod int limb_base" "int (unat (drop_bit 32 w AND 1)) = - (x div int limb_base)"
proof -
  have "uint w = (uint (ucast a :: u64) - uint (ucast b :: u64) - uint c) mod 2 ^ LENGTH(64)"
    unfolding w_def uint_word_ariths(2) mod_diff_left_eq by (rule refl)
  then have u: "int (unat w) = x mod 2 ^ 64" unfolding x_def by (simp only: uint_nat unat_ucast32) simp
  have ge: "- int limb_base \<le> x" "x < int limb_base"
    unfolding x_def using assms(1) unat_u32_less [of a] unat_u32_less [of b] by linarith+
  have "x mod 2 ^ 64 mod int limb_base = x mod int limb_base" by (rule mod_mod_cancel) simp
  then show "int (unat (ucast w :: u32)) = x mod int limb_base" using u by (simp only: unat_low zmod_int)
  show "int (unat (drop_bit 32 w AND 1)) = - (x div int limb_base)"
  proof (cases "0 \<le> x")
    case True
    have "x mod 2 ^ 64 = x" using True ge(2) by (intro mod_pos_pos_trivial) simp_all
    then have "unat w < limb_base" using u ge(2) by linarith
    then have z: "unat (drop_bit 32 w) = 0" by (simp only: unat_shift32 div_less)
    have "x div int limb_base = 0" using True ge(2) by (intro div_pos_pos_trivial)
    then show ?thesis unfolding unat_and_1 z by simp
  next
    case False
    have "(x + 2 ^ 64) mod 2 ^ 64 = x + 2 ^ 64" using False ge(1) by (intro mod_pos_pos_trivial) simp_all
    then have n: "int (unat w) = x + 2 ^ 64" using u by (simp only: mod_add_self2)
    have "int (unat (drop_bit 32 w)) = (x + (4294967295 + 1) * int limb_base) div int limb_base" by (simp only: unat_shift32 zdiv_int n) simp
    also have "\<dots> = 4294967295" using ge(1) False by (intro div_negative) simp_all
    finally have o: "unat (drop_bit 32 w) = 4294967295" by linarith
    have "x div int limb_base = - 1" using ge(1) False by (intro div_negative) simp_all
    then show ?thesis unfolding unat_and_1 o by simp
  qed
qed

lemma sub_loop:
  "length a = length b \<Longrightarrow> length (mp_sub_loop v a b) = length a
   \<and> int (mp_val (mp_sub_loop v a b)) = (int (mp_val a) - int (mp_val b) - int (unat (v AND 1))) mod int limb_base ^ length a"
proof (induction v a b rule: mp_sub_loop.induct)
  case (1 v a as b bs)
  let ?x = "int (unat a) - int (unat b) - int (unat (v AND 1))" and ?w = "ucast a - ucast b - (v AND 1) :: u64"
  have c: "unat (v AND 1) \<le> 1" by (rule and_1_le)
  note w = sub_word [OF c, of a b]
  have IH: "length (mp_sub_loop (drop_bit 32 ?w) as bs) = length as"
    "int (mp_val (mp_sub_loop (drop_bit 32 ?w) as bs)) = (?x div int limb_base + (int (mp_val as) - int (mp_val bs))) mod int limb_base ^ length as"
    using 1(1) [of ?w] 1(2) w(2) by (simp_all only: list.size(4) add_right_cancel simp_thms) (simp_all add: algebra_simps)
  have "int (mp_val (mp_sub_loop v (a # as) (b # bs))) = ?x mod int limb_base + int limb_base * ((?x div int limb_base + (int (mp_val as) - int (mp_val bs))) mod int limb_base ^ length as)"
    by (simp only: mp_sub_loop.simps Let_def mp_val.simps of_nat_add of_nat_mult IH(2) w(1))
  also have "\<dots> = (?x + int limb_base * (int (mp_val as) - int (mp_val bs))) mod (int limb_base * int limb_base ^ length as)"
    by (rule borrow_step) simp_all
  finally show ?case using IH(1) by (simp add: algebra_simps Let_def)
qed simp_all

lemma sub_ui_loop:
  "length (mp_sub_ui_loop v a) = length a
   \<and> int (mp_val (mp_sub_ui_loop v a)) = (int (mp_val a) - int (unat (drop_bit 32 v AND 1))) mod int limb_base ^ length a"
proof (induction v a rule: mp_sub_ui_loop.induct)
  case (1 v a as)
  let ?c = "drop_bit 32 v AND 1"
  let ?x = "int (unat a) - int (unat (0 :: u32)) - int (unat ?c)" and ?w = "ucast a - ucast (0 :: u32) - ?c :: u64"
  have c: "unat ?c \<le> 1" by (rule and_1_le)
  note w = sub_word [OF c, of a 0]
  have w0: "ucast a - ?c = ?w" by simp
  have IH: "length (mp_sub_ui_loop ?w as) = length as"
    "int (mp_val (mp_sub_ui_loop ?w as)) = (?x div int limb_base + int (mp_val as)) mod int limb_base ^ length as"
    using 1 [of "drop_bit 32 v" ?w] w(2) unfolding w0 by (simp_all add: algebra_simps)
  have "int (mp_val (mp_sub_ui_loop v (a # as))) = ?x mod int limb_base + int limb_base * ((?x div int limb_base + int (mp_val as)) mod int limb_base ^ length as)"
    by (simp only: mp_sub_ui_loop.simps Let_def mp_val.simps of_nat_add of_nat_mult w0 IH(2) w(1))
  also have "\<dots> = (?x + int limb_base * int (mp_val as)) mod (int limb_base * int limb_base ^ length as)"
    by (rule borrow_step) simp_all
  finally show ?case using IH(1) by (simp add: algebra_simps Let_def)
qed simp

lemma sub_ui:
  assumes "a \<noteq> []"
  shows "length (mp_sub_ui a v) = length a \<and> int (mp_val (mp_sub_ui a v)) = (int (mp_val a) - int (unat v)) mod int limb_base ^ length a"
proof -
  obtain x xs where a: "a = x # xs" using assms by (cases a) auto
  let ?x = "int (unat x) - int (unat v) - int (unat (0 :: u64))" and ?w = "ucast x - ucast v - 0 :: u64"
  have z: "unat (0 :: u64) \<le> 1" by simp
  note w = sub_word [OF z, of x v]
  have e: "mp_sub_ui a v = ucast ?w # mp_sub_ui_loop ?w xs" by (simp add: mp_sub_ui_def a Let_def)
  have l: "length (mp_sub_ui_loop ?w xs) = length xs"
    "int (mp_val (mp_sub_ui_loop ?w xs)) = (?x div int limb_base + int (mp_val xs)) mod int limb_base ^ length xs"
    using sub_ui_loop [of ?w xs] unfolding w(2) by (simp_all add: algebra_simps)
  have "int (mp_val (mp_sub_ui a v)) = ?x mod int limb_base + int limb_base * ((?x div int limb_base + int (mp_val xs)) mod int limb_base ^ length xs)"
    by (simp only: e mp_val.simps of_nat_add of_nat_mult l(2) w(1))
  also have "\<dots> = (?x + int limb_base * int (mp_val xs)) mod (int limb_base * int limb_base ^ length xs)"
    by (rule borrow_step) simp_all
  finally show ?thesis unfolding e using l(1) by (simp add: a algebra_simps)
qed

section \<open>The product\<close>

lemma mp_val_take_Suc: "j < length b \<Longrightarrow> mp_val (take (Suc j) b) = mp_val (take j b) + unat (b ! j) * limb_base ^ j"
  by (simp add: take_Suc_conv_app_nth mp_val_append mult.commute)

lemma mul_arith:
  fixes T :: nat
  assumes "T' + t * X = T + m * X" "m + B * d = A + v + t"
  shows "T' + d * (B * X) = T + v * X + A * X"
proof -
  have "(T' + t * X) + d * (B * X) = T + (m + B * d) * X" unfolding assms(1) by (simp add: algebra_simps)
  then show ?thesis unfolding assms(2) by (simp add: algebra_simps)
qed

lemma mul_step:
  assumes "i + j < length tmp" "unat v < limb_base" "mul_step ai b i j (v, tmp) = (v', tmp')"
  shows "length tmp' = length tmp" "unat v' < limb_base" "k \<noteq> i + j \<Longrightarrow> tmp' ! k = tmp ! k"
    "mp_val tmp' + unat v' * limb_base ^ Suc (i + j) = mp_val tmp + unat v * limb_base ^ (i + j) + unat ai * unat (b ! j) * limb_base ^ (i + j)"
proof -
  let ?n = "unat ai * unat (b ! j) + unat v + unat (tmp ! (i + j))" and ?w = "ucast ai * ucast (b ! j) + v + ucast (tmp ! (i + j)) :: u64"
  have "unat ai * unat (b ! j) \<le> (limb_base - 1) * (limb_base - 1)"
    using unat_u32_less [of ai] unat_u32_less [of "b ! j"] by (intro mult_le_mono) simp_all
  then have n: "?n < limb_base * limb_base" using assms(2) unat_u32_less [of "tmp ! (i + j)"] by simp
  then have w: "unat ?w = ?n" by (simp add: unat_word_ariths)
  have e: "v' = drop_bit 32 ?w" "tmp' = tmp[i + j := ucast ?w]" using assms(3) by (simp_all add: mul_step_def Let_def)
  have v': "unat v' = ?n div limb_base" unfolding e(1) by (simp only: unat_shift32 w)
  show "length tmp' = length tmp" "k \<noteq> i + j \<Longrightarrow> tmp' ! k = tmp ! k" by (simp_all add: e(2))
  show "unat v' < limb_base" unfolding v' using n by (simp add: div_less_iff_less_mult)
  have u: "mp_val tmp' + unat (tmp ! (i + j)) * limb_base ^ (i + j) = mp_val tmp + ?n mod limb_base * limb_base ^ (i + j)"
    using mp_val_update [OF assms(1), of "ucast ?w"] by (simp only: e(2) unat_low w)
  have d: "?n mod limb_base + limb_base * (?n div limb_base) = ?n" by (rule mod_mult_div_eq)
  show "mp_val tmp' + unat v' * limb_base ^ Suc (i + j) = mp_val tmp + unat v * limb_base ^ (i + j) + unat ai * unat (b ! j) * limb_base ^ (i + j)"
    unfolding v' power_Suc by (rule mul_arith [OF u d])
qed

lemma mul_steps:
  assumes "n \<le> length b" "i + n \<le> length tmp" "fold (mul_step ai b i) [0..<n] (0, tmp) = (v, tmp')"
  shows "length tmp' = length tmp \<and> unat v < limb_base \<and> (\<forall>k \<ge> i + n. tmp' ! k = tmp ! k)
    \<and> mp_val tmp' + unat v * limb_base ^ (i + n) = mp_val tmp + unat ai * mp_val (take n b) * limb_base ^ i"
  using assms
proof (induction n arbitrary: v tmp')
  case (Suc n)
  obtain v1 t1 where f: "fold (mul_step ai b i) [0..<n] (0, tmp) = (v1, t1)" by fastforce
  have IH: "length t1 = length tmp" "unat v1 < limb_base" "\<forall>k \<ge> i + n. t1 ! k = tmp ! k"
    "mp_val t1 + unat v1 * limb_base ^ (i + n) = mp_val tmp + unat ai * mp_val (take n b) * limb_base ^ i"
    using Suc.IH [OF _ _ f] Suc.prems by auto
  have s: "mul_step ai b i n (v1, t1) = (v, tmp')" using Suc.prems(3) f by simp
  have l: "i + n < length t1" using Suc.prems(2) IH(1) by simp
  note m = mul_step [OF l IH(2) s]
  have "mp_val tmp' + unat v * limb_base ^ (i + Suc n) = mp_val tmp + unat ai * mp_val (take n b) * limb_base ^ i + unat ai * unat (b ! n) * limb_base ^ (i + n)"
    using m(4) IH(4) by simp
  also have "\<dots> = mp_val tmp + unat ai * mp_val (take (Suc n) b) * limb_base ^ i"
    using Suc.prems(1) by (simp only: mp_val_take_Suc Suc_le_eq power_add) (simp add: algebra_simps)
  finally show ?case using m(1-3) IH(1,3) by simp
qed simp

lemma mul_row:
  assumes "length b = 17" "i < 17" "length tmp = 34" "tmp ! (i + 17) = 0"
  shows "length (mul_row a b i tmp) = 34 \<and> (\<forall>k > i + 17. mul_row a b i tmp ! k = tmp ! k)
    \<and> mp_val (mul_row a b i tmp) = mp_val tmp + unat (a ! i) * mp_val b * limb_base ^ i"
proof -
  obtain v t1 where f: "fold (mul_step (a ! i) b i) [0..<17] (0, tmp) = (v, t1)" by fastforce
  have m: "length t1 = 34" "unat v < limb_base" "\<forall>k \<ge> i + 17. t1 ! k = tmp ! k"
    "mp_val t1 + unat v * limb_base ^ (i + 17) = mp_val tmp + unat (a ! i) * mp_val b * limb_base ^ i"
    using mul_steps [OF _ _ f] assms by auto
  have "i + 17 < length t1" using assms(2) m(1) by simp
  from mp_val_update [OF this, of "ucast v"] have "mp_val (t1[i + 17 := ucast v]) = mp_val t1 + unat v * limb_base ^ (i + 17)"
    using m(2,3) assms(4) by simp
  then show ?thesis using m f by (simp add: mul_row_def)
qed

lemma mul_rows:
  assumes "length b = 17" "length a = 17" "n \<le> 17"
  shows "length (fold (mul_row a b) [0..<n] (replicate 34 0)) = 34
    \<and> (\<forall>k \<ge> n + 17. k < 34 \<longrightarrow> fold (mul_row a b) [0..<n] (replicate 34 0) ! k = 0)
    \<and> mp_val (fold (mul_row a b) [0..<n] (replicate 34 0)) = mp_val (take n a) * mp_val b"
  using assms(3)
proof (induction n)
  case (Suc n)
  let ?t = "fold (mul_row a b) [0..<n] (replicate 34 0)"
  have IH: "length ?t = 34" "\<forall>k \<ge> n + 17. k < 34 \<longrightarrow> ?t ! k = 0" "mp_val ?t = mp_val (take n a) * mp_val b" using Suc by simp_all
  have "?t ! (n + 17) = 0" using IH(2) Suc.prems by simp
  from mul_row [OF assms(1) _ IH(1) this, of a] show ?case
    using Suc.prems IH assms(2) by (simp add: mp_val_take_Suc Suc_le_eq distrib_right)
qed simp

text \<open>Shifting a limb list right by nine bits.\<close>

lemma shift_limb: "unat (drop_bit 9 (x :: u32) + push_bit 23 y) = unat x div 512 + 8388608 * (unat y mod 512)"
    "unat x div 512 + 8388608 * (unat y mod 512) < limb_base"
proof -
  have p: "unat (push_bit 23 y) = 8388608 * (unat y mod 512)"
    using mult_mod_left [of "unat y" 512 8388608] by (simp only: unsigned_push_bit_eq) (simp add: take_bit_eq_mod push_bit_eq_mult)
  have "unat x div 512 < 8388608" using unat_u32_less [of x] by (simp add: div_less_iff_less_mult)
  moreover have "unat y mod 512 < 512" by simp
  ultimately show l: "unat x div 512 + 8388608 * (unat y mod 512) < limb_base" by linarith
  have "unat (drop_bit 9 x + push_bit 23 y) = (unat x div 2 ^ 9 + 8388608 * (unat y mod 512)) mod 2 ^ LENGTH(32)"
    by (simp only: unat_word_ariths unat_drop_bit p)
  then show "unat (drop_bit 9 x + push_bit 23 y) = unat x div 512 + 8388608 * (unat y mod 512)" using l by simp
qed

lemma shift_arith:
  fixes y z :: nat
  assumes "y div 512 + 8388608 * (z mod 512) < limb_base"
  shows "y div 512 + 8388608 * (z mod 512) + limb_base * (z div 512 mod M) = (y + limb_base * z) div 512 mod (limb_base * M)"
proof -
  let ?r = "y div 512 + 8388608 * (z mod 512)"
  have "(y + limb_base * z) div 512 = y div 512 + 8388608 * z"
    using div_mult_self1 [of 512 y "8388608 * z"] by (simp add: mult.assoc)
  also have "8388608 * z = 8388608 * (z mod 512) + 8388608 * (512 * (z div 512))"
    unfolding distrib_left [symmetric] mod_mult_div_eq by (rule refl)
  also have "8388608 * (512 * (z div 512)) = limb_base * (z div 512)" by simp
  finally have q: "(y + limb_base * z) div 512 = ?r + limb_base * (z div 512)" by (simp only: add.assoc)
  have "(?r + limb_base * (z div 512)) div limb_base = z div 512" "(?r + limb_base * (z div 512)) mod limb_base = ?r" using assms by simp_all
  then show ?thesis unfolding q using mod_mult2_eq [of "?r + limb_base * (z div 512)" limb_base M] by (simp only: add.commute)
qed

lemma shift_list:
  "length ys = Suc n \<Longrightarrow>
   mp_val (map (\<lambda>i. drop_bit 9 (ys ! i) + push_bit 23 (ys ! Suc i)) [0..<n]) = mp_val ys div 512 mod limb_base ^ n"
proof (induction n arbitrary: ys)
  case (Suc n)
  then obtain y z zs where ys: "ys = y # z # zs" by (auto simp: length_Suc_conv)
  have "mp_val (z # zs) mod 512 = unat z mod 512"
    using mod_mult_self2 [of "unat z" 512 "8388608 * mp_val zs"] by (simp add: mult.assoc)
  then have z: "unat z mod 512 = mp_val (z # zs) mod 512" by simp
  have m: "map (\<lambda>i. drop_bit 9 (ys ! i) + push_bit 23 (ys ! Suc i)) [0..<Suc n]
    = (drop_bit 9 y + push_bit 23 z) # map (\<lambda>i. drop_bit 9 ((z # zs) ! i) + push_bit 23 ((z # zs) ! Suc i)) [0..<n]"
    by (simp add: ys upt_conv_Cons map_Suc_upt [symmetric] del: upt_Suc)
  have "mp_val (map (\<lambda>i. drop_bit 9 (ys ! i) + push_bit 23 (ys ! Suc i)) [0..<Suc n])
     = unat y div 512 + 8388608 * (mp_val (z # zs) mod 512) + limb_base * (mp_val (z # zs) div 512 mod limb_base ^ n)"
    unfolding m mp_val.simps(2) [of "drop_bit 9 y + push_bit 23 z"] shift_limb(1) z using Suc.IH [of "z # zs"] Suc.prems ys by simp
  also have "\<dots> = (unat y + limb_base * mp_val (z # zs)) div 512 mod (limb_base * limb_base ^ n)"
    using shift_limb(2) [of y z] unfolding z by (rule shift_arith)
  finally show ?case by (simp only: ys mp_val.simps power_Suc)
qed simp

section \<open>The field\<close>

definition ed_top :: nat where "ed_top = 2 ^ 521"
definition ed_p :: int where "ed_p = 2 ^ 521 - 1"

text \<open>The field element of a limb list. An operand may be as large as \<open>2\<^sup>5\<^sup>2\<^sup>1\<close>, a result is smaller; so zero
  has the two representations 0 and the prime itself.\<close>

definition fe :: "u32 list \<Rightarrow> int" where "fe a = int (mp_val a) mod ed_p"

definition mp_in :: "u32 list \<Rightarrow> bool" where "mp_in a \<longleftrightarrow> length a = 17 \<and> mp_val a \<le> ed_top"

definition mp_ok :: "u32 list \<Rightarrow> bool" where "mp_ok a \<longleftrightarrow> length a = 17 \<and> mp_val a < ed_top"

lemma ed_top: "limb_base ^ 16 * 512 = ed_top" "limb_base ^ 17 = ed_top * 8388608" "4 < ed_top" "int ed_top = ed_p + 1"
  by (simp_all add: ed_top_def ed_p_def)

lemma mp_ok_in: "mp_ok a \<Longrightarrow> mp_in a"
  by (simp add: mp_ok_def mp_in_def)

lemma ed_p_pos: "0 < ed_p"
  by (simp add: ed_p_def)

lemma fe_mod [simp]: "fe a mod ed_p = fe a"
  by (simp add: fe_def)

lemma mask_limb: "unat ((x :: u32) AND 0x1ff) = unat x mod 512"
proof -
  have "(0x1ff :: u32) = mask 9" by (simp add: mask_eq_exp_minus_1)
  then have "x AND 0x1ff = take_bit 9 x" by (simp only: take_bit_eq_mask)
  then have "unat (x AND 0x1ff) = take_bit 9 (unat x)" by (simp only: unsigned_take_bit_eq)
  then show ?thesis by (simp add: take_bit_eq_mod)
qed

lemma top_limb:
  assumes "length d = 17"
  shows "mp_val (d[16 := d ! 16 AND 0x1ff]) = mp_val d mod ed_top" "unat (drop_bit 9 (d ! 16)) = mp_val d div ed_top"
proof -
  let ?l = "mp_val (take 16 d)" and ?x = "unat (d ! 16)"
  have d: "d = take 16 d @ [d ! 16]" using assms take_Suc_conv_app_nth [of 16 d] by simp
  have v: "mp_val d = ?l + limb_base ^ 16 * ?x" using arg_cong [OF d, of mp_val] assms by (simp add: mp_val_append)
  have l: "?l < limb_base ^ 16" using mp_val_less [of "take 16 d"] assms by simp
  have q: "mp_val d div limb_base ^ 16 = ?x" "mp_val d mod limb_base ^ 16 = ?l" unfolding v using l by simp_all
  have "d[16 := d ! 16 AND 0x1ff] = take 16 d @ [d ! 16 AND 0x1ff]" using assms by (simp add: upd_conv_take_nth_drop)
  then have "mp_val (d[16 := d ! 16 AND 0x1ff]) = ?l + limb_base ^ 16 * (?x mod 512)"
    using assms by (simp only: mp_val_append mp_val.simps mask_limb) simp
  also have "\<dots> = mp_val d mod (limb_base ^ 16 * 512)" unfolding mod_mult2_eq q by (simp only: add.commute)
  finally show "mp_val (d[16 := d ! 16 AND 0x1ff]) = mp_val d mod ed_top" unfolding ed_top(1) .
  have "unat (drop_bit 9 (d ! 16)) = ?x div 512" by (simp only: unat_drop_bit) simp
  also have "\<dots> = mp_val d div (limb_base ^ 16 * 512)" unfolding div_mult2_eq q by (rule refl)
  finally show "unat (drop_bit 9 (d ! 16)) = mp_val d div ed_top" unfolding ed_top(1) .
qed

lemma fold_top: "int (x mod ed_top + x div ed_top) mod ed_p = int x mod ed_p"
proof -
  have "int x = int (x div ed_top) * (ed_p + 1) + int (x mod ed_top)"
    unfolding ed_top(4) [symmetric] by (simp flip: of_nat_mult of_nat_add)
  then have "int x = int (x mod ed_top + x div ed_top) + int (x div ed_top) * ed_p" by (simp add: algebra_simps)
  then show ?thesis by simp
qed

lemma fold_top_bound:
  assumes "x \<le> 2 * ed_top - 2"
  shows "x mod ed_top + x div ed_top < ed_top"
proof (cases "x < ed_top")
  case False
  then have "x div ed_top = 1" "x mod ed_top = x - ed_top" using assms ed_top(3) by (simp_all add: div_if mod_if)
  then show ?thesis using assms False ed_top(3) by simp
qed simp

lemma modadd_val:
  assumes "length a = 17" "length b = 17" "mp_val a + mp_val b \<le> 2 * ed_top"
  shows "length (mp_modadd a b) = 17 \<and> mp_val (mp_modadd a b) = (mp_val a + mp_val b) mod ed_top + (mp_val a + mp_val b) div ed_top"
proof -
  let ?s = "mp_val a + mp_val b" and ?d = "mp_add a b"
  have big: "x < limb_base ^ 17" if "x \<le> 3 * ed_top" for x unfolding ed_top(2) using that ed_top(3) by simp
  have d: "length ?d = 17" "mp_val ?d = ?s" using add_loop [of a b 0] assms big [of ?s] by (simp_all add: mp_add_def)
  let ?m = "?d[16 := ?d ! 16 AND 0x1ff]"
  note t = top_limb [OF d(1), unfolded d(2)]
  have "?s mod ed_top < ed_top" "?s div ed_top \<le> 2" using ed_top(3) div_le_mono [OF assms(3), of ed_top] by simp_all
  then have "?s div ed_top + ?s mod ed_top < limb_base ^ 17" using ed_top(3) by (intro big) linarith
  moreover have "unat (ucast (drop_bit 9 (?d ! 16)) :: u64) = ?s div ed_top" unfolding unat_ucast32 by (rule t(2))
  ultimately show ?thesis using add_ui_loop [of "ucast (drop_bit 9 (?d ! 16))" ?m] d(1) t(1) unat_u32_less [of "drop_bit 9 (?d ! 16)"]
    by (simp add: mp_modadd_def mp_add_ui_def Let_def)
qed

lemma modadd:
  assumes "mp_ok a" "mp_ok b"
  shows "mp_ok (mp_modadd a b)" "fe (mp_modadd a b) = (fe a + fe b) mod ed_p"
proof -
  let ?s = "mp_val a + mp_val b"
  have s: "?s \<le> 2 * ed_top - 2" using assms by (auto simp: mp_ok_def)
  then have v: "length (mp_modadd a b) = 17" "mp_val (mp_modadd a b) = ?s mod ed_top + ?s div ed_top"
    using modadd_val [of a b] assms by (simp_all add: mp_ok_def)
  show "mp_ok (mp_modadd a b)" using v fold_top_bound [OF s] by (simp add: mp_ok_def)
  show "fe (mp_modadd a b) = (fe a + fe b) mod ed_p"
    unfolding fe_def v(2) fold_top by (simp add: mod_simps)
qed

lemma modmul:
  assumes "mp_in a" "mp_in b"
  shows "mp_ok (mp_modmul a b)" "fe (mp_modmul a b) = (fe a * fe b) mod ed_p"
proof -
  let ?t = "mp_val a * mp_val b" and ?tmp = "fold (mul_row a b) [0..<17] (replicate 34 0)"
  have l: "length a = 17" "length b = 17" and le: "mp_val a \<le> ed_top" "mp_val b \<le> ed_top" using assms by (simp_all add: mp_in_def)
  have r: "length ?tmp = 34" "mp_val ?tmp = ?t" using mul_rows [OF l(2,1), of 17] l by simp_all
  define d where "d = map (\<lambda>i. drop_bit 9 (drop 16 ?tmp ! i) + push_bit 23 (drop 16 ?tmp ! Suc i)) [0..<17]"
  define m where "m = take 17 (?tmp[16 := ?tmp ! 16 AND 0x1ff])"
  have e: "mp_modmul a b = mp_modadd d m" using r(1) by (simp add: mp_modmul_def Let_def d_def m_def add.commute)
  have tt: "?t \<le> ed_top * ed_top" using le by (rule mult_le_mono)
  have q: "?t div ed_top \<le> ed_top" using div_le_mono [OF tt, of ed_top] ed_top(3) by simp
  have "mp_val (drop 16 ?tmp) div 512 = ?t div ed_top"
    using mp_val_drop [of 16 ?tmp] r(1) unfolding r(2) ed_top(1) [symmetric] div_mult2_eq by simp
  then have "mp_val d = ?t div ed_top mod limb_base ^ 17"
    unfolding d_def using shift_list [of "drop 16 ?tmp" 17] r(1) by simp
  then have d: "mp_val d = ?t div ed_top" using q ed_top(3) unfolding ed_top(2) by simp
  have "m = (take 17 ?tmp)[16 := take 17 ?tmp ! 16 AND 0x1ff]" by (simp add: m_def take_update_swap)
  moreover have "length (take 17 ?tmp) = 17" using r(1) by simp
  ultimately have m: "mp_val m = mp_val (take 17 ?tmp) mod ed_top" by (simp only: top_limb(1))
  have "mp_val (take 17 ?tmp) mod ed_top = ?t mod ed_top"
    using mp_val_take [of 17 ?tmp] r(1) unfolding r(2) ed_top(2) by (simp add: mod_mod_cancel)
  then have m: "mp_val m = ?t mod ed_top" using m by simp
  have lens: "length d = 17" "length m = 17" using r(1) by (simp_all add: d_def m_def)
  let ?s = "?t div ed_top + ?t mod ed_top"
  have ml: "?t mod ed_top < ed_top" using ed_top(3) by simp
  have v: "length (mp_modmul a b) = 17" "mp_val (mp_modmul a b) = ?s mod ed_top + ?s div ed_top"
    using modadd_val [OF lens] d m q ml unfolding e by simp_all
  have "?s mod ed_top + ?s div ed_top < ed_top"
  proof (cases "?t div ed_top = ed_top")
    case True
    then have "ed_top * ed_top \<le> ?t" by (metis div_times_less_eq_dividend mult.commute)
    then have "?t = ed_top * ed_top" using tt by simp
    then show ?thesis using ed_top(3) by simp
  next
    case False
    then show ?thesis using q ml by (intro fold_top_bound) linarith
  qed
  then show "mp_ok (mp_modmul a b)" using v by (simp add: mp_ok_def)
  have "int ?s mod ed_p = int ?t mod ed_p" using fold_top [of ?t] by (simp only: add.commute)
  then show "fe (mp_modmul a b) = (fe a * fe b) mod ed_p"
    unfolding fe_def v(2) fold_top by (simp add: mod_simps)
qed

lemma modmul2:
  assumes "mp_ok a"
  shows "mp_ok (mp_modmul2 a)" "fe (mp_modmul2 a) = (2 * fe a) mod ed_p"
proof -
  let ?c = "drop_bit 8 (a ! 16)" and ?h = "limb_base ^ 16 * 256"
  have a: "length a = 17" "mp_val a < ed_top" using assms by (simp_all add: mp_ok_def)
  have h: "ed_top = 2 * ?h" unfolding ed_top(1) [symmetric] by simp
  have "drop 16 a = [a ! 16]" using a(1) Cons_nth_drop_Suc [of 16 a] by simp
  then have x: "mp_val a div limb_base ^ 16 = unat (a ! 16)" using mp_val_drop [of 16 a] a(1) by simp
  have c: "unat ?c = mp_val a div ?h" unfolding div_mult2_eq x by (simp only: unat_drop_bit) simp
  have "mp_val a div ?h < 2" using a(2) unfolding h by (intro less_mult_imp_div_less) simp
  then have c1: "unat ?c \<le> 1" using c by simp
  let ?s = "unat ?c + 2 * mp_val a" and ?d = "mp_modmul2_loop ?c a"
  have "?s < limb_base ^ 17" using a(2) c1 ed_top(3) unfolding ed_top(2) by linarith
  then have d: "length ?d = 17" "mp_val ?d = ?s" using mul2_loop [OF c1, of a] a(1) by simp_all
  have v: "mp_modmul2 a = ?d[16 := ?d ! 16 AND 0x1ff]" by (simp add: mp_modmul2_def Let_def)
  then have val: "length (mp_modmul2 a) = 17" "mp_val (mp_modmul2 a) = ?s mod ed_top" using top_limb(1) [OF d(1)] d by simp_all
  then show "mp_ok (mp_modmul2 a)" using ed_top(3) by (simp add: mp_ok_def)
  have "?s div ed_top = unat ?c"
  proof (cases "mp_val a < ?h")
    case True
    then have "unat ?c = 0" unfolding c by simp
    then show ?thesis using True h by simp
  next
    case False
    then have "unat ?c = 1" unfolding c using a(2) h by (simp add: div_if)
    then show ?thesis using False h a(2) by (simp add: div_if)
  qed
  then have "int (2 * mp_val a) = int (?s mod ed_top) + int (unat ?c) * ed_p"
    using arg_cong [OF div_mult_mod_eq [of ?s ed_top], of int] ed_top(4) by (simp add: algebra_simps)
  then have "int (?s mod ed_top) mod ed_p = int (2 * mp_val a) mod ed_p" by simp
  then show "fe (mp_modmul2 a) = (2 * fe a) mod ed_p" unfolding fe_def val(2) by (simp add: mod_simps)
qed

lemma modsub:
  assumes "mp_ok a" "mp_ok b"
  shows "mp_ok (mp_modsub a b)" "fe (mp_modsub a b) = (fe a - fe b) mod ed_p"
proof -
  let ?d = "mp_sub a b" and ?s = "int (mp_val a) - int (mp_val b)"
  have a: "length a = 17" "mp_val a < ed_top" "length b = 17" "mp_val b < ed_top" using assms by (simp_all add: mp_ok_def)
  have B: "int limb_base ^ 17 = int ed_top * 8388608" using arg_cong [OF ed_top(2), of int] by simp
  have d: "length ?d = 17" "int (mp_val ?d) = ?s mod (int ed_top * 8388608)"
    using sub_loop [of a b 0] unfolding a B by (simp_all add: mp_sub_def)
  let ?v = "drop_bit 9 (?d ! 16) AND 1" and ?m = "?d[16 := ?d ! 16 AND 0x1ff]"
  note t = top_limb [OF d(1)]
  have v: "unat ?v = mp_val ?d div ed_top mod 2" by (simp only: unat_and_1 t(2))
  have m: "length ?m = 17" "mp_val ?m = mp_val ?d mod ed_top" using t(1) d(1) by simp_all
  have e: "mp_modsub a b = mp_sub_ui ?m ?v" by (simp add: mp_modsub_def Let_def)
  have "?m \<noteq> []" using m(1) by auto
  then have u: "length (mp_modsub a b) = 17" "int (mp_val (mp_modsub a b)) = (int (mp_val ?m) - int (unat ?v)) mod (int ed_top * 8388608)"
    using sub_ui [of ?m ?v] unfolding m(1) B e by simp_all
  have r: "length (mp_modsub a b) = 17 \<and> (\<exists>k. int (mp_val (mp_modsub a b)) = ?s + k * ed_p) \<and> mp_val (mp_modsub a b) < ed_top"
  proof (cases "mp_val b \<le> mp_val a")
    case True
    then have "int (mp_val ?d) = ?s" unfolding d(2) using a by (intro mod_pos_pos_trivial) simp_all
    then have q: "mp_val ?d = mp_val a - mp_val b" by simp
    then have "mp_val ?d < ed_top" using a by simp
    then have "unat ?v = 0" "mp_val ?m = mp_val ?d" unfolding v m(2) by simp_all
    then have "int (mp_val (mp_modsub a b)) = int (mp_val ?d)"
      unfolding u(2) using \<open>mp_val ?d < ed_top\<close> by (simp add: mod_pos_pos_trivial)
    then show ?thesis using u(1) \<open>mp_val ?d < ed_top\<close> q True by (intro conjI exI [of _ 0]) simp_all
  next
    case False
    let ?r = "ed_top - (mp_val b - mp_val a)"
    have r0: "1 \<le> ?r" "?r < ed_top" using False a by simp_all
    have "int (mp_val ?d) = ?s + int ed_top * 8388608"
      unfolding d(2) using False a by (subst mod_add_self2 [symmetric], intro mod_pos_pos_trivial) simp_all
    then have q: "mp_val ?d = ?r + ed_top * 8388607" using False a by simp
    have "(?r + ed_top * 8388607) div ed_top = 8388607" "(?r + ed_top * 8388607) mod ed_top = ?r"
      using r0(2) div_mult_self2 [of ed_top ?r 8388607] mod_mult_self2 [of ?r ed_top 8388607] by simp_all
    then have "unat ?v = 1" "mp_val ?m = ?r" unfolding v m(2) q by simp_all
    then have "int (mp_val (mp_modsub a b)) = (int ?r - 1) mod (int ed_top * 8388608)"
      unfolding u(2) by simp
    also have "\<dots> = int ?r - 1" using r0 by (intro mod_pos_pos_trivial) linarith+
    finally have f: "int (mp_val (mp_modsub a b)) = int ?r - 1" .
    then have "int (mp_val (mp_modsub a b)) = ?s + 1 * ed_p" using r0 False a ed_top(4) by simp
    then show ?thesis using u(1) f r0 by (intro conjI exI [of _ 1]) simp_all
  qed
  then show "mp_ok (mp_modsub a b)" by (simp add: mp_ok_def)
  obtain k where "int (mp_val (mp_modsub a b)) = ?s + k * ed_p" using r by blast
  then show "fe (mp_modsub a b) = (fe a - fe b) mod ed_p" unfolding fe_def by (simp add: mod_simps)
qed

section \<open>Copies, comparison and powers\<close>

lemma mp_set_id: "length a = 17 \<Longrightarrow> mp_set a = a"
  unfolding mp_set_def using map_nth [of a] by simp

lemma mp_set_ui: "length (mp_set_ui s) = 17" "mp_val (mp_set_ui s) = unat s"
  by (simp_all add: mp_set_ui_def)

lemma mp_set_ui_ok: "mp_ok (mp_set_ui s)" "fe (mp_set_ui s) = int (unat s)"
proof -
  have "limb_base < ed_top" by (simp add: ed_top_def)
  then have u: "unat s + 1 < ed_top" using unat_u32_less [of s] by simp
  then show "mp_ok (mp_set_ui s)" by (simp add: mp_ok_def mp_set_ui)
  show "fe (mp_set_ui s) = int (unat s)" unfolding fe_def mp_set_ui(2) using u ed_top(4) by (intro mod_pos_pos_trivial) linarith+
qed

lemma sum_list_zero: "(\<Sum>x\<leftarrow>xs. of_bool (P x)) = (0 :: int) \<longleftrightarrow> (\<forall>x \<in> set xs. \<not> P x)"
proof (induction xs)
  case (Cons x xs)
  have "0 \<le> (\<Sum>x\<leftarrow>xs. of_bool (P x) :: int)" by (rule sum_list_nonneg) auto
  then show ?case using Cons by (cases "P x") auto
qed simp

lemma mp_cmp: "length a = 17 \<Longrightarrow> length b = 17 \<Longrightarrow> mp_cmp a b = 0 \<longleftrightarrow> a = b"
  unfolding mp_cmp_def sum_list_zero by (auto simp: list_eq_iff_nth_eq)

lemma mp_cmp_ui: "length a = 17 \<Longrightarrow> mp_cmp_ui a b = 0 \<longleftrightarrow> a = mp_set_ui b"
proof -
  assume a: "length a = 17"
  have nn: "0 \<le> (\<Sum>i\<leftarrow>[1..<17]. of_bool (a ! i \<noteq> 0) :: int)" by (rule sum_list_nonneg) auto
  have "mp_cmp_ui a b = 0 \<longleftrightarrow> a ! 0 = b \<and> (\<Sum>i\<leftarrow>[1..<17]. of_bool (a ! i \<noteq> 0)) = (0 :: int)"
    unfolding mp_cmp_ui_def using nn by (cases "a ! 0 = b") simp_all
  also have "(\<Sum>i\<leftarrow>[1..<17]. of_bool (a ! i \<noteq> 0)) = (0 :: int) \<longleftrightarrow> (\<forall>i \<in> Suc ` {..<16}. a ! i = 0)"
    unfolding sum_list_zero by (simp add: lessThan_atLeast0 del: upt_Suc)
  also have "a ! 0 = b \<and> (\<forall>i \<in> Suc ` {..<16}. a ! i = 0) \<longleftrightarrow> a = mp_set_ui b"
  proof
    assume h: "a ! 0 = b \<and> (\<forall>i \<in> Suc ` {..<16}. a ! i = 0)"
    have "a ! i = mp_set_ui b ! i" if "i < 17" for i using h that by (cases i) (simp_all add: mp_set_ui_def)
    then show "a = mp_set_ui b" using a by (intro nth_equalityI) (simp_all add: mp_set_ui)
  qed (simp add: mp_set_ui_def)
  finally show ?thesis .
qed

lemma add_ui_1:
  assumes "mp_ok a"
  shows "mp_in (mp_add_ui a 1)" "fe (mp_add_ui a 1) = (fe a + 1) mod ed_p"
proof -
  have a: "length a = 17" "mp_val a < ed_top" using assms by (simp_all add: mp_ok_def)
  have "1 + mp_val a < ed_top * 8388608" using a(2) by simp
  then have v: "length (mp_add_ui a 1) = 17" "mp_val (mp_add_ui a 1) = 1 + mp_val a"
    using add_ui_loop [of 1 a] unfolding a(1) ed_top(2) by (simp_all add: mp_add_ui_def)
  then show "mp_in (mp_add_ui a 1)" using a(2) by (simp add: mp_in_def)
  show "fe (mp_add_ui a 1) = (fe a + 1) mod ed_p" unfolding fe_def v(2) by (simp add: mod_simps add.commute)
qed

lemma square_fold:
  "mp_in a \<Longrightarrow> fe (fold (\<lambda>i r. mp_modmul r r) is a) = fe a ^ (2 ^ length is) mod ed_p \<and> mp_in (fold (\<lambda>i r. mp_modmul r r) is a)"
proof (induction "is" arbitrary: a)
  case (Cons i "is")
  note m = modmul [OF Cons.prems Cons.prems]
  have "fe (mp_modmul a a) ^ 2 ^ length is mod ed_p = (fe a * fe a) ^ 2 ^ length is mod ed_p" unfolding m(2) by (rule power_mod)
  then show ?case using Cons.IH [OF mp_ok_in [OF m(1)]] by (simp add: power_mult power2_eq_square)
qed simp

lemma modsqrt:
  assumes "mp_in a"
  shows "mp_ok (mp_modsqrt a)" "fe (mp_modsqrt a) = fe a ^ 2 ^ 519 mod ed_p"
proof -
  have l: "length a = 17" using assms by (simp add: mp_in_def)
  have e: "mp_modsqrt a = fold (\<lambda>i r. mp_modmul r r) [1..<520] a" unfolding mp_modsqrt_def mp_set_id [OF l] by (rule refl)
  show "fe (mp_modsqrt a) = fe a ^ 2 ^ 519 mod ed_p" unfolding e using square_fold [OF assms, of "[1..<520]"] by simp
  have "[1..<520] = [1..<519] @ [519]" using upt_Suc_append [of 1 519] by simp
  then have "mp_modsqrt a = mp_modmul (fold (\<lambda>i r. mp_modmul r r) [1..<519] a) (fold (\<lambda>i r. mp_modmul r r) [1..<519] a)"
    unfolding e by simp
  then show "mp_ok (mp_modsqrt a)" using square_fold [OF assms, of "[1..<519]"] by (simp only: modmul(1))
qed

lemma inverse_fold:
  assumes "mp_ok t" "mp_in d" "fe t = x ^ (2 * m) mod ed_p" "fe d = x ^ k mod ed_p"
    and "fold (\<lambda>i (t, d). let t = mp_modmul t t in (t, mp_modmul d t)) is (t, d) = (t', d')"
  shows "mp_in d' \<and> (is \<noteq> [] \<longrightarrow> mp_ok d') \<and> fe d' = x ^ (k + 2 * m * (2 ^ Suc (length is) - 2)) mod ed_p"
  using assms
proof (induction "is" arbitrary: t d m k)
  case (Cons i "is")
  let ?t = "mp_modmul t t" and ?d = "mp_modmul d (mp_modmul t t)"
  note in_t = mp_ok_in [OF Cons.prems(1)]
  note t = modmul [OF in_t in_t]
  note d = modmul [OF Cons.prems(2) mp_ok_in [OF t(1)]]
  have ft: "fe ?t = x ^ (2 * (2 * m)) mod ed_p"
    unfolding t(2) Cons.prems(3) by (simp add: mod_simps power_add [symmetric] mult_2)
  have fd: "fe ?d = x ^ (k + 4 * m) mod ed_p"
    unfolding d(2) ft Cons.prems(4) by (simp add: mod_simps power_add)
  have "2 \<le> (2 :: nat) ^ Suc (length is)" by simp
  then have e: "k + 4 * m + 2 * (2 * m) * (2 ^ Suc (length is) - 2) = k + 2 * m * (2 ^ Suc (length (i # is)) - 2)"
    by (simp add: algebra_simps diff_mult_distrib2)
  have f: "fold (\<lambda>i (t, d). let t = mp_modmul t t in (t, mp_modmul d t)) is (?t, ?d) = (t', d')"
    using Cons.prems(5) by (simp add: Let_def)
  from Cons.IH [OF t(1) mp_ok_in [OF d(1)] ft fd f] show ?case unfolding e using d(1) f by (cases "is = []") auto
qed simp

lemma modinv:
  assumes "mp_in a"
  shows "mp_ok (mp_modinv a)" "fe (mp_modinv a) = fe a ^ (2 ^ 521 - 3) mod ed_p"
proof -
  have l: "length a = 17" using assms by (simp add: mp_in_def)
  note t = modmul [OF assms assms]
  obtain t' d' where f: "fold (\<lambda>i (t, d). let t = mp_modmul t t in (t, mp_modmul d t)) [2..<521] (mp_modmul a a, a) = (t', d')" by fastforce
  have ft: "fe (mp_modmul a a) = fe a ^ (2 * 1) mod ed_p" unfolding t(2) by (simp add: power2_eq_square)
  have fd: "fe a = fe a ^ 1 mod ed_p" by simp
  have e: "mp_modinv a = d'" unfolding mp_modinv_def mp_set_id [OF l] Let_def f [unfolded Let_def] snd_conv by (rule refl)
  have k: "(1 :: nat) + 2 * 1 * (2 ^ Suc (length [2..<521]) - 2) = 2 ^ 521 - 3" unfolding length_upt by simp
  have ne: "[2..<521 :: nat] \<noteq> []" unfolding upt_eq_Nil_conv by simp
  note i = inverse_fold [OF t(1) assms ft fd f, unfolded k]
  show "mp_ok (mp_modinv a)" "fe (mp_modinv a) = fe a ^ (2 ^ 521 - 3) mod ed_p" using i ne unfolding e by blast+
qed

section \<open>Numbers and buffers\<close>

lemma limb_bytes:
  "push_bit 24 (ucast (ucast (drop_bit 24 x) :: u8)) OR push_bit 16 (ucast (ucast (drop_bit 16 x) :: u8))
   OR push_bit 8 (ucast (ucast (drop_bit 8 x) :: u8)) OR ucast (ucast x :: u8) = (x :: u32)"
proof (rule bit_word_eqI)
  fix n assume "n < LENGTH(32)"
  then show "bit (push_bit 24 (ucast (ucast (drop_bit 24 x) :: u8)) OR push_bit 16 (ucast (ucast (drop_bit 16 x) :: u8))
   OR push_bit 8 (ucast (ucast (drop_bit 8 x) :: u8)) OR ucast (ucast x :: u8) :: u32) n = bit x n"
    by (cases "n < 8"; cases "n < 16"; cases "n < 24") (simp_all add: bit_simps not_less less_diff_conv2)
qed

lemma update_four:
  fixes a b c d :: 'a
  assumes "4 \<le> p" "p \<le> length xs"
  defines "ys \<equiv> xs[p - 4 := a, p - 3 := b, p - 2 := c, p - 1 := d]"
  shows "length ys = length xs" "p \<le> j \<or> j < p - 4 \<Longrightarrow> ys ! j = xs ! j"
    "ys ! (p - 4) = a" "ys ! (p - 3) = b" "ys ! (p - 2) = c" "ys ! (p - 1) = d"
proof -
  obtain q where p: "p = q + 4" using assms(1) by (metis add.commute le_Suc_ex)
  show "length ys = length xs" by (simp add: ys_def)
  show "p \<le> j \<or> j < p - 4 \<Longrightarrow> ys ! j = xs ! j" unfolding ys_def p by (elim disjE) simp_all
  show "ys ! (p - 4) = a" "ys ! (p - 3) = b" "ys ! (p - 2) = c" "ys ! (p - 1) = d"
    unfolding ys_def p using assms(2) p by (simp_all add: nth_list_update)
qed

lemma from_mp_upto:
  fixes m :: "u32 list"
  assumes "4 * n \<le> sz" "sz \<le> length out"
  defines "r \<equiv> fold (\<lambda>i out. out[sz - 4 * i - 4 := ucast (drop_bit 24 (m ! i)), sz - 4 * i - 3 := ucast (drop_bit 16 (m ! i)),
     sz - 4 * i - 2 := ucast (drop_bit 8 (m ! i)), sz - 4 * i - 1 := ucast (m ! i)]) [0..<n] out :: bytes"
  shows "length r = length out \<and> (\<forall>j < sz - 4 * n. r ! j = out ! j)
    \<and> (\<forall>i < n. r ! (sz - 4 * i - 4) = ucast (drop_bit 24 (m ! i)) \<and> r ! (sz - 4 * i - 3) = ucast (drop_bit 16 (m ! i))
        \<and> r ! (sz - 4 * i - 2) = ucast (drop_bit 8 (m ! i)) \<and> r ! (sz - 4 * i - 1) = ucast (m ! i))"
  using assms(1) unfolding r_def
proof (induction n)
  case (Suc n)
  let ?p = "sz - 4 * n"
  let ?r = "fold (\<lambda>i out. out[sz - 4 * i - 4 := ucast (drop_bit 24 (m ! i)), sz - 4 * i - 3 := ucast (drop_bit 16 (m ! i)),
     sz - 4 * i - 2 := ucast (drop_bit 8 (m ! i)), sz - 4 * i - 1 := ucast (m ! i)]) [0..<n] out :: bytes"
  have p: "4 \<le> ?p" "?p \<le> length ?r" using Suc assms(2) by simp_all
  note u = update_four [OF p, where a = "ucast (drop_bit 24 (m ! n))" and b = "ucast (drop_bit 16 (m ! n))" and c = "ucast (drop_bit 8 (m ! n))" and d = "ucast (m ! n)"]
  have i: "?p \<le> sz - 4 * i - c" if "i < n" "c \<le> 4" for i c using that by simp
  show ?case using Suc u i by (simp add: All_less_Suc)
qed simp

lemma from_mp:
  assumes "length m = 17" "68 \<le> sz" "sz \<le> length out"
  shows "length (from_mp out m sz) = length out" "make_mp (from_mp out m sz) sz = m"
    "j < sz - 68 \<Longrightarrow> from_mp out m sz ! j = out ! j"
proof -
  note f = from_mp_upto [of 17 sz out m, folded from_mp_def]
  show "length (from_mp out m sz) = length out" "j < sz - 68 \<Longrightarrow> from_mp out m sz ! j = out ! j" using f assms by simp_all
  have "make_mp (from_mp out m sz) sz ! i = m ! i" if "i < 17" for i
    using f assms that by (simp only: make_mp_def) (simp add: limb_bytes)
  then show "make_mp (from_mp out m sz) sz = m" using assms(1) by (intro nth_equalityI) (simp_all add: make_mp_def)
qed

end
