(* ===== verification/Ed521_Curve.thy ===== *)
theory Ed521_Curve
  imports Ed521
begin

unbundle bit_operations_syntax

text \<open>
  The points of \<^verbatim>\<open>driver/swcrypto/ed521.c\<close> and the multiplication of \<^verbatim>\<open>driver/ecc_driver.c\<close>. A point is in
  projective coordinates of the curve \<open>x\<^sup>2 + y\<^sup>2 = 1 - 376014 x\<^sup>2 y\<^sup>2\<close>. The lemmas read a point through
  \<open>coords\<close>, the three numbers modulo the prime, and relate the register programs of the source to
  the Edwards addition law as polynomial identities.
\<close>

section \<open>Points\<close>

record ec_point =
  px :: "u32 list"
  py :: "u32 list"
  pz :: "u32 list"

definition point_set :: "ec_point \<Rightarrow> ec_point" where
  "point_set a = \<lparr>px = mp_set (px a), py = mp_set (py a), pz = mp_set (pz a)\<rparr>"

definition point_make_affine :: "ec_point \<Rightarrow> int \<times> ec_point" where
  "point_make_affine a =
     (let t = mp_modinv (pz a);
          d = \<lparr>px = mp_modmul (px a) t, py = mp_modmul (py a) t, pz = mp_modmul (pz a) t\<rparr>
      in (mp_cmp_ui (pz d) 1, d))"

definition point_uncompress :: "u32 list \<Rightarrow> int \<Rightarrow> int \<times> ec_point" where
  "point_uncompress x y_sign =
     (let ret = 0;
          px0 = mp_set x;
          pz0 = mp_modmul px0 px0;
          t = mp_set_ui 376014;
          t = mp_modmul t pz0;
          t = mp_add_ui t 1;
          py0 = mp_modinv t;
          t = mp_modmul t py0;
          ret = (if mp_cmp_ui t 1 \<noteq> 0 then - 1 else ret);
          t = mp_set_ui 1;
          t = mp_modsub t pz0;
          t = mp_modmul t py0;
          py0 = mp_modsqrt t;
          pz0 = mp_modmul py0 py0;
          ret = (if mp_cmp pz0 t \<noteq> 0 then - 1 else ret);
          py0 = (if uint (py0 ! 0 AND 1) \<noteq> y_sign then mp_sub ED521_P py0 else py0)
      in (ret, \<lparr>px = px0, py = py0, pz = mp_set_ui 1\<rparr>))"

text \<open>The result, the number, the sign and the point, which the code makes affine in place.\<close>

definition point_compress :: "ec_point \<Rightarrow> int \<times> u32 list \<times> int \<times> ec_point" where
  "point_compress p =
     (let (ret, p) = point_make_affine p
      in (ret, mp_set (px p), uint (py p ! 0 AND 1), p))"

definition point_double :: "ec_point \<Rightarrow> ec_point" where
  "point_double a =
     (let R1 = mp_set (px a); R2 = mp_set (py a); R3 = mp_set (pz a);
          R4 = mp_modmul R1 R1;
          R1 = mp_modadd R1 R2;
          R1 = mp_modmul R1 R1;
          R2 = mp_modmul R2 R2;
          R3 = mp_modmul R3 R3;
          R3 = mp_modmul2 R3;
          R4 = mp_modadd R2 R4;
          R2 = mp_modmul2 R2;
          R2 = mp_modsub R4 R2;
          R1 = mp_modsub R1 R4;
          R2 = mp_modmul R2 R4;
          R3 = mp_modsub R4 R3;
          R1 = mp_modmul R1 R3;
          R3 = mp_modmul R3 R4
      in \<lparr>px = R1, py = R2, pz = R3\<rparr>)"

definition point_add :: "ec_point \<Rightarrow> ec_point \<Rightarrow> ec_point" where
  "point_add a b =
     (let R4 = mp_set (px b); R5 = mp_set (py b); R7 = mp_set (pz b);
          R1 = mp_set (px a); R2 = mp_set (py a); R3 = mp_set (pz a);
          R3 = mp_modmul R3 R7;
          R7 = mp_modadd R1 R2;
          R8 = mp_modadd R4 R5;
          R1 = mp_modmul R1 R4;
          R2 = mp_modmul R2 R5;
          R7 = mp_modmul R7 R8;
          R7 = mp_modsub R7 R1;
          R7 = mp_modsub R7 R2;
          R7 = mp_modmul R7 R3;
          R8 = mp_modmul R1 R2;
          R4 = (ED521_P ! 0 + ED521_D) # map (\<lambda>i. ED521_P ! i) [1..<ED521_LIMBS];
          R8 = mp_modmul R8 R4;
          R2 = mp_modsub R2 R1;
          R2 = mp_modmul R2 R3;
          R3 = mp_modmul R3 R3;
          R1 = mp_modsub R3 R8;
          R3 = mp_modadd R3 R8;
          R2 = mp_modmul R2 R3;
          R3 = mp_modmul R3 R1;
          R1 = mp_modmul R1 R7
      in \<lparr>px = R1, py = R2, pz = R3\<rparr>)"

text \<open>One bit of the ladder on the pair of points; \<open>b\<close> selects which of them is doubled.\<close>

definition ladder_bit :: "('p \<Rightarrow> 'p \<Rightarrow> 'p) \<Rightarrow> ('p \<Rightarrow> 'p) \<Rightarrow> bool \<Rightarrow> 'p \<times> 'p \<Rightarrow> 'p \<times> 'p" where
  "ladder_bit add dbl b p =
     (let (p0, p1) = p; s = add p0 p1 in if b then (s, dbl p1) else (dbl p0, s))"

text \<open>The bits of a limb from the most significant one, as the shifts of the inner loop give them.\<close>

definition limb_bits :: "u32 \<Rightarrow> bool list" where
  "limb_bits v = map (\<lambda>j. drop_bit 31 (push_bit j v) \<noteq> 0) [0..<32]"

text \<open>The two loops over the limbs and their bits, on any type of points with an addition and a doubling.\<close>

definition ladder :: "('p \<Rightarrow> 'p \<Rightarrow> 'p) \<Rightarrow> ('p \<Rightarrow> 'p) \<Rightarrow> u32 list \<Rightarrow> 'p \<times> 'p \<Rightarrow> 'p \<times> 'p" where
  "ladder add dbl s p = fold (\<lambda>i p. fold (ladder_bit add dbl) (limb_bits (s ! i)) p) (rev [0..<ED521_LIMBS]) p"

definition point_scalar :: "ec_point \<Rightarrow> u32 list \<Rightarrow> ec_point" where
  "point_scalar a s =
     (let p0 = \<lparr>px = mp_set_ui 0, py = mp_set_ui 1, pz = mp_set_ui 1\<rparr>;
          p1 = point_set a
      in fst (ladder point_add point_double s (p0, p1)))"

section \<open>The driver\<close>

abbreviation (input) ECC_SCALAR_LEN :: nat where "ECC_SCALAR_LEN \<equiv> 128"
abbreviation (input) ECC_POINT_LEN :: nat where "ECC_POINT_LEN \<equiv> 128"

text \<open>The buffers of the context; the call writes the point buffer and always succeeds.\<close>

record ecc_ctx =
  ecc_scalar :: bytes
  ecc_point :: bytes

definition msel_ecc_mul :: "ecc_ctx \<Rightarrow> ecc_ctx" where
  "msel_ecc_mul ctx =
     (let scalar = make_mp (ecc_scalar ctx) ECC_SCALAR_LEN;
          compressed = make_mp (ecc_point ctx) ECC_POINT_LEN;
          y_sign = uint (ecc_point ctx ! 0 AND 0x01);
          (_, inp) = point_uncompress compressed y_sign;
          out = point_scalar inp scalar;
          (_, compressed, y_sign, out) = point_compress out;
          point = (ecc_point ctx)[0 := ecc_point ctx ! 0 AND 0xfe];
          point = point[0 := point ! 0 OR word_of_int y_sign]
      in ctx\<lparr>ecc_point := from_mp point compressed ECC_POINT_LEN\<rparr>)"

section \<open>Coordinates\<close>

abbreviation (input) ed_d :: int where "ed_d \<equiv> - 376014"

definition point_ok :: "ec_point \<Rightarrow> bool" where
  "point_ok p \<longleftrightarrow> mp_ok (px p) \<and> mp_ok (py p) \<and> mp_ok (pz p)"

definition coords :: "ec_point \<Rightarrow> int \<times> int \<times> int" where
  "coords p = (fe (px p), fe (py p), fe (pz p))"

text \<open>The projective formulas, over the integers.\<close>

definition edwards_add :: "int \<Rightarrow> int \<times> int \<times> int \<Rightarrow> int \<times> int \<times> int \<Rightarrow> int \<times> int \<times> int" where
  "edwards_add d = (\<lambda>(X1, Y1, Z1) (X2, Y2, Z2).
     let A = Z1 * Z2; B = A * A; C = X1 * X2; D = Y1 * Y2; E = d * (C * D); F = B - E; G = B + E
     in (A * F * (X1 * Y2 + X2 * Y1), A * G * (D - C), F * G))"

definition edwards_double :: "int \<times> int \<times> int \<Rightarrow> int \<times> int \<times> int" where
  "edwards_double = (\<lambda>(X, Y, Z).
     let s = X * X + Y * Y; J = s - 2 * (Z * Z)
     in (2 * X * Y * J, s * (X * X - Y * Y), s * J))"

fun reduce :: "int \<times> int \<times> int \<Rightarrow> int \<times> int \<times> int" where
  "reduce (X, Y, Z) = (X mod ed_p, Y mod ed_p, Z mod ed_p)"

fun curve :: "int \<times> int \<times> int \<Rightarrow> int" where
  "curve (X, Y, Z) = (X * X + Y * Y) * (Z * Z) - (Z * Z) * (Z * Z) - ed_d * ((X * X) * (Y * Y))"

definition on_curve :: "ec_point \<Rightarrow> bool" where
  "on_curve p \<longleftrightarrow> ed_p dvd curve (coords p)"

lemmas field_ok = modadd(1) modsub(1) modmul2(1) modmul(1) mp_ok_in
lemmas field_fe = modadd(2) modsub(2) modmul2(2) modmul(2)

lemma mp_ok_length: "mp_ok a \<Longrightarrow> length a = 17"
  by (simp add: mp_ok_def)

definition curve_d :: "u32 list" where
  "curve_d = (ED521_P ! 0 + ED521_D) # map (\<lambda>i. ED521_P ! i) [1..<ED521_LIMBS]"

lemma curve_d: "mp_ok curve_d" "fe curve_d = ed_d mod ed_p"
proof -
  have l: "length curve_d = 17" by (simp add: curve_d_def)
  have c: "curve_d = [0xfffa4331, 0xffffffff, 0xffffffff, 0xffffffff, 0xffffffff, 0xffffffff, 0xffffffff, 0xffffffff, 0xffffffff, 0xffffffff, 0xffffffff, 0xffffffff, 0xffffffff, 0xffffffff, 0xffffffff, 0xffffffff, 0x1ff]" by code_simp
  have v: "mp_val curve_d + 376015 = ed_top" by (simp only: c mp_val.simps) (simp add: ed_top_def)
  then show "mp_ok curve_d" using l by (simp add: mp_ok_def)
  have "int (mp_val curve_d) = ed_d + ed_p" using arg_cong [OF v, of int] ed_top(4) by simp
  then show "fe curve_d = ed_d mod ed_p" by (simp add: fe_def)
qed

lemma edwards_add_mod: "reduce (edwards_add (d mod ed_p) P Q) = reduce (edwards_add d P Q)"
proof -
  obtain X1 Y1 Z1 X2 Y2 Z2 where pq: "P = (X1, Y1, Z1)" "Q = (X2, Y2, Z2)" by (metis prod_cases3)
  have E: "(d mod ed_p) * x mod ed_p = d * x mod ed_p" for x by (rule mod_mult_left_eq)
  have F: "(b - (d mod ed_p) * x) mod ed_p = (b - d * x) mod ed_p" "(b + (d mod ed_p) * x) mod ed_p = (b + d * x) mod ed_p" for b x
    using mod_diff_right_eq [of b "(d mod ed_p) * x" ed_p] mod_diff_right_eq [of b "d * x" ed_p]
      mod_add_right_eq [of b "(d mod ed_p) * x" ed_p] mod_add_right_eq [of b "d * x" ed_p] unfolding E by simp_all
  show ?thesis unfolding pq edwards_add_def Let_def prod.case reduce.simps prod.inject
    by (intro conjI mod_mult_cong F refl)
qed

lemma point_add_coords:
  assumes "point_ok a" "point_ok b"
  shows "point_ok (point_add a b)" "coords (point_add a b) = reduce (edwards_add ed_d (coords a) (coords b))"
proof -
  have ok: "mp_ok (px a)" "mp_ok (py a)" "mp_ok (pz a)" "mp_ok (px b)" "mp_ok (py b)" "mp_ok (pz b)"
    using assms by (simp_all add: point_ok_def)
  note len = ok [THEN mp_ok_length]
  show "point_ok (point_add a b)"
    unfolding point_add_def curve_d_def [symmetric] Let_def mp_set_id [OF len(1)] mp_set_id [OF len(2)] mp_set_id [OF len(3)]
      mp_set_id [OF len(4)] mp_set_id [OF len(5)] mp_set_id [OF len(6)]
    by (simp add: point_ok_def field_ok ok curve_d)
  show "coords (point_add a b) = reduce (edwards_add ed_d (coords a) (coords b))"
    unfolding point_add_def curve_d_def [symmetric] Let_def mp_set_id [OF len(1)] mp_set_id [OF len(2)] mp_set_id [OF len(3)]
      mp_set_id [OF len(4)] mp_set_id [OF len(5)] mp_set_id [OF len(6)]
    unfolding edwards_add_mod [of ed_d, symmetric] curve_d(2) [symmetric]
    by (simp add: coords_def edwards_add_def Let_def field_ok field_fe ok curve_d(1) mod_simps) (simp add: algebra_simps)
qed

lemma point_double_coords:
  assumes "point_ok a"
  shows "point_ok (point_double a)" "coords (point_double a) = reduce (edwards_double (coords a))"
proof -
  have ok: "mp_ok (px a)" "mp_ok (py a)" "mp_ok (pz a)" using assms by (simp_all add: point_ok_def)
  note len = ok [THEN mp_ok_length]
  note unf = point_double_def Let_def mp_set_id [OF len(1)] mp_set_id [OF len(2)] mp_set_id [OF len(3)]
  show "point_ok (point_double a)" unfolding unf by (simp add: point_ok_def field_ok ok)
  show "coords (point_double a) = reduce (edwards_double (coords a))" unfolding unf
    by (simp add: coords_def edwards_double_def Let_def field_ok field_fe ok mod_simps) (simp add: algebra_simps)
qed

section \<open>The curve\<close>

lemma curve_reduce: "ed_p dvd curve (reduce P) \<longleftrightarrow> ed_p dvd curve P"
proof -
  obtain X Y Z where P: "P = (X, Y, Z)" by (metis prod_cases3)
  have "curve (reduce P) mod ed_p = curve P mod ed_p"
    unfolding P reduce.simps curve.simps by (intro mod_diff_cong mod_add_cong mod_mult_cong mod_mod_trivial refl)
  then show ?thesis by (simp add: dvd_eq_mod_eq_0)
qed

text \<open>
  The projective equation of the sum follows from the equations of the summands: \<open>u\<close> stands for
  \<open>Z\<^sup>2 (X\<^sup>2 + Y\<^sup>2)\<close>, \<open>a\<close> for \<open>Z\<^sup>4\<close> and \<open>b\<close> for \<open>d X\<^sup>2 Y\<^sup>2\<close>.
\<close>

lemma sum_identity:
  fixes a1 b1 u1 a2 b2 u2 :: int
  shows "(a1 * a2 + b1 * b2) * (u1 * u2) - (a1 * a2 - b1 * b2) * (a1 * a2 - b1 * b2) - a1 * b1 * (u2 * u2) - a2 * b2 * (u1 * u1)
    = ((a1 * a2 + b1 * b2) * u2 - a2 * b2 * (u1 + a1 + b1)) * (u1 - a1 - b1)
      + ((a1 * a2 + b1 * b2) * (a1 + b1) - a1 * b1 * (u2 + a2 + b2)) * (u2 - a2 - b2)"
  by algebra

lemma edwards_add_curve:
  fixes d :: int
  defines "c X Y Z \<equiv> (X * X + Y * Y) * (Z * Z) - (Z * Z) * (Z * Z) - d * ((X * X) * (Y * Y))"
  shows "\<exists>q1 q2. (\<lambda>(X, Y, Z). c X Y Z) (edwards_add d (X1, Y1, Z1) (X2, Y2, Z2)) = q1 * c X1 Y1 Z1 + q2 * c X2 Y2 Z2"
proof -
  let ?A = "Z1 * Z2" and ?E = "d * ((X1 * X2) * (Y1 * Y2))"
  let ?F = "?A * ?A - ?E" and ?G = "?A * ?A + ?E" and ?N1 = "X1 * Y2 + X2 * Y1" and ?N2 = "Y1 * Y2 - X1 * X2"
  let ?a1 = "Z1 * Z1 * (Z1 * Z1)" and ?a2 = "Z2 * Z2 * (Z2 * Z2)" and ?b1 = "d * ((X1 * X1) * (Y1 * Y1))" and ?b2 = "d * ((X2 * X2) * (Y2 * Y2))"
  let ?u1 = "(X1 * X1 + Y1 * Y1) * (Z1 * Z1)" and ?u2 = "(X2 * X2 + Y2 * Y2) * (Z2 * Z2)"
  have 1: "c (?A * ?F * ?N1) (?A * ?G * ?N2) (?F * ?G)
    = (?F * ?G) * (?F * ?G) * (?A * ?A * (?F * ?F * (?N1 * ?N1) + ?G * ?G * (?N2 * ?N2)) - (?F * ?G) * (?F * ?G) - d * (?A * ?A * (?A * ?A)) * (?N1 * ?N1) * (?N2 * ?N2))"
    unfolding c_def by algebra
  have 2: "?A * ?A * (?F * ?F * (?N1 * ?N1) + ?G * ?G * (?N2 * ?N2)) - (?F * ?G) * (?F * ?G) - d * (?A * ?A * (?A * ?A)) * (?N1 * ?N1) * (?N2 * ?N2)
    = (?a1 * ?a2 + ?b1 * ?b2) * (?u1 * ?u2) - (?a1 * ?a2 - ?b1 * ?b2) * (?a1 * ?a2 - ?b1 * ?b2) - ?a1 * ?b1 * (?u2 * ?u2) - ?a2 * ?b2 * (?u1 * ?u1)"
    by algebra
  have 3: "?u1 - ?a1 - ?b1 = c X1 Y1 Z1" "?u2 - ?a2 - ?b2 = c X2 Y2 Z2" unfolding c_def by simp_all
  have 4: "w * (k1 * x + k2 * y) = (w * k1) * x + (w * k2) * y" for w k1 k2 x y :: int by algebra
  show ?thesis unfolding edwards_add_def Let_def prod.case by (intro exI, rule trans [OF 1], unfold 2 sum_identity 3, rule 4)
qed

lemma edwards_double_curve:
  "\<exists>q. curve (edwards_double P) = q * curve P"
proof -
  obtain X Y Z where P: "P = (X, Y, Z)" by (metis prod_cases3)
  let ?s = "X * X + Y * Y" let ?H = "Z * Z" let ?J = "?s - 2 * ?H" let ?P = "(X * X) * (Y * Y)"
  have "curve (edwards_double P) = ?s * ?s * ?J * ?J * 4 * (?s * ?s - 4 * ?P) * curve P"
    unfolding P edwards_double_def Let_def prod.case curve.simps by algebra
  then show ?thesis by blast
qed

lemma curve_split: "(\<lambda>(X, Y, Z). (X * X + Y * Y) * (Z * Z) - (Z * Z) * (Z * Z) - ed_d * ((X * X) * (Y * Y))) P = curve P"
  by (cases P rule: prod_cases3) simp

lemma add_on_curve:
  assumes "point_ok a" "point_ok b" "on_curve a" "on_curve b"
  shows "on_curve (point_add a b)"
proof -
  obtain X1 Y1 Z1 X2 Y2 Z2 where ab: "coords a = (X1, Y1, Z1)" "coords b = (X2, Y2, Z2)" by (metis prod_cases3)
  obtain q1 q2 where "curve (edwards_add ed_d (coords a) (coords b)) = q1 * curve (coords a) + q2 * curve (coords b)"
    using edwards_add_curve [of ed_d X1 Y1 Z1 X2 Y2 Z2] unfolding ab curve_split curve.simps by blast
  then show ?thesis unfolding on_curve_def point_add_coords(2) [OF assms(1,2)] curve_reduce using assms(3,4) by (simp add: on_curve_def)
qed

lemma double_on_curve:
  assumes "point_ok a" "on_curve a"
  shows "on_curve (point_double a)"
proof -
  obtain q where "curve (edwards_double (coords a)) = q * curve (coords a)" using edwards_double_curve by blast
  then show ?thesis unfolding on_curve_def point_double_coords(2) [OF assms(1)] curve_reduce using assms(2) by (simp add: on_curve_def)
qed

text \<open>Doubling agrees with adding a point of the curve to itself: the coordinates differ by the factor \<open>- Z\<^sup>4\<close>.\<close>

lemma double_is_add:
  assumes "ed_p dvd curve (X, Y, Z)"
  shows "reduce (edwards_add ed_d (X, Y, Z) (X, Y, Z))
    = reduce ((\<lambda>(X', Y', Z'). (- (Z ^ 4) * X', - (Z ^ 4) * Y', - (Z ^ 4) * Z')) (edwards_double (X, Y, Z)))"
proof -
  let ?s = "X * X + Y * Y" let ?H = "Z * Z" let ?c = "curve (X, Y, Z)" let ?J = "?s - 2 * ?H"
  obtain k where k: "?c = ed_p * k" using assms by blast
  have m: "x mod ed_p = y mod ed_p" if "x - y = q * ?c" for x y q :: int
    using that unfolding k mod_eq_dvd_iff by simp
  have F: "?H * ?H - ed_d * (X * X * (Y * Y)) = - ?H * ?J + ?c" and G: "?H * ?H + ed_d * (X * X * (Y * Y)) = ?H * ?s - ?c"
    unfolding curve.simps by algebra+
  show ?thesis unfolding edwards_add_def edwards_double_def Let_def prod.case reduce.simps prod.inject F G
  proof (intro conjI)
    show "(?H * (- ?H * ?J + ?c) * (X * Y + X * Y)) mod ed_p = (- (Z ^ 4) * (2 * X * Y * ?J)) mod ed_p"
      by (rule m [of _ _ "?H * (X * Y + X * Y)"]) algebra
    show "(?H * (?H * ?s - ?c) * (Y * Y - X * X)) mod ed_p = (- (Z ^ 4) * (?s * (X * X - Y * Y))) mod ed_p"
      by (rule m [of _ _ "- ?H * (Y * Y - X * X)"]) algebra
    show "((- ?H * ?J + ?c) * (?H * ?s - ?c)) mod ed_p = (- (Z ^ 4) * (?s * ?J)) mod ed_p"
      by (rule m [of _ _ "?H * ?J + ?H * ?s - ?c"]) algebra
  qed
qed

section \<open>The ladder\<close>

text \<open>The value of the bits, most significant first.\<close>

fun bits_val :: "nat \<Rightarrow> bool list \<Rightarrow> nat" where
  "bits_val n [] = n"
| "bits_val n (b # bs) = bits_val (2 * n + of_bool b) bs"

lemma bits_val_append: "bits_val n (xs @ ys) = bits_val (bits_val n xs) ys"
  by (induction xs arbitrary: n) simp_all

lemma top_bit: "drop_bit 31 w \<noteq> 0 \<longleftrightarrow> bit (w :: u32) 31"
proof -
  have b: "bit (drop_bit 31 w) n \<longleftrightarrow> n = 0 \<and> bit w 31" for n
    using bit_imp_le_length [of w "31 + n"] by (cases n) (auto simp: bit_drop_bit_eq)
  show ?thesis
  proof (cases "bit w 31")
    case True
    then show ?thesis using b [of 0] by auto
  next
    case False
    then have "drop_bit 31 w = 0" by (intro bit_word_eqI) (simp only: b bit_0_eq bot_apply bot_bool_def simp_thms)
    then show ?thesis using False by simp
  qed
qed

lemma limb_bits_val:
  "k \<le> 32 \<Longrightarrow> bits_val n (map (\<lambda>j. drop_bit 31 (push_bit j (v :: u32)) \<noteq> 0) [0..<k]) = n * 2 ^ k + unat v div 2 ^ (32 - k)"
proof (induction k)
  case (Suc k)
  have "drop_bit 31 (push_bit k v) \<noteq> 0 \<longleftrightarrow> bit v (31 - k)" using Suc.prems by (simp add: top_bit bit_push_bit_iff)
  also have "\<dots> \<longleftrightarrow> bit (unat v) (31 - k)" by (simp add: bit_unsigned_iff)
  also have "\<dots> \<longleftrightarrow> odd (unat v div 2 ^ (31 - k))" by (rule bit_iff_odd)
  finally have b: "drop_bit 31 (push_bit k v) \<noteq> 0 \<longleftrightarrow> odd (unat v div 2 ^ (31 - k))" .
  have e: "32 - k = Suc (31 - k)" "32 - Suc k = 31 - k" using Suc.prems by simp_all
  have "bits_val n (map (\<lambda>j. drop_bit 31 (push_bit j v) \<noteq> 0) [0..<Suc k])
      = 2 * (n * 2 ^ k + unat v div 2 ^ Suc (31 - k)) + of_bool (odd (unat v div 2 ^ (31 - k)))"
    using Suc b e(1) by (simp add: bits_val_append)
  also have "\<dots> = n * 2 ^ Suc k + unat v div 2 ^ (31 - k)"
    unfolding power_Suc mult.commute [of 2 "2 ^ (31 - k)"] div_mult2_eq using odd_two_times_div_two_succ
    by (cases "odd (unat v div 2 ^ (31 - k))") (simp_all add: odd_two_times_div_two_nat)
  finally show ?case unfolding e(2) .
qed (simp add: unat_u32_less)

lemma limb_bits: "bits_val n (limb_bits v) = n * limb_base + unat v"
  unfolding limb_bits_def using limb_bits_val [of 32 n v] by simp

definition scalar_bits :: "u32 list \<Rightarrow> bool list" where
  "scalar_bits s = concat (map (\<lambda>i. limb_bits (s ! i)) (rev [0..<ED521_LIMBS]))"

lemma ladder_bits: "ladder add dbl s p = fold (ladder_bit add dbl) (scalar_bits s) p"
proof -
  have "fold (\<lambda>i. fold f (g i)) is p = fold f (concat (map g is)) p" for f :: "bool \<Rightarrow> 'a \<times> 'a \<Rightarrow> 'a \<times> 'a" and g :: "nat \<Rightarrow> bool list" and "is"
    by (induction "is" arbitrary: p) simp_all
  then show ?thesis unfolding ladder_def scalar_bits_def .
qed

lemma scalar_bits_val:
  "n \<le> length s \<Longrightarrow> bits_val m (concat (map (\<lambda>i. limb_bits (s ! i)) (rev [0..<n]))) = m * limb_base ^ n + mp_val (take n s)"
proof (induction n arbitrary: m)
  case (Suc n)
  have "mp_val (take (Suc n) s) = mp_val (take n s) + unat (s ! n) * limb_base ^ n" using Suc.prems by (intro mp_val_take_Suc) simp
  then show ?case using Suc by (simp add: bits_val_append limb_bits algebra_simps)
qed simp

definition multiple :: "nat \<Rightarrow> 'g \<Rightarrow> 'g :: ab_group_add" where
  "multiple n a = ((+) a ^^ n) 0"

lemma multiple_add: "multiple (m + n) a = multiple m a + multiple n a"
  by (induction m) (simp_all add: multiple_def add.assoc)

lemma multiple_ladder:
  "fold (ladder_bit (+) (\<lambda>x. x + x)) bs (multiple n a, multiple (Suc n) a) = (multiple (bits_val n bs) a, multiple (Suc (bits_val n bs)) a)"
proof (induction bs arbitrary: n)
  case (Cons b bs)
  have "multiple n a + multiple n a = multiple (2 * n) a" "multiple n a + multiple (Suc n) a = multiple (Suc (2 * n)) a"
    "multiple (Suc n) a + multiple (Suc n) a = multiple (Suc (Suc (2 * n))) a" unfolding multiple_add [symmetric] by (simp_all add: mult_2)
  then show ?case using Cons by (simp add: ladder_bit_def)
qed simp

text \<open>C32. The ladder of \<^verbatim>\<open>point_scalar\<close>, run on any abelian group with its addition and doubling, computes
  the multiple of \<open>a\<close> by the number the 17 limbs hold, and keeps the next multiple beside it.\<close>

theorem ladder_multiplies:
  fixes a :: "'g :: ab_group_add"
  assumes "length s = 17"
  shows "ladder (+) (\<lambda>x. x + x) s (0, a) = (multiple (mp_val s) a, multiple (Suc (mp_val s)) a)"
proof -
  have "bits_val 0 (scalar_bits s) = mp_val s" unfolding scalar_bits_def using scalar_bits_val [of 17 s 0] assms by simp
  then show ?thesis using multiple_ladder [of "scalar_bits s" 0 a] by (simp add: ladder_bits) (simp add: multiple_def)
qed

theorem ladder_multiplies_witness:
  "fst (ladder (+) (\<lambda>x. x + x) (mp_set_ui 3) (0, 7 :: int)) = 21"
proof -
  have "unat (3 :: u32) = 3" by simp
  then show ?thesis using ladder_multiplies [OF mp_set_ui(1), of 3 "7 :: int"] unfolding mp_set_ui(2) by (simp add: multiple_def numeral_3_eq_3)
qed

lemma ladder_invariant:
  assumes "P (fst p)" "P (snd p)" "\<And>x y. P x \<Longrightarrow> P y \<Longrightarrow> P (add x y)" "\<And>x. P x \<Longrightarrow> P (dbl x)"
  shows "P (fst (ladder add dbl s p)) \<and> P (snd (ladder add dbl s p))"
proof -
  have "P (fst (fold (ladder_bit add dbl) bs p)) \<and> P (snd (fold (ladder_bit add dbl) bs p))" for bs
    using assms(1,2)
  proof (induction bs arbitrary: p)
    case (Cons b bs)
    have "P (fst (ladder_bit add dbl b p))" "P (snd (ladder_bit add dbl b p))"
      using Cons.prems assms(3,4) by (cases p; simp add: ladder_bit_def Let_def)+
    then show ?case using Cons.IH by simp
  qed simp
  then show ?thesis by (simp add: ladder_bits)
qed

definition zero_point :: ec_point where
  "zero_point = \<lparr>px = mp_set_ui 0, py = mp_set_ui 1, pz = mp_set_ui 1\<rparr>"

lemma zero_point: "point_ok zero_point" "on_curve zero_point" "coords zero_point = (0, 1, 1)"
  by (simp_all add: zero_point_def point_ok_def on_curve_def coords_def mp_set_ui_ok)

lemma point_set_id: "point_ok a \<Longrightarrow> point_set a = a"
  by (simp add: point_set_def point_ok_def mp_set_id mp_ok_length)

lemma scalar_on_curve:
  assumes "point_ok a" "on_curve a"
  shows "point_ok (point_scalar a s) \<and> on_curve (point_scalar a s)"
proof -
  have "point_scalar a s = fst (ladder point_add point_double s (zero_point, a))"
    unfolding point_scalar_def Let_def point_set_id [OF assms(1)] zero_point_def [symmetric] by (rule refl)
  moreover have "point_ok (point_add x y) \<and> on_curve (point_add x y)" if "point_ok x \<and> on_curve x" "point_ok y \<and> on_curve y" for x y
    using that point_add_coords(1) add_on_curve by blast
  moreover have "point_ok (point_double x) \<and> on_curve (point_double x)" if "point_ok x \<and> on_curve x" for x
    using that point_double_coords(1) double_on_curve by blast
  ultimately show ?thesis
    using ladder_invariant [of "\<lambda>x. point_ok x \<and> on_curve x" "(zero_point, a)" point_add point_double s] zero_point assms by simp
qed

section \<open>Compression\<close>

lemma mp_ok_one: "mp_ok a \<Longrightarrow> mp_cmp_ui a 1 = 0 \<longleftrightarrow> a = mp_set_ui 1"
  by (rule mp_cmp_ui) (rule mp_ok_length)

lemma ED521_P: "length ED521_P = 17" "int (mp_val ED521_P) = ed_p" "odd (unat (ED521_P ! 0))"
proof -
  have p: "ED521_P = concat [replicate 16 0xffffffff, [0x1ff]]" by (simp add: ED521_P_def)
  have l: "replicate 16 (0xffffffff :: u32) = [0xffffffff, 0xffffffff, 0xffffffff, 0xffffffff, 0xffffffff, 0xffffffff, 0xffffffff, 0xffffffff,
     0xffffffff, 0xffffffff, 0xffffffff, 0xffffffff, 0xffffffff, 0xffffffff, 0xffffffff, 0xffffffff]" by code_simp
  show "length ED521_P = 17" by (simp add: ED521_P_def)
  show "int (mp_val ED521_P) = ed_p" unfolding ED521_P_def l append.simps mp_val.simps by (simp add: ed_p_def)
  show "odd (unat (ED521_P ! 0))" unfolding ED521_P_def l append.simps by simp
qed

lemma mp_val_odd: "a \<noteq> [] \<Longrightarrow> odd (mp_val a) \<longleftrightarrow> odd (unat (a ! 0))"
  by (cases a) simp_all

lemma low_bit: "uint ((x :: 'a :: len word) AND 1) = int (unat x mod 2)"
  by (simp only: unat_and_1 [symmetric] uint_nat)

lemma negate:
  assumes "mp_ok y"
  shows "mp_ok (mp_sub ED521_P y)" "fe (mp_sub ED521_P y) = (- fe y) mod ed_p" "unat (mp_sub ED521_P y ! 0) mod 2 = (unat (y ! 0) + 1) mod 2"
proof -
  let ?m = "mp_sub ED521_P y"
  have y: "length y = 17" "mp_val y < ed_top" using assms by (simp_all add: mp_ok_def)
  have "int (mp_val y) \<le> ed_p" using y(2) ed_top(4) by linarith
  moreover have "ed_p < int limb_base ^ 17" by (simp add: ed_p_def)
  ultimately have r: "(ed_p - int (mp_val y)) mod int limb_base ^ 17 = ed_p - int (mp_val y)" by (intro mod_pos_pos_trivial) linarith+
  have l: "length ?m = 17" and v: "int (mp_val ?m) = ed_p - int (mp_val y)"
    using sub_loop [of ED521_P y 0] unfolding ED521_P(1,2) y(1) mp_sub_def by (simp_all add: r del: of_nat_numeral)
  show "mp_ok ?m" unfolding mp_ok_def using l v ed_top(4) by linarith
  have "(ed_p - int (mp_val y)) mod ed_p = (- (int (mp_val y) mod ed_p)) mod ed_p" by (simp add: mod_simps)
  then show "fe ?m = (- fe y) mod ed_p" unfolding fe_def v .
  have "int (mp_val ?m + mp_val y) = int (mp_val ED521_P)" using v ED521_P(2) by simp
  then have "mp_val ?m + mp_val y = mp_val ED521_P" by linarith
  moreover have "ED521_P \<noteq> []" using ED521_P(1) by auto
  ultimately have "odd (mp_val ?m + mp_val y)" using mp_val_odd [of ED521_P] ED521_P(3) by simp
  moreover have "?m \<noteq> []" "y \<noteq> []" using l y(1) by auto
  ultimately have "odd (unat (?m ! 0) + unat (y ! 0))" using mp_val_odd by simp
  then show "unat (?m ! 0) mod 2 = (unat (y ! 0) + 1) mod 2" by presburger
qed

text \<open>The two parts of the recovery: \<open>y\<^sup>2\<close> as a quotient whose inverse is checked, and its root, also checked.\<close>

lemma uncompress_equation:
  fixes x2 w i t y :: int
  assumes "w = (376014 * x2 + 1) mod ed_p" "(w * i) mod ed_p = 1" "t = ((1 - x2) * i) mod ed_p" "(y * y) mod ed_p = t"
  shows "ed_p dvd (x2 + y * y) - 1 - ed_d * (x2 * (y * y))"
proof -
  obtain k1 k2 k3 k4 where "376014 * x2 + 1 = w + ed_p * k1" "w * i = 1 + ed_p * k2" "(1 - x2) * i = t + ed_p * k3" "y * y = t + ed_p * k4"
    using assms by (metis add.commute mult_div_mod_eq)
  then have "(x2 + y * y) - 1 - ed_d * (x2 * (y * y)) = ed_p * (k1 * (y * y) + w * k4 - w * k3 + (1 - x2) * k2)" by algebra
  then show ?thesis by simp
qed

lemma uncompress_steps:
  assumes "mp_ok x"
  defines "z \<equiv> mp_modmul x x"
  defines "w \<equiv> mp_add_ui (mp_modmul (mp_set_ui 376014) z) 1"
  defines "i \<equiv> mp_modinv w"
  defines "u \<equiv> mp_modmul w i"
  defines "t \<equiv> mp_modmul (mp_modsub (mp_set_ui 1) z) i"
  defines "y \<equiv> mp_modsqrt t"
  defines "s \<equiv> mp_modmul y y"
  shows "point_uncompress x y_sign = (if mp_cmp s t \<noteq> 0 then - 1 else if mp_cmp_ui u 1 \<noteq> 0 then - 1 else 0,
      \<lparr>px = x, py = if uint (y ! 0 AND 1) \<noteq> y_sign then mp_sub ED521_P y else y, pz = mp_set_ui 1\<rparr>)"
    and "fe w = (376014 * (fe x * fe x) + 1) mod ed_p" "mp_ok i" "fe i = fe w ^ (2 ^ 521 - 3) mod ed_p"
    and "mp_ok u" "fe u = fe w * fe i mod ed_p" "mp_ok t" "fe t = (1 - fe x * fe x) * fe i mod ed_p"
    and "mp_ok y" "fe y = fe t ^ 2 ^ 519 mod ed_p" "mp_ok s" "fe s = fe y * fe y mod ed_p"
proof -
  note lx = mp_ok_length [OF assms(1)]
  show "point_uncompress x y_sign = (if mp_cmp s t \<noteq> 0 then - 1 else if mp_cmp_ui u 1 \<noteq> 0 then - 1 else 0,
      \<lparr>px = x, py = if uint (y ! 0 AND 1) \<noteq> y_sign then mp_sub ED521_P y else y, pz = mp_set_ui 1\<rparr>)"
    unfolding point_uncompress_def Let_def mp_set_id [OF lx]
    unfolding s_def y_def t_def u_def i_def w_def z_def by (rule refl)
  note z = modmul [OF mp_ok_in [OF assms(1)] mp_ok_in [OF assms(1)], folded z_def]
  note w1 = modmul [OF mp_ok_in [OF mp_set_ui_ok(1)] mp_ok_in [OF z(1)], of 376014]
  note w = add_ui_1 [OF w1(1), folded w_def]
  note i = modinv [OF w(1), folded i_def]
  note t1 = modsub [OF mp_set_ui_ok(1) z(1), of 1]
  note t = modmul [OF mp_ok_in [OF t1(1)] mp_ok_in [OF i(1)], folded t_def]
  note y = modsqrt [OF mp_ok_in [OF t(1)], folded y_def]
  show "mp_ok i" "fe i = fe w ^ (2 ^ 521 - 3) mod ed_p" by (rule i)+
  show "mp_ok u" "fe u = fe w * fe i mod ed_p" using modmul [OF w(1) mp_ok_in [OF i(1)], folded u_def] by blast+
  show "mp_ok t" "mp_ok y" "fe y = fe t ^ 2 ^ 519 mod ed_p" by (rule t y)+
  show "mp_ok s" "fe s = fe y * fe y mod ed_p" using modmul [OF mp_ok_in [OF y(1)] mp_ok_in [OF y(1)], folded s_def] by blast+
  show "fe w = (376014 * (fe x * fe x) + 1) mod ed_p" unfolding w(2) w1(2) z(2) mp_set_ui_ok(2) by (simp add: mod_simps)
  show "fe t = (1 - fe x * fe x) * fe i mod ed_p" unfolding t(2) t1(2) z(2) mp_set_ui_ok(2) by (simp add: mod_simps)
qed

lemma point_uncompress:
  assumes "mp_ok x" "point_uncompress x y_sign = (ret, p)" "ret = 0" "y_sign \<in> {0, 1}"
  shows "point_ok p" "on_curve p" "px p = x" "pz p = mp_set_ui 1" "uint (py p ! 0 AND 1) = y_sign"
proof -
  define z where "z = mp_modmul x x"
  define w where "w = mp_add_ui (mp_modmul (mp_set_ui 376014) z) 1"
  define i where "i = mp_modinv w"
  define u where "u = mp_modmul w i"
  define t where "t = mp_modmul (mp_modsub (mp_set_ui 1) z) i"
  define y where "y = mp_modsqrt t"
  define s where "s = mp_modmul y y"
  define y' where "y' = (if uint (y ! 0 AND 1) \<noteq> y_sign then mp_sub ED521_P y else y)"
  note st = uncompress_steps [OF assms(1), folded z_def, folded w_def, folded i_def, folded u_def t_def, folded y_def, folded s_def]
  have p: "p = \<lparr>px = x, py = y', pz = mp_set_ui 1\<rparr>" and ret: "mp_cmp s t = 0" "mp_cmp_ui u 1 = 0"
    using assms(2,3) unfolding st(1) y'_def [symmetric] by (simp_all split: if_splits)
  have eq: "s = t" using ret(1) st(7,11) by (simp add: mp_cmp mp_ok_length)
  have "u = mp_set_ui 1" using ret(2) st(5) by (simp add: mp_ok_one)
  then have u1: "fe w * fe i mod ed_p = 1" using st(6) mp_set_ui_ok(2) [of 1] by simp
  let ?x2 = "fe x * fe x"
  have c: "ed_p dvd (?x2 + fe y * fe y) - 1 - ed_d * (?x2 * (fe y * fe y))"
    using uncompress_equation [OF st(2) u1 st(8)] st(12) unfolding eq by simp
  note n = negate [OF st(9)]
  have y': "mp_ok y'" unfolding y'_def using n(1) st(9) by simp
  have "(- fe y mod ed_p) * (- fe y mod ed_p) mod ed_p = fe y * fe y mod ed_p" using mod_mult_eq [of "- fe y" ed_p "- fe y"] by simp
  then have sq: "ed_p dvd fe y' * fe y' - fe y * fe y" unfolding y'_def mod_eq_dvd_iff [symmetric] using n(2) by simp
  show "px p = x" "pz p = mp_set_ui 1" unfolding p by simp_all
  show "point_ok p" unfolding p point_ok_def using assms(1) y' mp_set_ui_ok(1) by simp
  have "(?x2 + fe y' * fe y') - 1 - ed_d * (?x2 * (fe y' * fe y'))
      = (?x2 + fe y * fe y) - 1 - ed_d * (?x2 * (fe y * fe y)) + (fe y' * fe y' - fe y * fe y) * (1 - ed_d * ?x2)" by algebra
  then have "ed_p dvd (?x2 + fe y' * fe y') - 1 - ed_d * (?x2 * (fe y' * fe y'))" using c sq by (simp only: dvd_add dvd_mult2)
  then show "on_curve p" unfolding on_curve_def coords_def p by (simp add: mp_set_ui_ok)
  have "unat (y ! 0) mod 2 \<noteq> nat y_sign \<Longrightarrow> (unat (y ! 0) + 1) mod 2 = nat y_sign" using assms(4) by (auto; presburger)
  then show "uint (py p ! 0 AND 1) = y_sign"
    unfolding p y'_def low_bit using n(3) assms(4) by (auto simp: low_bit)
qed

lemma point_compress:
  assumes "point_ok q" "point_compress q = (ret, x, y_sign, p)" "ret = 0"
  shows "point_ok p" "px p = x" "pz p = mp_set_ui 1" "y_sign = uint (py p ! 0 AND 1)"
    "(fe (px p) * fe (pz q)) mod ed_p = fe (px q)" "(fe (py p) * fe (pz q)) mod ed_p = fe (py q)"
    "\<exists>i. fe (pz q) * i mod ed_p = 1"
proof -
  let ?i = "mp_modinv (pz q)"
  let ?d = "\<lparr>px = mp_modmul (px q) ?i, py = mp_modmul (py q) ?i, pz = mp_modmul (pz q) ?i\<rparr>"
  have ok: "mp_ok (px q)" "mp_ok (py q)" "mp_ok (pz q)" using assms(1) by (simp_all add: point_ok_def)
  note i = modinv [OF mp_ok_in [OF ok(3)]]
  note x = modmul [OF mp_ok_in [OF ok(1)] mp_ok_in [OF i(1)]]
  note y = modmul [OF mp_ok_in [OF ok(2)] mp_ok_in [OF i(1)]]
  note z = modmul [OF mp_ok_in [OF ok(3)] mp_ok_in [OF i(1)]]
  have c: "point_compress q = (mp_cmp_ui (pz ?d) 1, mp_set (px ?d), uint (py ?d ! 0 AND 1), ?d)"
    by (simp add: point_compress_def point_make_affine_def Let_def)
  have r: "mp_cmp_ui (pz ?d) 1 = 0" "p = ?d" "x = mp_set (px ?d)" and s: "y_sign = uint (py ?d ! 0 AND 1)"
    using assms(2,3) unfolding c prod.inject by blast+
  have one: "pz ?d = mp_set_ui 1" using r(1) z(1) by (simp add: mp_ok_one)
  show "point_ok p" unfolding r(2) point_ok_def using x(1) y(1) z(1) by simp
  show "px p = x" unfolding r(2,3) using x(1) by (simp add: mp_set_id mp_ok_length)
  show "pz p = mp_set_ui 1" "y_sign = uint (py p ! 0 AND 1)" unfolding r(2) using one s by simp_all
  have u: "fe (pz q) * fe ?i mod ed_p = 1" using z(2) one mp_set_ui_ok(2) [of 1] by simp
  have cancel: "(c * fe ?i mod ed_p) * fe (pz q) mod ed_p = c mod ed_p" for c
  proof -
    have "(c * fe ?i mod ed_p) * fe (pz q) mod ed_p = c * (fe (pz q) * fe ?i mod ed_p) mod ed_p"
      by (simp add: mod_simps ac_simps)
    then show ?thesis unfolding u by simp
  qed
  show "(fe (px p) * fe (pz q)) mod ed_p = fe (px q)" unfolding r(2) using x(2) cancel [of "fe (px q)"] by simp
  show "(fe (py p) * fe (pz q)) mod ed_p = fe (py q)" unfolding r(2) using y(2) cancel [of "fe (py q)"] by simp
  show "\<exists>i. fe (pz q) * i mod ed_p = 1" using u by blast
qed

lemma one_mod: "1 mod ed_p = 1"
  by (simp add: ed_p_def)

lemma affine_curve:
  fixes X Y Z x y :: int
  assumes "ed_p dvd curve (X, Y, Z)" "(x * Z) mod ed_p = X" "(y * Z) mod ed_p = Y" "(Z * i) mod ed_p = 1"
  shows "ed_p dvd curve (x, y, 1)"
proof -
  have "reduce (X, Y, Z) = reduce (x * Z, y * Z, Z)" using assms(2,3) by auto
  then have "ed_p dvd curve (x * Z, y * Z, Z)" using curve_reduce assms(1) by metis
  moreover have "curve (x * Z, y * Z, Z) = Z * Z * (Z * Z) * curve (x, y, 1)" unfolding curve.simps by algebra
  ultimately have a: "ed_p dvd Z * Z * (Z * Z) * curve (x, y, 1)" by simp
  have "(Z * i) * (Z * i) * ((Z * i) * (Z * i)) mod ed_p = (1 * 1) * (1 * 1) mod ed_p"
    by (intro mod_mult_cong) (simp_all only: assms(4) one_mod)
  then have "ed_p dvd 1 - (Z * i) * (Z * i) * ((Z * i) * (Z * i))" by (simp only: mod_eq_dvd_iff) (metis dvd_diff_commute mult_1)
  then have "ed_p dvd (1 - (Z * i) * (Z * i) * ((Z * i) * (Z * i))) * curve (x, y, 1) + (i * i * (i * i)) * (Z * Z * (Z * Z) * curve (x, y, 1))"
    by (rule dvd_add [OF dvd_mult2 dvd_mult [OF a]])
  also have "\<dots> = curve (x, y, 1)" unfolding curve.simps by algebra
  finally show ?thesis .
qed

section \<open>The addition law\<close>

definition scale :: "int \<Rightarrow> int \<times> int \<times> int \<Rightarrow> int \<times> int \<times> int" where
  "scale k P = (case P of (X, Y, Z) \<Rightarrow> reduce (k * X, k * Y, k * Z))"

lemma edwards_add_reduce: "reduce (edwards_add d (reduce P) (reduce Q)) = reduce (edwards_add d P Q)"
proof -
  obtain X1 Y1 Z1 X2 Y2 Z2 where pq: "P = (X1, Y1, Z1)" "Q = (X2, Y2, Z2)" by (metis prod_cases3)
  show ?thesis unfolding pq edwards_add_def Let_def prod.case reduce.simps prod.inject
    by (intro conjI mod_diff_cong mod_add_cong mod_mult_cong mod_mod_trivial refl)
qed

lemma edwards_double_reduce: "reduce (edwards_double (reduce P)) = reduce (edwards_double P)"
proof -
  obtain X Y Z where p: "P = (X, Y, Z)" by (metis prod_cases3)
  show ?thesis unfolding p edwards_double_def Let_def prod.case reduce.simps prod.inject
    by (intro conjI mod_diff_cong mod_add_cong mod_mult_cong mod_mod_trivial refl)
qed

lemma edwards_add_affine:
  fixes x1 y1 x2 y2 Z1 Z2 :: int
  defines "S \<equiv> reduce (edwards_add ed_d (x1 * Z1, y1 * Z1, Z1) (x2 * Z2, y2 * Z2, Z2))"
  shows "fst S * (1 + ed_d * x1 * x2 * y1 * y2) mod ed_p = snd (snd S) * (x1 * y2 + x2 * y1) mod ed_p"
    "fst (snd S) * (1 - ed_d * x1 * x2 * y1 * y2) mod ed_p = snd (snd S) * (y1 * y2 - x1 * x2) mod ed_p"
  unfolding S_def edwards_add_def Let_def prod.case reduce.simps fst_conv snd_conv mod_mult_left_eq
  by (rule arg_cong [where f = "\<lambda>x. x mod ed_p"], algebra)+

lemma point_double_add:
  assumes "point_ok a" "on_curve a"
  shows "coords (point_add a a) = scale (- (fe (pz a) ^ 4)) (coords (point_double a))"
proof -
  obtain X Y Z where a: "coords a = (X, Y, Z)" by (metis prod_cases3)
  obtain X' Y' Z' where d: "edwards_double (coords a) = (X', Y', Z')" by (metis prod_cases3)
  have z: "fe (pz a) = Z" using a by (simp add: coords_def)
  have "coords (point_add a a) = reduce (- (Z ^ 4) * X', - (Z ^ 4) * Y', - (Z ^ 4) * Z')"
    using double_is_add [of X Y Z] assms(2) d unfolding point_add_coords(2) [OF assms(1,1)] on_curve_def a by simp
  then show ?thesis unfolding scale_def point_double_coords(2) [OF assms(1)] d reduce.simps prod.case z mod_mult_right_eq .
qed

text \<open>The base point \<^verbatim>\<open>(ED521_Gx, ED521_Gy)\<close> of the source, in projective coordinates.\<close>

definition generator_point :: ec_point where
  "generator_point = \<lparr>px = ED521_Gx, py = mp_set_ui ED521_Gy, pz = mp_set_ui 1\<rparr>"

lemma generator_value: "length ED521_Gx = 17" "int (mp_val ED521_Gx) < ed_p"
  "ed_p dvd curve (int (mp_val ED521_Gx), 12, 1)"
proof -
  have x: "int (mp_val ED521_Gx) = 0x752cb45c48648b189df90cb2296b2878a3bfd9f42fc6c818ec8bf3c9c0c6203913f6ecc5ccc72434b1ae949d568fc99c6059d0fb13364838aa302a940a2f19ba6c"
    unfolding ED521_Gx_def concat.simps append.simps mp_val.simps by simp
  show "length ED521_Gx = 17" by (simp add: ED521_Gx_def)
  show "int (mp_val ED521_Gx) < ed_p" unfolding x ed_p_def by simp
  have "curve (int (mp_val ED521_Gx), 12, 1) = ed_p * 0x568b9d198c07ac1a26e2f48f87955d15199bbcc4c3d2a7c0f82799420ab3c602de38d1ea7ee0e03e654647e7f7421d6220333c035db0e9834f1acb38269eea2405a953e1"
    unfolding x curve.simps ed_p_def by simp
  then show "ed_p dvd curve (int (mp_val ED521_Gx), 12, 1)" by simp
qed

lemma twelve_mod: "12 mod ed_p = 12"
  by (simp add: ed_p_def)

lemma generator: "point_ok generator_point" "on_curve generator_point"
  "fe (px generator_point) = fe ED521_Gx" "fe (py generator_point) = 12" "fe (pz generator_point) = 1"
proof -
  have "mp_ok ED521_Gx" unfolding mp_ok_def using generator_value(1,2) ed_top(4) by linarith
  then show "point_ok generator_point" by (simp add: generator_point_def point_ok_def mp_set_ui_ok)
  show p: "fe (px generator_point) = fe ED521_Gx" "fe (py generator_point) = 12" "fe (pz generator_point) = 1"
    by (simp_all add: generator_point_def mp_set_ui_ok)
  have "fe ED521_Gx = int (mp_val ED521_Gx)" unfolding fe_def using generator_value(2) by (intro mod_pos_pos_trivial) simp_all
  then show "on_curve generator_point" unfolding on_curve_def coords_def p using generator_value(3) by simp
qed

lemma fe_one: "mp_ok a \<Longrightarrow> fe a = 1 \<Longrightarrow> a = mp_set_ui 1"
proof -
  assume a: "mp_ok a" "fe a = 1"
  have l: "int (mp_val a) \<le> ed_p" using a(1) ed_top(4) by (simp add: mp_ok_def)
  have "int (mp_val a) \<noteq> ed_p" using a(2) by (auto simp: fe_def)
  then have "int (mp_val a) mod ed_p = int (mp_val a)" using l by (intro mod_pos_pos_trivial) simp_all
  then have "mp_val a = unat (1 :: u32)" using a(2) by (simp add: fe_def)
  then show ?thesis using a(1) by (intro mp_val_inject) (simp_all add: mp_ok_length mp_set_ui)
qed

lemma uncompress_zero: "point_uncompress (mp_set_ui 0) 1 = (0, zero_point)"
proof -
  define x where "x = mp_set_ui 0"
  have x: "mp_ok x" "fe x = 0" by (simp_all add: x_def mp_set_ui_ok)
  define z where "z = mp_modmul x x"
  define w where "w = mp_add_ui (mp_modmul (mp_set_ui 376014) z) 1"
  define i where "i = mp_modinv w"
  define u where "u = mp_modmul w i"
  define t where "t = mp_modmul (mp_modsub (mp_set_ui 1) z) i"
  define y where "y = mp_modsqrt t"
  define s where "s = mp_modmul y y"
  note st = uncompress_steps [OF x(1), folded z_def, folded w_def, folded i_def, folded u_def t_def, folded y_def, folded s_def]
  have w: "fe w = 1" using st(2) x(2) one_mod by simp
  have i: "fe i = 1" using st(4) unfolding w power_one one_mod .
  have "u = mp_set_ui 1" using st(6) w i one_mod by (intro fe_one st(5)) simp
  moreover have t: "t = mp_set_ui 1" using st(8) i x(2) one_mod by (intro fe_one st(7)) simp
  moreover have "fe t = 1" using t mp_set_ui_ok(2) [of 1] by simp
  then have y1: "fe y = 1" using st(10) unfolding \<open>fe t = 1\<close> power_one one_mod by simp
  moreover have "y = mp_set_ui 1" using y1 by (intro fe_one st(9))
  moreover have "s = mp_set_ui 1" using st(12) y1 one_mod by (intro fe_one st(11)) simp
  moreover have "mp_set_ui 1 ! 0 = (1 :: u32)" by (simp add: mp_set_ui_def)
  ultimately show ?thesis using st(1) [of 1] unfolding zero_point_def x_def [symmetric]
    by (simp add: mp_cmp mp_cmp_ui mp_set_ui)
qed

text \<open>Multiples of the neutral element have the coordinates \<open>(0, 1, 1)\<close> up to the sign.\<close>

definition neutral :: "ec_point \<Rightarrow> bool" where
  "neutral p \<longleftrightarrow> point_ok p \<and> (coords p = (0, 1, 1) \<or> coords p = (0, ed_p - 1, ed_p - 1))"

lemma minus_one_mod: "- 1 mod ed_p = ed_p - 1" "(ed_p - 1) * (ed_p - 1) mod ed_p = 1" "(ed_p - 1) ^ (2 * k + 1) mod ed_p = ed_p - 1"
proof -
  show "- 1 mod ed_p = ed_p - 1" by (simp add: ed_p_def)
  then have m: "(ed_p - 1) mod ed_p = - 1 mod ed_p" by simp
  show "(ed_p - 1) * (ed_p - 1) mod ed_p = 1" using mod_mult_cong [OF m m] one_mod by simp
  have "(ed_p - 1) ^ (2 * k + 1) mod ed_p = (- 1) ^ (2 * k + 1) mod ed_p" using power_mod [of "ed_p - 1" ed_p "2 * k + 1"] power_mod [of "- 1" ed_p "2 * k + 1"] m by simp
  then show "(ed_p - 1) ^ (2 * k + 1) mod ed_p = ed_p - 1" using \<open>- 1 mod ed_p = ed_p - 1\<close> by simp
qed

lemma neutral_ladder:
  "neutral zero_point" "neutral p \<Longrightarrow> neutral q \<Longrightarrow> neutral (point_add p q)" "neutral p \<Longrightarrow> neutral (point_double p)"
proof -
  show "neutral zero_point" unfolding neutral_def using zero_point by simp
  have r: "reduce (0, 1, 1) = (0, 1, 1)" "reduce (0, - 1, - 1) = (0, ed_p - 1, ed_p - 1)" using one_mod minus_one_mod(1) by simp_all
  have c: "\<exists>a \<in> {1, - 1}. coords p = reduce (0, a, a)" if "neutral p" for p using that r unfolding neutral_def by auto
  show "neutral (point_add p q)" if pq: "neutral p" "neutral q"
  proof -
    obtain a b where ab: "a \<in> {1, - 1}" "b \<in> {1, - 1}" "coords p = reduce (0, a, a)" "coords q = reduce (0, b, b)" using c pq by blast
    have ok: "point_ok p" "point_ok q" using pq by (simp_all add: neutral_def)
    have "edwards_add ed_d (0, a, a) (0, b, b) = (0, 1, 1)" using ab(1,2) by (auto simp: edwards_add_def)
    then have "coords (point_add p q) = (0, 1, 1)" unfolding point_add_coords(2) [OF ok] ab(3,4) edwards_add_reduce using r by simp
    then show ?thesis using point_add_coords(1) [OF ok] by (simp add: neutral_def)
  qed
  show "neutral (point_double p)" if p: "neutral p"
  proof -
    obtain a where a: "a \<in> {1, - 1}" "coords p = reduce (0, a, a)" using c p by blast
    have ok: "point_ok p" using p by (simp add: neutral_def)
    have "edwards_double (0, a, a) = (0, - 1, - 1)" using a(1) by (auto simp: edwards_double_def)
    then have "coords (point_double p) = (0, ed_p - 1, ed_p - 1)" unfolding point_double_coords(2) [OF ok] a(2) edwards_double_reduce using r by simp
    then show ?thesis using point_double_coords(1) [OF ok] by (simp add: neutral_def)
  qed
qed

lemma neutral_compress:
  assumes "neutral p"
  shows "fst (point_compress p) = 0"
proof -
  have ok: "mp_ok (pz p)" and z: "fe (pz p) = 1 \<or> fe (pz p) = ed_p - 1" using assms by (auto simp: neutral_def point_ok_def coords_def)
  note i = modinv [OF mp_ok_in [OF ok]]
  note m = modmul [OF mp_ok_in [OF ok] mp_ok_in [OF i(1)]]
  have e: "(2 :: nat) ^ 521 - 3 = 2 * (2 ^ 520 - 2) + 1" by simp
  have "fe (mp_modinv (pz p)) = fe (pz p)"
    using z unfolding i(2) e using minus_one_mod(3) one_mod by (auto simp only: power_one)
  then have "fe (mp_modmul (pz p) (mp_modinv (pz p))) = 1" using z minus_one_mod(2) one_mod unfolding m(2) by auto
  then have "mp_modmul (pz p) (mp_modinv (pz p)) = mp_set_ui 1" by (intro fe_one m(1))
  then show ?thesis by (simp add: point_compress_def point_make_affine_def Let_def mp_cmp_ui mp_set_ui)
qed

lemma neutral_scalar: "neutral (point_scalar zero_point s)"
proof -
  have "point_scalar zero_point s = fst (ladder point_add point_double s (zero_point, zero_point))"
    unfolding point_scalar_def Let_def point_set_id [OF zero_point(1)] zero_point_def [symmetric] by (rule refl)
  then show ?thesis using ladder_invariant [of neutral "(zero_point, zero_point)" point_add point_double s] neutral_ladder by simp
qed

lemma sign_byte:
  assumes "ys = 0 \<or> ys = (1 :: int)"
  shows "odd ((b AND 0xfe) OR word_of_int ys :: u8) \<longleftrightarrow> ys = 1" "((b AND 0xfe) OR word_of_int ys) AND 0xfe = (b AND 0xfe :: u8)"
  using assms by (auto simp: even_or_iff even_and_iff bit.conj_disj_distrib2 and.assoc)

section \<open>Properties\<close>

text \<open>C7. The modular arithmetic of \<^verbatim>\<open>ed521.c\<close> is arithmetic modulo \<open>2\<^sup>5\<^sup>2\<^sup>1 - 1\<close>. On numbers below \<open>2\<^sup>5\<^sup>2\<^sup>1\<close>, addition,
  subtraction, doubling and multiplication return a number below \<open>2\<^sup>5\<^sup>2\<^sup>1\<close>, with all carries and borrows of the
  17 limbs propagated, that is congruent to the result over the integers; and inversion and
  square root compute the powers of exponent \<open>p - 2\<close> and \<open>(p + 1) / 4\<close>.\<close>

theorem ed521_field:
  assumes "mp_ok a" "mp_ok b"
  shows "mp_ok (mp_modadd a b) \<and> fe (mp_modadd a b) = (fe a + fe b) mod ed_p
    \<and> mp_ok (mp_modsub a b) \<and> fe (mp_modsub a b) = (fe a - fe b) mod ed_p
    \<and> mp_ok (mp_modmul2 a) \<and> fe (mp_modmul2 a) = (2 * fe a) mod ed_p
    \<and> mp_ok (mp_modmul a b) \<and> fe (mp_modmul a b) = (fe a * fe b) mod ed_p
    \<and> mp_ok (mp_modinv a) \<and> fe (mp_modinv a) = fe a ^ (2 ^ 521 - 3) mod ed_p
    \<and> mp_ok (mp_modsqrt a) \<and> fe (mp_modsqrt a) = fe a ^ 2 ^ 519 mod ed_p"
  using modadd [OF assms] modsub [OF assms] modmul2 [OF assms(1)] modmul [OF mp_ok_in [OF assms(1)] mp_ok_in [OF assms(2)]]
    modinv [OF mp_ok_in [OF assms(1)]] modsqrt [OF mp_ok_in [OF assms(1)]] by blast

theorem ed521_field_witness: "mp_ok (mp_modsub (mp_set_ui 3) (mp_set_ui 5)) \<and> fe (mp_modsub (mp_set_ui 3) (mp_set_ui 5)) = ed_p - 2"
proof -
  have "mp_ok (mp_modsub (mp_set_ui 3) (mp_set_ui 5)) \<and> fe (mp_modsub (mp_set_ui 3) (mp_set_ui 5)) = (fe (mp_set_ui 3) - fe (mp_set_ui 5)) mod ed_p"
    using ed521_field [OF mp_set_ui_ok(1) mp_set_ui_ok(1), of 3 5] by blast
  moreover have "(int (unat (3 :: u32)) - int (unat (5 :: u32))) mod ed_p = ed_p - 2" by (simp add: ed_p_def)
  ultimately show ?thesis unfolding mp_set_ui_ok(2) by simp
qed

text \<open>C8. \<^verbatim>\<open>point_add\<close> is the Edwards addition law. For points with affine coordinates \<open>(x1, y1)\<close> and
  \<open>(x2, y2)\<close>, the sum has the coordinates
  \<open>(x1 y2 + x2 y1) / (1 + d x1 x2 y1 y2)\<close> and \<open>(y1 y2 - x1 x2) / (1 - d x1 x2 y1 y2)\<close>
  with \<open>d = - 376014\<close>, stated without division, and it is in range. On a point of the curve,
  \<^verbatim>\<open>point_double\<close> is the sum of the point and itself: the coordinates differ by one common factor.\<close>

theorem point_add_edwards:
  assumes "point_ok a" "point_ok b"
    and "(x1 * fe (pz a)) mod ed_p = fe (px a)" "(y1 * fe (pz a)) mod ed_p = fe (py a)"
    and "(x2 * fe (pz b)) mod ed_p = fe (px b)" "(y2 * fe (pz b)) mod ed_p = fe (py b)"
  shows "point_ok (point_add a b)
    \<and> (fe (px (point_add a b)) * (1 + ed_d * x1 * x2 * y1 * y2)) mod ed_p = (fe (pz (point_add a b)) * (x1 * y2 + x2 * y1)) mod ed_p
    \<and> (fe (py (point_add a b)) * (1 - ed_d * x1 * x2 * y1 * y2)) mod ed_p = (fe (pz (point_add a b)) * (y1 * y2 - x1 * x2)) mod ed_p
    \<and> (on_curve a \<longrightarrow> coords (point_add a a) = scale (- (fe (pz a) ^ 4)) (coords (point_double a)))"
proof -
  let ?Z1 = "fe (pz a)" and ?Z2 = "fe (pz b)"
  have c: "coords a = reduce (x1 * ?Z1, y1 * ?Z1, ?Z1)" "coords b = reduce (x2 * ?Z2, y2 * ?Z2, ?Z2)"
    unfolding coords_def reduce.simps fe_mod using assms(3-6) by simp_all
  have s: "coords (point_add a b) = reduce (edwards_add ed_d (x1 * ?Z1, y1 * ?Z1, ?Z1) (x2 * ?Z2, y2 * ?Z2, ?Z2))"
    unfolding point_add_coords(2) [OF assms(1,2)] c by (rule edwards_add_reduce)
  note affine = edwards_add_affine [of x1 ?Z1 y1 x2 ?Z2 y2, folded s]
  show ?thesis using point_add_coords(1) [OF assms(1,2)] affine point_double_add [OF assms(1)] by (simp add: coords_def)
qed

theorem point_add_edwards_witness:
  "point_ok (point_add generator_point generator_point) \<and> coords (point_add generator_point generator_point) = scale (- 1) (coords (point_double generator_point))"
  using point_add_edwards [OF generator(1) generator(1), of "fe ED521_Gx" 12 "fe ED521_Gx" 12] generator twelve_mod by simp

text \<open>C9. Scalar multiplication stays on the curve. When \<^verbatim>\<open>point_uncompress\<close> returns 0 for a number below \<open>2\<^sup>5\<^sup>2\<^sup>1\<close>,
  it has produced the point of the curve with that x coordinate, \<open>z = 1\<close> and the requested parity
  of y, and the multiple \<^verbatim>\<open>point_scalar\<close> computes from it, by any 17 limbs, is on the curve
  and in range. No step relies on the invertibility of an intermediate \<open>z\<close>.\<close>

theorem ed521_scalar_on_curve:
  assumes "mp_ok x" "y_sign \<in> {0, 1}" "fst (point_uncompress x y_sign) = 0"
  defines "p \<equiv> snd (point_uncompress x y_sign)"
  shows "px p = x \<and> pz p = mp_set_ui 1 \<and> uint (py p ! 0 AND 1) = y_sign \<and> on_curve p
    \<and> point_ok (point_scalar p s) \<and> on_curve (point_scalar p s)"
proof -
  have e: "point_uncompress x y_sign = (fst (point_uncompress x y_sign), p)" by (simp add: p_def)
  note u = point_uncompress [OF assms(1) e assms(3,2)]
  show ?thesis using u scalar_on_curve [OF u(1,2)] by blast
qed

theorem ed521_scalar_on_curve_witness: "on_curve zero_point \<and> on_curve (point_scalar zero_point (mp_set_ui 5))"
  using ed521_scalar_on_curve [of "mp_set_ui 0" 1 "mp_set_ui 5"] uncompress_zero mp_set_ui_ok(1) by simp



end
