(* ===== verification/Sha.thy ===== *)
theory Sha
  imports Stdc
begin

unbundle bit_operations_syntax

text \<open>
  SHA-256: the software transform of \<^verbatim>\<open>driver/swcrypto/sw_sha.c\<close>, the driver entry
  \<^verbatim>\<open>driver/sha_driver.c\<close>, the hash of \<^verbatim>\<open>lib/crypto/sha2.c\<close> with its buffering and padding, and the
  key derivation of \<^verbatim>\<open>lib/crypto/kdf.c\<close>.
\<close>

section \<open>The transform\<close>

definition c8to32 :: "bytes \<Rightarrow> u32 list" where
  "c8to32 iv8 = map (\<lambda>i. push_bit 24 (ucast (iv8 ! (4 * i))) OR push_bit 16 (ucast (iv8 ! (4 * i + 1)))
     OR push_bit 8 (ucast (iv8 ! (4 * i + 2))) OR ucast (iv8 ! (4 * i + 3))) [0..<8]"

definition c32to8 :: "u32 list \<Rightarrow> bytes" where
  "c32to8 iv32 = concat (map (\<lambda>i. [ucast (drop_bit 24 (iv32 ! i)), ucast (drop_bit 16 (iv32 ! i)),
     ucast (drop_bit 8 (iv32 ! i)), ucast (iv32 ! i)]) [0..<8])"

definition Ch :: "u32 \<Rightarrow> u32 \<Rightarrow> u32 \<Rightarrow> u32" where "Ch x y z = (x AND y) XOR (NOT x AND z)"
definition Maj :: "u32 \<Rightarrow> u32 \<Rightarrow> u32 \<Rightarrow> u32" where "Maj x y z = (x AND (y XOR z)) XOR (y AND z)"
definition ROTR32 :: "u32 \<Rightarrow> nat \<Rightarrow> u32" where "ROTR32 x y = drop_bit y x OR push_bit (32 - y) x"
definition S0_32 :: "u32 \<Rightarrow> u32" where "S0_32 x = ROTR32 x 2 XOR ROTR32 x 13 XOR ROTR32 x 22"
definition S1_32 :: "u32 \<Rightarrow> u32" where "S1_32 x = ROTR32 x 6 XOR ROTR32 x 11 XOR ROTR32 x 25"
definition s0_32 :: "u32 \<Rightarrow> u32" where "s0_32 x = ROTR32 x 7 XOR ROTR32 x 18 XOR drop_bit 3 x"
definition s1_32 :: "u32 \<Rightarrow> u32" where "s1_32 x = ROTR32 x 17 XOR ROTR32 x 19 XOR drop_bit 10 x"

definition sha256_K :: "u32 list" where
  "sha256_K = concat [
    [0x428a2f98, 0x71374491, 0xb5c0fbcf, 0xe9b5dba5],
    [0x3956c25b, 0x59f111f1, 0x923f82a4, 0xab1c5ed5],
    [0xd807aa98, 0x12835b01, 0x243185be, 0x550c7dc3],
    [0x72be5d74, 0x80deb1fe, 0x9bdc06a7, 0xc19bf174],
    [0xe49b69c1, 0xefbe4786, 0x0fc19dc6, 0x240ca1cc],
    [0x2de92c6f, 0x4a7484aa, 0x5cb0a9dc, 0x76f988da],
    [0x983e5152, 0xa831c66d, 0xb00327c8, 0xbf597fc7],
    [0xc6e00bf3, 0xd5a79147, 0x06ca6351, 0x14292967],
    [0x27b70a85, 0x2e1b2138, 0x4d2c6dfc, 0x53380d13],
    [0x650a7354, 0x766a0abb, 0x81c2c92e, 0x92722c85],
    [0xa2bfe8a1, 0xa81a664b, 0xc24b8b70, 0xc76c51a3],
    [0xd192e819, 0xd6990624, 0xf40e3585, 0x106aa070],
    [0x19a4c116, 0x1e376c08, 0x2748774c, 0x34b0bcb5],
    [0x391c0cb3, 0x4ed8aa4a, 0x5b9cca4f, 0x682e6ff3],
    [0x748f82ee, 0x78a5636f, 0x84c87814, 0x8cc70208],
    [0x90befffa, 0xa4506ceb, 0xbef9a3f7, 0xc67178f2]]"

text \<open>The words of the block, and one turn of the main loop: a round and the next schedule word.\<close>

definition sha256_load :: "bytes \<Rightarrow> u32 list" where
  "sha256_load bptr = map (\<lambda>i. push_bit 24 (ucast (bptr ! (4 * i))) OR push_bit 16 (ucast (bptr ! (4 * i + 1)))
     OR push_bit 8 (ucast (bptr ! (4 * i + 2))) OR push_bit 0 (ucast (bptr ! (4 * i + 3)))) [0..<16]"

type_synonym sha_regs = "u32 \<times> u32 \<times> u32 \<times> u32 \<times> u32 \<times> u32 \<times> u32 \<times> u32"

definition sha256_round :: "nat \<Rightarrow> sha_regs \<times> u32 list \<Rightarrow> sha_regs \<times> u32 list" where
  "sha256_round i = (\<lambda>((a, b, c, d, e, f, g, h), W).
     let T1 = h + S1_32 e + Ch e f g + sha256_K ! i + W ! i;
         T2 = S0_32 a + Maj a b c
     in ((T1 + T2, a, b, c, d + T1, e, f, g),
         W[i + 16 := s1_32 (W ! (i + 16 - 2)) + W ! (i + 16 - 7) + s0_32 (W ! (i + 16 - 15)) + W ! (i + 16 - 16)]))"

definition sha256_transform :: "u32 list \<Rightarrow> bytes \<Rightarrow> u32 list" where
  "sha256_transform iv bptr =
     (let ((a, b, c, d, e, f, g, h), W) =
        fold sha256_round [0..<64]
          ((iv ! 0, iv ! 1, iv ! 2, iv ! 3, iv ! 4, iv ! 5, iv ! 6, iv ! 7),
           sha256_load bptr @ replicate 64 0)
      in [iv ! 0 + a, iv ! 1 + b, iv ! 2 + c, iv ! 3 + d, iv ! 4 + e, iv ! 5 + f, iv ! 6 + g, iv ! 7 + h])"

section \<open>The driver and the hash\<close>

record sha_data =
  sha_iv :: bytes
  sha_din :: bytes

definition msel_do_sha :: "sha_data \<Rightarrow> sha_data" where
  "msel_do_sha data = data\<lparr>sha_iv := c32to8 (sha256_transform (c8to32 (sha_iv data)) (sha_din data))\<rparr>"

abbreviation (input) SHA256_INPUT_SIZE :: nat where "SHA256_INPUT_SIZE \<equiv> 64"
abbreviation (input) SHA256_HASH_SIZE :: nat where "SHA256_HASH_SIZE \<equiv> 32"

definition sha2_iv :: bytes where
  "sha2_iv = [0x6a, 0x09, 0xe6, 0x67, 0xbb, 0x67, 0xae, 0x85, 0x3c, 0x6e, 0xf3, 0x72, 0xa5, 0x4f, 0xf5, 0x3a,
     0x51, 0x0e, 0x52, 0x7f, 0x9b, 0x05, 0x68, 0x8c, 0x1f, 0x83, 0xd9, 0xab, 0x5b, 0xe0, 0xcd, 0x19]"

record sha2_ctx =
  sha_pos :: nat
  sha_Nl :: u64
  sha_Nh :: u64
  sha_data :: sha_data

abbreviation set_din :: "bytes \<Rightarrow> sha2_ctx \<Rightarrow> sha2_ctx" where
  "set_din d ctx \<equiv> ctx\<lparr>sha_data := (sha_data ctx)\<lparr>sha_din := d\<rparr>\<rparr>"

text \<open>The turn of the loop that copies \<open>ncpy\<close> bytes, and the loop while bytes are left.\<close>

definition sha2_absorb :: "sha2_ctx \<Rightarrow> bytes \<Rightarrow> sha2_ctx" where
  "sha2_absorb ctx piece =
     (let ncpy = length piece;
          ctx = set_din (blit (sha_din (sha_data ctx)) (sha_pos ctx) piece) ctx;
          ctx = ctx\<lparr>sha_pos := sha_pos ctx + ncpy\<rparr>;
          Ntmp = sha_Nl ctx + of_nat (ncpy * 8);
          ctx = ctx\<lparr>sha_Nh := sha_Nh ctx + (if Ntmp < sha_Nl ctx then 1 else 0)\<rparr>;
          ctx = ctx\<lparr>sha_Nl := Ntmp\<rparr>
      in if sha_pos ctx = SHA256_INPUT_SIZE
         then ctx\<lparr>sha_data := msel_do_sha (sha_data ctx), sha_pos := 0\<rparr> else ctx)"

partial_function (option) sha2_update :: "sha2_ctx \<Rightarrow> bytes \<Rightarrow> sha2_ctx option" where
  "sha2_update ctx buf =
     (if buf = [] then Some ctx
      else let ncpy = (2 ^ 32 + SHA256_INPUT_SIZE - sha_pos ctx) mod 2 ^ 32;
               ncpy = (if ncpy > length buf then length buf else ncpy)
           in sha2_update (sha2_absorb ctx (take ncpy buf)) (drop ncpy buf))"

text \<open>The eight bytes a loop with \<open>Ntmp >> 56\<close> and \<open>Ntmp <<= 8\<close> stores from \<open>off\<close> on.\<close>

definition sha2_store64 :: "nat \<Rightarrow> u64 \<Rightarrow> bytes \<Rightarrow> bytes" where
  "sha2_store64 off N din =
     fst (fold (\<lambda>i (din, Ntmp). (din[off + i := ucast (drop_bit 56 Ntmp)], push_bit 8 Ntmp)) [0..<8] (din, N))"

definition sha2_final :: "sha2_ctx \<Rightarrow> bytes" where
  "sha2_final ctx =
     (let zero_rest = (\<lambda>ctx. set_din (blit (sha_din (sha_data ctx)) (sha_pos ctx) (replicate (SHA256_INPUT_SIZE - sha_pos ctx) 0)) ctx);
          ctx = set_din ((sha_din (sha_data ctx))[sha_pos ctx := 0x80]) ctx;
          ctx = ctx\<lparr>sha_pos := sha_pos ctx + 1\<rparr>;
          ctx = (if sha_pos ctx > SHA256_INPUT_SIZE - 8
                 then (let ctx = zero_rest ctx in ctx\<lparr>sha_data := msel_do_sha (sha_data ctx), sha_pos := 0\<rparr>)
                 else ctx);
          ctx = zero_rest ctx;
          ctx = set_din (sha2_store64 (SHA256_INPUT_SIZE - 15) (sha_Nh ctx) (sha_din (sha_data ctx))) ctx;
          ctx = set_din (sha2_store64 (SHA256_INPUT_SIZE - 8) (sha_Nl ctx) (sha_din (sha_data ctx))) ctx;
          data = msel_do_sha (sha_data ctx)
      in take SHA256_HASH_SIZE (sha_iv data))"

definition sha256_hash :: "bytes \<Rightarrow> bytes option" where
  "sha256_hash input = do {
     ctx \<leftarrow> sha2_update \<lparr>sha_pos = 0, sha_Nl = 0, sha_Nh = 0,
             sha_data = \<lparr>sha_iv = sha2_iv, sha_din = replicate SHA256_INPUT_SIZE 0\<rparr>\<rparr> input;
     Some (sha2_final ctx) }"

section \<open>Key derivation\<close>

abbreviation (input) KDF_NUM_ITER :: nat where "KDF_NUM_ITER \<equiv> 16"
abbreviation (input) SHA256_OUTPUT_LEN :: nat where "SHA256_OUTPUT_LEN \<equiv> 32"

text \<open>The mixing table as its rows of 32 bytes.\<close>

fun kdf_table :: "nat \<Rightarrow> bytes \<Rightarrow> bytes list option" where
  "kdf_table 0 row = Some []"
| "kdf_table (Suc n) row = do { next \<leftarrow> sha256_hash row; rest \<leftarrow> kdf_table n next; Some (next # rest) }"

fun kdf_mix :: "nat \<Rightarrow> bytes list \<Rightarrow> bytes \<Rightarrow> bytes option" where
  "kdf_mix 0 table cur = Some cur"
| "kdf_mix (Suc n) table cur = do {
     cur \<leftarrow> sha256_hash cur;
     let idx = (cur ! 1 OR cur ! 0) AND of_nat (KDF_NUM_ITER - 1);
     kdf_mix n table (xor_bytes cur (table ! unat idx)) }"

definition kdf_getkey :: "bytes \<Rightarrow> bytes \<Rightarrow> bytes \<Rightarrow> bytes option" where
  "kdf_getkey master protocol nonce = do {
     row0 \<leftarrow> sha256_hash master;
     row1 \<leftarrow> sha256_hash protocol;
     row2 \<leftarrow> sha256_hash (take SHA256_OUTPUT_LEN nonce);
     let row0 = xor_bytes row0 (xor_bytes row1 row2);
     rows \<leftarrow> kdf_table (KDF_NUM_ITER - 1) row0;
     let table = row0 # rows;
     cur \<leftarrow> Some (table ! (KDF_NUM_ITER - 1));
     kdf_mix KDF_NUM_ITER table cur }"

section \<open>The transform against FIPS 180-4\<close>

text \<open>The standard: the message schedule as a recurrence, then sixty-four rounds.\<close>

function fips_W :: "u32 list \<Rightarrow> nat \<Rightarrow> u32" where
  "fips_W M t =
     (if t < 16 then M ! t
      else (let x = fips_W M (t - 2); y = fips_W M (t - 15)
            in (word_rotr 17 x XOR word_rotr 19 x XOR drop_bit 10 x) + fips_W M (t - 7)
               + (word_rotr 7 y XOR word_rotr 18 y XOR drop_bit 3 y) + fips_W M (t - 16)))"
  by pat_completeness auto
termination by (relation "measure (\<lambda>(M, t). t)") auto

declare fips_W.simps [simp del]

definition fips_round :: "u32 list \<Rightarrow> nat \<Rightarrow> sha_regs \<Rightarrow> sha_regs" where
  "fips_round M t = (\<lambda>(a, b, c, d, e, f, g, h).
     let T1 = h + (word_rotr 6 e XOR word_rotr 11 e XOR word_rotr 25 e) + ((e AND f) XOR (NOT e AND g))
            + sha256_K ! t + fips_W M t;
         T2 = (word_rotr 2 a XOR word_rotr 13 a XOR word_rotr 22 a) + ((a AND b) XOR (a AND c) XOR (b AND c))
     in (T1 + T2, a, b, c, d + T1, e, f, g))"

definition fips_compress :: "u32 list \<Rightarrow> u32 list \<Rightarrow> u32 list" where
  "fips_compress H M =
     (let (a, b, c, d, e, f, g, h) =
        fold (fips_round M) [0..<64] (H ! 0, H ! 1, H ! 2, H ! 3, H ! 4, H ! 5, H ! 6, H ! 7)
      in map2 (+) H [a, b, c, d, e, f, g, h])"

lemma ROTR32_rotr: "0 < n \<Longrightarrow> n < 32 \<Longrightarrow> ROTR32 x n = word_rotr n x"
proof (rule bit_word_eqI)
  fix k assume n: "0 < n" "n < 32" and k: "k < LENGTH(32)"
  have "(k + n) mod 32 = (if k + n < 32 then k + n else k + n - 32)" using n k by (simp add: mod_if)
  then show "bit (ROTR32 x n) k = bit (word_rotr n x) k"
    using n k by (auto simp: ROTR32_def bit_word_rotr_iff bit_or_iff bit_drop_bit_eq bit_push_bit_iff add.commute
      dest: bit_imp_le_length)
qed

lemma Maj_fips: "Maj x y z = (x AND y) XOR (x AND z) XOR (y AND z)"
  by (rule bit_word_eqI) (auto simp: Maj_def bit_and_iff bit_xor_iff)

lemmas sha_fips = ROTR32_rotr S0_32_def S1_32_def s0_32_def s1_32_def Ch_def Maj_fips

lemma sha_regs_exhaust: obtains a b c d e f g h where "(r :: sha_regs) = (a, b, c, d, e, f, g, h)"
  by (metis surj_pair)

lemma sha256_rounds:
  assumes "length M = 16" "n \<le> 64"
  shows "\<exists>W. fold sha256_round [0..<n] (r, M @ replicate 64 0) = (fold (fips_round M) [0..<n] r, W)
    \<and> length W = 80 \<and> (\<forall>j < n + 16. W ! j = fips_W M j)"
  using assms(2)
proof (induction n)
  case 0
  show ?case using assms(1) by (auto simp: nth_append fips_W.simps)
next
  case (Suc n)
  then obtain W where W: "fold sha256_round [0..<n] (r, M @ replicate 64 0) = (fold (fips_round M) [0..<n] r, W)"
    "length W = 80" "\<forall>j < n + 16. W ! j = fips_W M j" by auto
  let ?W = "W[n + 16 := fips_W M (n + 16)]"
  have "s1_32 (W ! (n + 16 - 2)) + W ! (n + 16 - 7) + s0_32 (W ! (n + 16 - 15)) + W ! (n + 16 - 16) = fips_W M (n + 16)"
    using W(3) by (subst fips_W.simps) (simp add: sha_fips Let_def)
  then have "sha256_round n (s, W) = (fips_round M n s, ?W)" for s
    using W(3) by (cases s rule: sha_regs_exhaust) (simp add: sha256_round_def fips_round_def Let_def S0_32_def S1_32_def Ch_def Maj_fips ROTR32_rotr)
  moreover have "\<forall>j < Suc n + 16. ?W ! j = fips_W M j" using W(2,3) Suc.prems by (auto simp: nth_list_update less_Suc_eq)
  ultimately show ?case using W(1,2) by auto
qed

lemma sha256_transform_compress:
  assumes "length iv = 8"
  shows "sha256_transform iv b = fips_compress iv (sha256_load b)"
proof -
  have "length (sha256_load b) = 16" by (simp add: sha256_load_def)
  from sha256_rounds [OF this, of 64] obtain W where
    "fold sha256_round [0..<64] ((iv ! 0, iv ! 1, iv ! 2, iv ! 3, iv ! 4, iv ! 5, iv ! 6, iv ! 7), sha256_load b @ replicate 64 0)
      = (fold (fips_round (sha256_load b)) [0..<64] (iv ! 0, iv ! 1, iv ! 2, iv ! 3, iv ! 4, iv ! 5, iv ! 6, iv ! 7), W)"
    by blast
  moreover obtain a b' c d e f g h where "fold (fips_round (sha256_load b)) [0..<64] (iv ! 0, iv ! 1, iv ! 2, iv ! 3, iv ! 4, iv ! 5, iv ! 6, iv ! 7)
      = (a, b', c, d, e, f, g, h)" by (rule sha_regs_exhaust)
  moreover have "map2 (+) iv [a, b', c, d, e, f, g, h]
      = [iv ! 0 + a, iv ! 1 + b', iv ! 2 + c, iv ! 3 + d, iv ! 4 + e, iv ! 5 + f, iv ! 6 + g, iv ! 7 + h]"
    using assms by (intro nth_equalityI) (auto simp: less_Suc_eq eval_nat_numeral)
  ultimately show ?thesis unfolding sha256_transform_def fips_compress_def Let_def by (simp only: prod.case)
qed

section \<open>Buffering\<close>

function blocks64 :: "bytes \<Rightarrow> bytes list" where
  "blocks64 xs = (if 64 \<le> length xs then take 64 xs # blocks64 (drop 64 xs) else [])"
  by pat_completeness auto
termination by (relation "measure length") auto

definition rest64 :: "bytes \<Rightarrow> bytes" where
  "rest64 xs = drop (64 * (length xs div 64)) xs"

declare blocks64.simps [simp del]

lemma blocks64_short [simp]: "length xs < 64 \<Longrightarrow> blocks64 xs = []" "length xs < 64 \<Longrightarrow> rest64 xs = xs"
  by (simp_all add: blocks64.simps rest64_def)

lemma blocks64_block: "length b = 64 \<Longrightarrow> blocks64 (b @ xs) = b # blocks64 xs" "length b = 64 \<Longrightarrow> rest64 (b @ xs) = rest64 xs"
  using div_add_self1 [of 64 "length xs"] by (simp_all add: blocks64.simps [of "b @ xs"] rest64_def)

lemma rest64_length: "length (rest64 xs) = length xs mod 64"
  by (simp add: rest64_def minus_mult_div_eq_mod)

lemma blocks64_append:
  "blocks64 (xs @ ys) = blocks64 xs @ blocks64 (rest64 xs @ ys) \<and> rest64 (xs @ ys) = rest64 (rest64 xs @ ys)"
proof (induction "length xs" arbitrary: xs rule: less_induct)
  case less
  show ?case
  proof (cases "length xs < 64")
    case False
    define b r where "b = take 64 xs" and "r = drop 64 xs"
    then have "xs = b @ r" "length b = 64" "length r < length xs" using False by auto
    then show ?thesis using less [of r] blocks64_block [of b] by simp
  qed simp
qed

definition sha_step :: "bytes \<Rightarrow> bytes \<Rightarrow> bytes" where
  "sha_step b iv = c32to8 (sha256_transform (c8to32 iv) b)"

lemma msel_do_sha_step: "msel_do_sha \<lparr>sha_iv = iv, sha_din = b\<rparr> = \<lparr>sha_iv = sha_step b iv, sha_din = b\<rparr>"
  by (simp add: msel_do_sha_def sha_step_def)

text \<open>The context holds the bytes not yet hashed at the front of its buffer.\<close>

definition sha2_holds :: "sha2_ctx \<Rightarrow> bytes \<Rightarrow> bytes \<Rightarrow> nat \<Rightarrow> bool" where
  "sha2_holds ctx iv r n \<longleftrightarrow> sha_pos ctx = length r \<and> length r < 64 \<and> length (sha_din (sha_data ctx)) = 64
     \<and> take (length r) (sha_din (sha_data ctx)) = r \<and> sha_iv (sha_data ctx) = iv
     \<and> unat (sha_Nl ctx) = 8 * n \<and> sha_Nh ctx = 0"

lemma sha2_absorb_holds:
  assumes h: "sha2_holds ctx iv r n" and p: "length r + length piece \<le> 64" and n: "8 * (n + length piece) < 2 ^ 64"
  shows "sha2_holds (sha2_absorb ctx piece) (fold sha_step (blocks64 (r @ piece)) iv) (rest64 (r @ piece)) (n + length piece)"
proof -
  define N where "N = sha_Nl ctx + of_nat (length piece) * 8"
  have uN: "unat N = 8 * (n + length piece)"
    using h n by (simp add: N_def sha2_holds_def unat_word_ariths unsigned_of_nat take_bit_eq_mod)
  then have nc: "\<not> N < sha_Nl ctx" using h by (simp add: word_less_nat_alt sha2_holds_def)
  define d where "d = blit (sha_din (sha_data ctx)) (length r) piece"
  have d: "length d = 64" "take (length r + length piece) d = r @ piece"
    using h p by (auto simp: d_def sha2_holds_def blit_def)
  show ?thesis
  proof (cases "length r + length piece = 64")
    case True
    then have "r @ piece = d" using d by simp
    then have "blocks64 (r @ piece) = [d]" "rest64 (r @ piece) = []"
      using blocks64_block [of d "[]"] d(1) by simp_all
    then show ?thesis using h True d uN nc
      by (simp add: sha2_holds_def sha2_absorb_def Let_def N_def [symmetric] d_def [symmetric] msel_do_sha_def sha_step_def)
  next
    case False
    then show ?thesis using h p d uN nc
      by (simp add: sha2_holds_def sha2_absorb_def Let_def N_def [symmetric] d_def [symmetric])
  qed
qed

lemma sha2_update_holds:
  assumes "sha2_holds ctx iv r n" "8 * (n + length buf) < 2 ^ 64"
  shows "\<exists>ctx'. sha2_update ctx buf = Some ctx'
    \<and> sha2_holds ctx' (fold sha_step (blocks64 (r @ buf)) iv) (rest64 (r @ buf)) (n + length buf)"
  using assms
proof (induction "length buf" arbitrary: ctx iv r n buf rule: less_induct)
  case less
  show ?case
  proof (cases "buf = []")
    case True
    then show ?thesis using less.prems by (subst sha2_update.simps) (simp add: sha2_holds_def)
  next
    case False
    have r: "sha_pos ctx = length r" "length r < 64" using less.prems(1) by (auto simp: sha2_holds_def)
    define k where "k = min (64 - length r) (length buf)"
    have k: "0 < k" "k \<le> length buf" using r(2) False by (auto simp: k_def)
    have "(2 ^ 32 + 64 - length r) mod 2 ^ 32 = 64 - length r" using r(2) by (simp add: mod_if)
    then have u: "sha2_update ctx buf = sha2_update (sha2_absorb ctx (take k buf)) (drop k buf)"
      using False r(1) by (subst sha2_update.simps) (auto simp: k_def Let_def min_def)
    define p where "p = take k buf"
    have p: "length p = k" "buf = p @ drop k buf" using k by (simp_all add: p_def)
    let ?r = "rest64 (r @ p)"
    have "sha2_holds (sha2_absorb ctx p) (fold sha_step (blocks64 (r @ p)) iv) ?r (n + k)"
      using sha2_absorb_holds [OF less.prems(1), of p] less.prems(2) p(1) k r(2) by (simp add: k_def)
    moreover have "length (drop k buf) < length buf" "8 * (n + k + length (drop k buf)) < 2 ^ 64" using k less.prems(2) by simp_all
    ultimately obtain ctx' where c: "sha2_update (sha2_absorb ctx p) (drop k buf) = Some ctx'"
      "sha2_holds ctx' (fold sha_step (blocks64 (?r @ drop k buf)) (fold sha_step (blocks64 (r @ p)) iv)) (rest64 (?r @ drop k buf))
         (n + k + length (drop k buf))"
      using less.hyps by blast
    have a: "r @ buf = (r @ p) @ drop k buf" using p(2) by simp
    have "fold sha_step (blocks64 (?r @ drop k buf)) (fold sha_step (blocks64 (r @ p)) iv) = fold sha_step (blocks64 (r @ buf)) iv"
      unfolding a using blocks64_append [of "r @ p" "drop k buf"] by simp
    moreover have "rest64 (?r @ drop k buf) = rest64 (r @ buf)" unfolding a using blocks64_append [of "r @ p" "drop k buf"] by simp
    ultimately show ?thesis using c u k by (simp add: p_def)
  qed
qed

section \<open>Padding\<close>

lemma byte_of_shift: "i < 8 \<Longrightarrow> (ucast (drop_bit 56 (push_bit (8 * i) (N :: u64))) :: u8) = be_bytes 8 N ! i"
  by (rule bit_word_eqI)
    (auto simp: be_bytes_def le_bytes_def rev_nth bit_ucast_iff bit_drop_bit_eq bit_push_bit_iff algebra_simps)

lemma sha2_store64_blit:
  assumes "off + 8 \<le> length din"
  shows "sha2_store64 off N din = blit din off (be_bytes 8 N)"
proof -
  have *: "k \<le> 8 \<Longrightarrow> fold (\<lambda>i (din, Ntmp). (din[off + i := ucast (drop_bit 56 Ntmp)], push_bit 8 Ntmp)) [0..<k] (din, N)
      = (blit din off (take k (be_bytes 8 N)), push_bit (8 * k) N)" for k
  proof (induction k)
    case (Suc k)
    have "(blit din off (take k (be_bytes 8 N)))[off + k := be_bytes 8 N ! k] = blit din off (take (Suc k) (be_bytes 8 N))"
      using Suc.prems assms by (intro nth_equalityI) (auto simp: nth_blit nth_list_update not_less)
    then show ?case using Suc by (simp add: byte_of_shift push_bit_push_bit add.commute)
  qed (simp add: blit_def)
  from * [of 8] show ?thesis by (simp add: sha2_store64_def)
qed

lemma be_bytes_0: "be_bytes n (0 :: 'a :: len word) = replicate n 0"
  by (rule nth_equalityI) (simp_all add: be_bytes_def le_bytes_def rev_nth)

text \<open>The blocks the code hashes at the end, for \<open>r\<close> the bytes left over and \<open>n\<close> the number of bytes
  hashed in all.\<close>

definition sha2_last :: "bytes \<Rightarrow> nat \<Rightarrow> bytes list" where
  "sha2_last r n =
     (let len = be_bytes 8 (of_nat (8 * n) :: u64)
      in if 56 \<le> length r then [r @ 0x80 # replicate (63 - length r) 0, replicate 56 0 @ len]
         else [take 49 (r @ 0x80 # replicate (63 - length r) 0) @ replicate 7 0 @ len])"

lemma c32to8_length [simp]: "length (c32to8 H) = 32"
  by (simp add: c32to8_def length_concat comp_def sum_list_triv)

lemma update_take: "p < length d \<Longrightarrow> take (p + 1) (d[p := x]) = take p d @ [x]"
  by (simp add: take_Suc_conv_app_nth)

lemma sha2_final_holds:
  assumes "sha2_holds ctx iv r n" "8 * n < 2 ^ 64"
  shows "sha2_final ctx = fold sha_step (sha2_last r n) iv"
proof -
  let ?p = "length r" and ?d = "sha_din (sha_data ctx)"
  have h: "sha_pos ctx = ?p" "?p < 64" "length ?d = 64" "take ?p ?d = r" "sha_iv (sha_data ctx) = iv" "sha_Nh ctx = 0"
    "unat (sha_Nl ctx) = 8 * n" using assms(1) by (simp_all add: sha2_holds_def)
  have N: "sha_Nl ctx = of_nat (8 * n)" using arg_cong [OF h(7), of "of_nat :: nat \<Rightarrow> u64"] by simp
  define d1 where "d1 = r @ 0x80 # replicate (63 - ?p) 0"
  have d1: "blit (?d[?p := 0x80]) (?p + 1) (replicate (64 - (?p + 1)) 0) = d1"
    using h(2,3,4) update_take [of ?p ?d "0x80"] by (simp add: blit_def d1_def)
  have len: "length d1 = 64" using h(2) by (simp add: d1_def)
  show ?thesis
  proof (cases "56 \<le> ?p")
    case True
    have "blit (blit (replicate 64 0) 49 (replicate 8 0)) 56 xs = replicate 56 0 @ xs" if "length xs = 8" for xs :: bytes
      using that by (simp add: blit_def replicate_add [symmetric])
    then show ?thesis using True h d1 len
      by (simp add: sha2_final_def Let_def sha2_last_def sha2_store64_blit N be_bytes_0 msel_do_sha_def sha_step_def d1_def [symmetric])
  next
    case False
    have "blit (blit d1 49 (replicate 8 0)) 56 xs = take 49 d1 @ replicate 7 0 @ xs" if "length xs = 8" for xs :: bytes
      using that len by (simp add: blit_def replicate_add [symmetric])
    then show ?thesis using False h d1 len
      by (simp add: sha2_final_def Let_def sha2_last_def sha2_store64_blit N be_bytes_0 msel_do_sha_def sha_step_def d1_def [symmetric])
  qed
qed

lemma sha256_hash_blocks:
  assumes "length m < 2 ^ 32"
  shows "sha256_hash m = Some (fold sha_step (blocks64 m @ sha2_last (rest64 m) (length m)) sha2_iv)"
proof -
  let ?c = "\<lparr>sha_pos = 0, sha_Nl = 0, sha_Nh = 0, sha_data = \<lparr>sha_iv = sha2_iv, sha_din = replicate 64 0\<rparr>\<rparr>"
  have "sha2_holds ?c sha2_iv [] 0" by (simp add: sha2_holds_def)
  from sha2_update_holds [OF this, of m] assms obtain ctx' where
    c: "sha2_update ?c m = Some ctx'" "sha2_holds ctx' (fold sha_step (blocks64 m) sha2_iv) (rest64 m) (length m)" by auto
  have "sha2_final ctx' = fold sha_step (sha2_last (rest64 m) (length m)) (fold sha_step (blocks64 m) sha2_iv)"
    using sha2_final_holds [OF c(2)] assms by simp
  then show ?thesis using c(1) by (simp add: sha256_hash_def)
qed

text \<open>The standard: padding, then the compression of every block.\<close>

definition sha_pad :: "bytes \<Rightarrow> bytes" where
  "sha_pad m = m @ 0x80 # replicate ((119 - length m mod 64) mod 64) 0 @ be_bytes 8 (of_nat (8 * length m) :: u64)"

definition fips_H0 :: "u32 list" where
  "fips_H0 = [0x6a09e667, 0xbb67ae85, 0x3c6ef372, 0xa54ff53a, 0x510e527f, 0x9b05688c, 0x1f83d9ab, 0x5be0cd19]"

definition sha256_fips :: "bytes \<Rightarrow> bytes" where
  "sha256_fips m = c32to8 (fold (\<lambda>b H. fips_compress H (sha256_load b)) (blocks64 (sha_pad m)) fips_H0)"

lemma word_of_bytes:
  "push_bit 24 (ucast (ucast (drop_bit 24 w) :: u8)) OR push_bit 16 (ucast (ucast (drop_bit 16 w) :: u8))
     OR push_bit 8 (ucast (ucast (drop_bit 8 w) :: u8)) OR ucast (ucast w :: u8) = (w :: u32)"
proof (rule bit_word_eqI)
  fix n assume "n < LENGTH(32)"
  consider "n < 8" | "8 \<le> n" "n < 16" | "16 \<le> n" "n < 24" | "24 \<le> n" by linarith
  then show "bit ((push_bit 24 (ucast (ucast (drop_bit 24 w) :: u8)) :: u32) OR push_bit 16 (ucast (ucast (drop_bit 16 w) :: u8))
     OR push_bit 8 (ucast (ucast (drop_bit 8 w) :: u8)) OR ucast (ucast w :: u8)) n = bit w n"
    unfolding bit_or_iff bit_push_bit_iff bit_ucast_iff bit_drop_bit_eq comp_def
    by cases (use \<open>n < LENGTH(32)\<close> in \<open>simp_all add: not_less less_diff_conv2\<close>)
qed

lemma upt_8: "[0..<8] = [0, 1, 2, 3, 4, 5, 6, 7::nat]"
  by (simp add: upt_rec)

lemma c8to32_c32to8: "length H = 8 \<Longrightarrow> c8to32 (c32to8 H) = H"
proof -
  assume "length H = 8"
  then obtain a b c d e f g h where "H = [a, b, c, d, e, f, g, h]" by (auto simp: length_Suc_conv eval_nat_numeral)
  then show ?thesis by (simp add: c8to32_def c32to8_def upt_8 word_of_bytes [simplified])
qed

lemma fips_compress_length [simp]: "length H = 8 \<Longrightarrow> length (fips_compress H M) = 8"
  by (simp add: fips_compress_def split: prod.split)

lemma sha_steps_words:
  "length H = 8 \<Longrightarrow> fold sha_step bs (c32to8 H) = c32to8 (fold (\<lambda>b H. fips_compress H (sha256_load b)) bs H)"
  by (induction bs arbitrary: H) (simp_all add: sha_step_def c8to32_c32to8 sha256_transform_compress)

lemma sha2_iv_words: "sha2_iv = c32to8 fips_H0"
  by (simp add: sha2_iv_def fips_H0_def c32to8_def upt_8 drop_bit_eq_div)

lemma blocks64_two: "length a = 64 \<Longrightarrow> length b = 64 \<Longrightarrow> blocks64 (a @ b) = [a, b]" "length a = 64 \<Longrightarrow> blocks64 a = [a]"
  using blocks64_block [of a b] blocks64_block [of b "[]"] blocks64_block [of a "[]"] by simp_all

lemma sha_pad_blocks:
  assumes "length m mod 64 < 49 \<or> 55 < length m mod 64"
  shows "blocks64 (sha_pad m) = blocks64 m @ sha2_last (rest64 m) (length m)"
proof -
  let ?len = "be_bytes 8 (of_nat (8 * length m) :: u64)" and ?p = "length m mod 64"
  have r: "length (rest64 m) = ?p" "?p < 64" by (simp_all add: rest64_length)
  have "blocks64 (sha_pad m) = blocks64 m @ blocks64 (rest64 m @ 0x80 # replicate ((119 - ?p) mod 64) 0 @ ?len)"
    unfolding sha_pad_def by (rule blocks64_append [THEN conjunct1])
  moreover have "blocks64 (rest64 m @ 0x80 # replicate ((119 - ?p) mod 64) 0 @ ?len) = sha2_last (rest64 m) (length m)"
  proof (cases "56 \<le> ?p")
    case True
    have "119 - ?p = (63 - ?p) + 56" using r(2) by simp
    then have z: "replicate ((119 - ?p) mod 64) (0 :: u8) = replicate (63 - ?p) 0 @ replicate 56 0"
      using True by (simp add: replicate_add [symmetric])
    have e: "rest64 m @ 0x80 # replicate ((119 - ?p) mod 64) 0 @ ?len
      = (rest64 m @ 0x80 # replicate (63 - ?p) 0) @ (replicate 56 0 @ ?len)" unfolding z by simp
    show ?thesis unfolding e using True r by (subst blocks64_two) (simp_all add: sha2_last_def)
  next
    case False
    then have p: "?p < 49" using assms by simp
    have "(119 - ?p) mod 64 = 55 - ?p" using p by (simp add: mod_if)
    moreover have "replicate (55 - ?p) (0 :: u8) = replicate (48 - ?p) 0 @ replicate 7 0"
      using p by (simp add: replicate_add [symmetric])
    ultimately have e: "rest64 m @ 0x80 # replicate ((119 - ?p) mod 64) 0 @ ?len
      = (take 49 (rest64 m @ 0x80 # replicate (63 - ?p) 0) @ replicate 7 0 @ ?len)" using p r(1) by (simp add: take_Cons' diff_le_mono min_absorb1)
    show ?thesis unfolding e using False p r by (subst blocks64_two) (simp_all add: sha2_last_def)
  qed
  ultimately show ?thesis by simp
qed

lemma blocks64_prefix: "blocks64 xs = blocks64 (take (64 * (length xs div 64)) xs)"
proof -
  let ?t = "take (64 * (length xs div 64)) xs"
  have "length ?t = 64 * (length xs div 64)" by (simp add: min_absorb2)
  then have "length (rest64 ?t) = 0" unfolding rest64_length by simp
  moreover have "xs = ?t @ rest64 xs" by (simp add: rest64_def)
  ultimately show ?thesis using blocks64_append [of ?t "rest64 xs"] rest64_length [of xs] by simp
qed

lemma sha256_returns: "length m < 2 ^ 32 \<Longrightarrow> \<exists>h. sha256_hash m = Some h \<and> length h = 32"
proof -
  have "length (fold sha_step (bs @ [b]) iv) = 32" for bs b iv by (simp add: sha_step_def)
  moreover have "\<exists>bs b. sha2_last r n = bs @ [b]" for r n
    by (cases "56 \<le> length r") (auto simp: sha2_last_def Let_def intro: exI [of _ "[_]"])
  ultimately show "length m < 2 ^ 32 \<Longrightarrow> ?thesis" unfolding sha256_hash_blocks by (metis append.assoc)
qed

section \<open>Key derivation returns\<close>

lemma kdf_table_returns:
  "length x = 32 \<Longrightarrow> \<exists>rows. kdf_table n x = Some rows \<and> length rows = n \<and> (\<forall>y \<in> set rows. length y = 32)"
proof (induction n arbitrary: x)
  case (Suc n)
  obtain y where y: "sha256_hash x = Some y" "length y = 32" using sha256_returns [of x] Suc.prems by auto
  then show ?case using Suc.IH [OF y(2)] by auto
qed simp

lemma kdf_mix_returns:
  assumes "length table = 16" "\<forall>y \<in> set table. length y = 32"
  shows "length c = 32 \<Longrightarrow> \<exists>key. kdf_mix n table c = Some key \<and> length key = 32"
proof (induction n arbitrary: c)
  case (Suc n)
  obtain y where y: "sha256_hash c = Some y" "length y = 32" using sha256_returns [of c] Suc.prems by auto
  define i where "i = unat ((y ! 1 OR y ! 0) AND of_nat (16 - 1))"
  have "i \<le> unat (15 :: u8)" unfolding i_def word_le_nat_alt [symmetric] by (simp add: word_and_le1)
  then have "length (table ! i) = 32" using assms by simp
  then have "length (xor_bytes y (table ! i)) = 32" using y(2) by simp
  from Suc.IH [OF this] show ?case using y(1) by (simp add: i_def Let_def)
qed simp

section \<open>Properties\<close>

text \<open>
  The transform of the driver, which computes the message schedule inside the round loop and
  uses shifts for rotations, is the compression function of FIPS 180-4.
\<close>

theorem sha256_transform_fips:
  assumes "length iv = 8"
  shows "sha256_transform iv bptr = fips_compress iv (sha256_load bptr)"
  using assms by (rule sha256_transform_compress)

theorem sha256_transform_fips_witness:
  "sha256_transform fips_H0 (replicate 64 0) = fips_compress fips_H0 (sha256_load (replicate 64 0))"
  using sha256_transform_fips [of fips_H0] by (simp add: fips_H0_def)

text \<open>\<open>k\<close> is the first 32 bits after the point of the cube root (the square root) of \<open>p\<close>, whose
  integer part is computed from the cubes (squares) below 343 (25).\<close>

definition cbrt_digits :: "nat \<Rightarrow> nat \<Rightarrow> bool" where
  "cbrt_digits p k \<longleftrightarrow>
     (let c = (if p < 8 then 1 else if p < 27 then 2 else if p < 64 then 3 else if p < 125 then 4 else if p < 216 then 5 else 6)
      in k < 2 ^ 32 \<and> (c * 2 ^ 32 + k) ^ 3 \<le> p * 2 ^ 96 \<and> p * 2 ^ 96 < (c * 2 ^ 32 + k + 1) ^ 3)"

definition sqrt_digits :: "nat \<Rightarrow> nat \<Rightarrow> bool" where
  "sqrt_digits p k \<longleftrightarrow>
     (let c = (if p < 4 then 1 else if p < 9 then 2 else if p < 16 then 3 else 4)
      in k < 2 ^ 32 \<and> (c * 2 ^ 32 + k) ^ 2 \<le> p * 2 ^ 64 \<and> p * 2 ^ 64 < (c * 2 ^ 32 + k + 1) ^ 2)"

text \<open>
  The round constants are the first 32 bits of the fractional parts of the cube roots of the
  first sixty-four primes, and the initial value those of the square roots of the first eight.
\<close>

theorem sha256_constants:
  "list_all2 cbrt_digits
     [2, 3, 5, 7, 11, 13, 17, 19, 23, 29, 31, 37, 41, 43, 47, 53, 59, 61, 67, 71, 73, 79, 83, 89, 97,
      101, 103, 107, 109, 113, 127, 131, 137, 139, 149, 151, 157, 163, 167, 173, 179, 181, 191, 193, 197, 199,
      211, 223, 227, 229, 233, 239, 241, 251, 257, 263, 269, 271, 277, 281, 283, 293, 307, 311]
     (map unat sha256_K)
   \<and> list_all2 sqrt_digits
     [2, 3, 5, 7, 11, 13, 17, 19] (map unat (c8to32 sha2_iv))"
proof (rule conjI)
  have "c8to32 sha2_iv = fips_H0" by (simp add: sha2_iv_words c8to32_c32to8 fips_H0_def)
  then show "list_all2 sqrt_digits
     [2, 3, 5, 7, 11, 13, 17, 19] (map unat (c8to32 sha2_iv))"
    by (simp add: fips_H0_def sqrt_digits_def)
qed (simp add: sha256_K_def cbrt_digits_def)

text \<open>
  C11. \<^verbatim>\<open>sha256_hash\<close> returns the SHA-256 hash of FIPS 180-4 for every message whose length modulo
  64 is not between 49 and 55.
\<close>

theorem sha256_hash_correct:
  assumes "length m < 2 ^ 32" "length m mod 64 < 49 \<or> 55 < length m mod 64"
  shows "sha256_hash m = Some (sha256_fips m)"
proof -
  have "length fips_H0 = 8" by (simp add: fips_H0_def)
  then show ?thesis
    unfolding sha256_hash_blocks [OF assms(1)] sha256_fips_def sha_pad_blocks [OF assms(2)] sha2_iv_words by (simp only: sha_steps_words)
qed

theorem sha256_hash_correct_witness: "sha256_hash [0x61, 0x62, 0x63] = Some (sha256_fips [0x61, 0x62, 0x63])"
  using sha256_hash_correct [of "[0x61, 0x62, 0x63]"] by simp

text \<open>
  C26. For the other lengths the hash loses input: two messages of one length, 49 to 55 modulo 64,
  that agree up to byte 49 of the last block have the same hash whatever their other bytes.
\<close>

theorem sha256_hash_collides:
  assumes "length a = length b" "length a < 2 ^ 32" "49 \<le> length a mod 64" "length a mod 64 \<le> 55"
    and pre: "take (64 * (length a div 64) + 49) a = take (64 * (length a div 64) + 49) b"
  shows "sha256_hash a = sha256_hash b"
proof -
  let ?n = "64 * (length a div 64)"
  have "take ?n a = take ?n b" using arg_cong [OF pre, of "take ?n"] by simp
  then have "blocks64 a = blocks64 b" using blocks64_prefix [of a] blocks64_prefix [of b] assms(1) by simp
  moreover have "take 49 (rest64 a) = take 49 (rest64 b)"
    using arg_cong [OF pre, of "drop ?n"] assms(1) by (simp add: rest64_def drop_take)
  moreover have "length (rest64 a) = length a mod 64" "length (rest64 b) = length a mod 64"
    using assms(1) by (simp_all add: rest64_length)
  ultimately show ?thesis using assms by (simp add: sha256_hash_blocks sha2_last_def)
qed

theorem sha256_hash_collides_witness: "sha256_hash (replicate 49 0 @ [1]) = sha256_hash (replicate 49 0 @ [2])"
  using sha256_hash_collides [of "replicate 49 0 @ [1]" "replicate 49 0 @ [2]"] by simp

text \<open>
  The key derivation always returns a key of 32 bytes, and it does not tell the master key from
  the protocol key: exchanging the two gives the same key.
\<close>

theorem kdf_total_symmetric:
  assumes "length master < 2 ^ 32" "length protocol < 2 ^ 32"
  shows "(\<exists>key. kdf_getkey master protocol nonce = Some key \<and> length key = 32)
    \<and> kdf_getkey protocol master nonce = kdf_getkey master protocol nonce"
proof -
  have "length (take 32 nonce) < 2 ^ 32" by simp
  then obtain r0 r1 r2 where r: "sha256_hash master = Some r0" "length r0 = 32" "sha256_hash protocol = Some r1" "length r1 = 32"
    "sha256_hash (take 32 nonce) = Some r2" "length r2 = 32"
    using sha256_returns [OF assms(1)] sha256_returns [OF assms(2)] sha256_returns [of "take 32 nonce"] by blast
  define x where "x = xor_bytes r0 (xor_bytes r1 r2)"
  have x: "length x = 32" using r by (simp add: x_def)
  have sym: "xor_bytes r1 (xor_bytes r0 r2) = x"
    using r by (intro nth_equalityI) (simp_all add: x_def xor.left_commute)
  obtain rows where rows: "kdf_table 15 x = Some rows" "length rows = 15" "\<forall>y \<in> set rows. length y = 32"
    using kdf_table_returns [OF x, of 15] by auto
  have tab: "length (x # rows) = 16" "\<forall>y \<in> set (x # rows). length y = 32" using rows x by simp_all
  have "length ((x # rows) ! 15) = 32" using tab nth_mem [of 15 "x # rows"] by simp
  then obtain key where "kdf_mix 16 (x # rows) ((x # rows) ! 15) = Some key" "length key = 32"
    using kdf_mix_returns [OF tab] by blast
  then show ?thesis using r rows by (simp add: kdf_getkey_def Let_def x_def [symmetric] sym)
qed

theorem kdf_total_symmetric_witness: "kdf_getkey [1] [2] (replicate 32 0) = kdf_getkey [2] [1] (replicate 32 0)"
  using kdf_total_symmetric [of "[2]" "[1]"] by simp

end
