(* ===== verification/Kernel.thy ===== *)
theory Kernel
  imports Uart Pol Mmu Ffs_Session Mtc Ed521_Curve Aes_Modes Sha
begin

unbundle bit_operations_syntax

text \<open>
  The kernel as a whole: the dispatch and restart of system calls of \<^verbatim>\<open>os/syscall.c\<close>, the exception
  handlers of \<^verbatim>\<open>arch/openrisc/isr.c\<close>, the main task and the start of the system of \<^verbatim>\<open>os/system.c\<close>, the random
  number driver and the mutexes of \<^verbatim>\<open>os/mutex.c\<close>. The state puts the components together. The board is a
  parameter: the devices, the linked image, the task registry, and what the breakpoint instruction
  does in the kernel. \<open>None\<close> is a panic or a call that never returns.
\<close>

section \<open>State\<close>

record 'u soc_hw = "'u uart_hw" +
  pic_read :: "'u \<Rightarrow> u32 \<times> 'u"
  pic_write :: "u32 \<Rightarrow> 'u \<Rightarrow> 'u"
  trng_byte :: "'u \<Rightarrow> u8 \<times> 'u"

record ('h, 'u) board =
  bd_image :: image
  bd_main :: addr
  bd_get_task :: get_task
  bd_flash :: "'h flash_hw"
  bd_stk :: bytes
  bd_soc :: "'u soc_hw"
  bd_trap :: "os \<Rightarrow> os option"

record ('h, 'u) kernel =
  k_os :: os
  k_ffs :: ffs
  k_flash :: "'h flash"
  k_uart :: "'u uart"
  k_pol :: pol
  k_mmu :: mmu

text \<open>A system call with the contents of its argument; the argument of a restart is a task number
  and a call. Any other number is \<open>MSEL_SVC_OTHER\<close>.\<close>

datatype svc =
    MSEL_SVC_RESET | MSEL_SVC_HALT | MSEL_SVC_RESTART nat svc | MSEL_SVC_WORKER
  | MSEL_SVC_YIELD | MSEL_SVC_EXIT | MSEL_SVC_DEBUG
  | MSEL_SVC_TRNG addr | MSEL_SVC_AES aes_driver_ctx | MSEL_SVC_SHA sha_data | MSEL_SVC_ECC ecc_ctx
  | MSEL_SVC_FFS_SESSION_RECV ffs_packet | MSEL_SVC_FFS_SESSION_SEND ffs_packet
  | MSEL_SVC_UART_WRITE addr nat | MSEL_SVC_MTC_READ_INC "u64 option" | MSEL_SVC_PROVISION provision_args
  | MSEL_SVC_POL addr | MSEL_SVC_OTHER nat

definition is_restart :: "svc \<Rightarrow> bool" where
  "is_restart s \<longleftrightarrow> (case s of MSEL_SVC_RESTART t c \<Rightarrow> True | _ \<Rightarrow> False)"

section \<open>System calls\<close>

definition arch_trng_read :: "('u, 'z) soc_hw_scheme \<Rightarrow> addr \<Rightarrow> os \<Rightarrow> 'u uart \<Rightarrow> msel_status \<times> os \<times> 'u uart" where
  "arch_trng_read c out st u =
     (let (b, d) = trng_byte c (u_dev u) in (MSEL_OK, st\<lparr>os_mem := (os_mem st)(out := b)\<rparr>, u\<lparr>u_dev := d\<rparr>))"

definition msel_trng_read :: "('u, 'z) soc_hw_scheme \<Rightarrow> addr \<Rightarrow> os \<Rightarrow> 'u uart \<Rightarrow> msel_status \<times> os \<times> 'u uart" where
  "msel_trng_read c out st u = arch_trng_read c out st u"

definition msel_svc_worker :: "os \<Rightarrow> msel_status" where
  "msel_svc_worker st = (if msel_active_task_num st \<noteq> 0 then MSEL_EPERM else MSEL_OK)"

text \<open>The answer is the status, the argument after the call, and the state.\<close>

function (sequential) msel_svc_handler :: "('h, 'u) board \<Rightarrow> svc \<Rightarrow> ('h, 'u) kernel \<Rightarrow> (msel_status \<times> svc \<times> ('h, 'u) kernel) option"
  and msel_svc_restart :: "('h, 'u) board \<Rightarrow> nat \<Rightarrow> svc \<Rightarrow> ('h, 'u) kernel \<Rightarrow> (msel_status \<times> svc \<times> ('h, 'u) kernel) option" where
  "msel_svc_handler bd MSEL_SVC_DEBUG k = do {
     st \<leftarrow> bd_trap bd (k_os k);
     Some (MSEL_OK, MSEL_SVC_DEBUG, k\<lparr>k_os := st\<rparr>) }"
| "msel_svc_handler bd MSEL_SVC_RESET k = Some (MSEL_ENOTIMPL, MSEL_SVC_RESET, k)"
| "msel_svc_handler bd MSEL_SVC_HALT k = Some (MSEL_ENOTIMPL, MSEL_SVC_HALT, k)"
| "msel_svc_handler bd MSEL_SVC_WORKER k = Some (msel_svc_worker (k_os k), MSEL_SVC_WORKER, k)"
| "msel_svc_handler bd MSEL_SVC_YIELD k = do {
     (r, st) \<leftarrow> msel_task_schedule (k_os k);
     Some (r, MSEL_SVC_YIELD, k\<lparr>k_os := st\<rparr>) }"
| "msel_svc_handler bd (MSEL_SVC_RESTART t s) k = do {
     (r, s, k) \<leftarrow> msel_svc_restart bd t s k;
     Some (r, MSEL_SVC_RESTART t s, k) }"
| "msel_svc_handler bd MSEL_SVC_EXIT k =
     (if msel_active_task_num (k_os k) = 0 then None
      else do {
        st \<leftarrow> msel_task_force_kill (msel_active_task_num (k_os k)) ''exited'' (k_os k);
        Some (MSEL_OK, MSEL_SVC_EXIT, k\<lparr>k_os := st\<rparr>) })"
| "msel_svc_handler bd (MSEL_SVC_TRNG out) k =
     (let (r, st, u) = msel_trng_read (bd_soc bd) out (k_os k) (k_uart k) in Some (r, MSEL_SVC_TRNG out, k\<lparr>k_os := st, k_uart := u\<rparr>))"
| "msel_svc_handler bd (MSEL_SVC_AES ctx) k =
     (let (r, dout) = msel_do_aes ctx in Some (r, MSEL_SVC_AES (ctx\<lparr>drv_dout := dout\<rparr>), k))"
| "msel_svc_handler bd (MSEL_SVC_SHA data) k = Some (MSEL_OK, MSEL_SVC_SHA (msel_do_sha data), k)"
| "msel_svc_handler bd (MSEL_SVC_ECC ctx) k = Some (MSEL_OK, MSEL_SVC_ECC (msel_ecc_mul ctx), k)"
| "msel_svc_handler bd (MSEL_SVC_FFS_SESSION_SEND p) k =
     (let (r, p, f) = msel_ffs_session_send (k_os k) p (k_ffs k) in Some (r, MSEL_SVC_FFS_SESSION_SEND p, k\<lparr>k_ffs := f\<rparr>))"
| "msel_svc_handler bd (MSEL_SVC_FFS_SESSION_RECV p) k =
     (let (r, p, f) = msel_ffs_session_recv (k_os k) p (k_ffs k) in Some (r, MSEL_SVC_FFS_SESSION_RECV p, k\<lparr>k_ffs := f\<rparr>))"
| "msel_svc_handler bd (MSEL_SVC_UART_WRITE buf len) k = do {
     (r, st, u) \<leftarrow> msel_uart_write (bd_soc bd) buf len (k_os k) (k_uart k);
     Some (r, MSEL_SVC_UART_WRITE buf len, k\<lparr>k_os := st, k_uart := u\<rparr>) }"
| "msel_svc_handler bd (MSEL_SVC_MTC_READ_INC v) k = do {
     (r, v, f) \<leftarrow> msel_mtc_read_increment (bd_flash bd) (bd_stk bd) v (k_flash k);
     Some (r, MSEL_SVC_MTC_READ_INC v, k\<lparr>k_flash := f\<rparr>) }"
| "msel_svc_handler bd (MSEL_SVC_PROVISION a) k = do {
     (r, f) \<leftarrow> msel_provision (bd_flash bd) (bd_stk bd) a (k_flash k);
     Some (r, MSEL_SVC_PROVISION a, k\<lparr>k_flash := f\<rparr>) }"
| "msel_svc_handler bd (MSEL_SVC_POL ret) k = do {
     (r, st, ps) \<leftarrow> msel_proof_of_life ret (k_os k) (k_pol k);
     Some (r, MSEL_SVC_POL ret, k\<lparr>k_os := st, k_pol := ps\<rparr>) }"
| "msel_svc_handler bd (MSEL_SVC_OTHER n) k = Some (MSEL_EINVSVC, MSEL_SVC_OTHER n, k)"
| "msel_svc_restart bd t s k =
     (if msel_active_task_num (k_os k) \<noteq> 0 then Some (MSEL_EPERM, s, k)
      else if is_restart s then Some (MSEL_EINVAL, s, k)
      else if t \<ge> length (msel_task_list (k_os k)) then None
      else msel_svc_handler bd s (k\<lparr>k_os := upd_task t msel_task_resume ((k_os k)\<lparr>msel_active_task_num := t\<rparr>)\<rparr>))"
  by pat_completeness auto

termination
  by (relation "measure (\<lambda>x. case x of Inl (bd, s, k) \<Rightarrow> 2 * size s | Inr (bd, t, s, k) \<Rightarrow> 2 * size s + 1)") auto

section \<open>Exceptions\<close>

text \<open>The status goes to the saved registers of the task that called, at the address its entry of the
  task list then has.\<close>

definition SystemCallHandler :: "('h, 'u) board \<Rightarrow> svc \<Rightarrow> ('h, 'u) kernel \<Rightarrow> (svc \<times> ('h, 'u) kernel) option" where
  "SystemCallHandler bd s k = do {
     let task = msel_active_task_num (k_os k);
     (retval, s, k) \<leftarrow> msel_svc_handler bd s k;
     let a = tcb_stack (msel_task_list (k_os k) ! task);
     Some (s, k\<lparr>k_os := (k_os k)\<lparr>os_regs := (os_regs (k_os k))(a := (os_regs (k_os k) a)\<lparr>reg_r11 := retval\<rparr>)\<rparr>\<rparr>) }"

definition TickTimerHandler :: "('h, 'u) kernel \<Rightarrow> ('h, 'u) kernel option" where
  "TickTimerHandler k = do {
     let mm = (k_mmu k)\<lparr>spr := arch_systick_handler (spr (k_mmu k))\<rparr>;
     st \<leftarrow> msel_systick_handler (k_os k);
     Some (k\<lparr>k_os := st, k_mmu := mm\<rparr>) }"

text \<open>The loop that clears bit \<open>b\<close> of the pending interrupts, at most 1024 times.\<close>

function pic_clear :: "('u, 'z) soc_hw_scheme \<Rightarrow> nat \<Rightarrow> nat \<Rightarrow> u32 \<Rightarrow> 'u \<Rightarrow> u32 \<times> 'u" where
  "pic_clear c b i picsr d =
     (let picsr = picsr AND NOT (push_bit b 1);
          d = pic_write c picsr d;
          (picsr, d) = pic_read c d;
          i = i + 1
      in if i < 1024 \<and> picsr AND push_bit b 1 \<noteq> 0 then pic_clear c b i picsr d else (picsr, d))"
  by pat_completeness auto

termination
  by (relation "measure (\<lambda>(c, b, i, p, d). 1024 - i)") auto

declare pic_clear.simps [simp del]

definition ExternalInterrupt :: "('h, 'u) board \<Rightarrow> ('h, 'u) kernel \<Rightarrow> ('h, 'u) kernel option" where
  "ExternalInterrupt bd k = do {
     let (picsr, d) = pic_read (bd_soc bd) (u_dev (k_uart k));
     (st, f, picsr, d) \<leftarrow>
       (if picsr AND push_bit 16 1 \<noteq> 0 then do {
          (st, f) \<leftarrow> FauxFileSystemWrite (img_layout (bd_image bd)) (bd_get_task bd) (k_os k) (k_ffs k);
          let (picsr, d) = pic_clear (bd_soc bd) 16 0 picsr d;
          Some (st, f, picsr, d) }
        else Some (k_os k, k_ffs k, picsr, d));
     let (f, d) =
       (if picsr AND push_bit 17 1 \<noteq> 0 then
          let f = FauxFileSystemReadAck f; (picsr, d) = pic_clear (bd_soc bd) 17 0 picsr d in (f, d)
        else (f, d));
     Some (k\<lparr>k_os := st, k_ffs := f, k_uart := (k_uart k)\<lparr>u_dev := d\<rparr>\<rparr>) }"

section \<open>The main task\<close>

text \<open>The place in the loop of \<^verbatim>\<open>msel_main\<close>: about to look at a task, to call the worker, to yield. Each
  step is what the task does between two points where another task may run.\<close>

datatype main_pc = Main_Task nat | Main_Worker | Main_Yield

definition msel_main :: "('h, 'u) board \<Rightarrow> main_pc \<Rightarrow> ('h, 'u) kernel \<Rightarrow> (main_pc \<times> ('h, 'u) kernel) option" where
  "msel_main bd pc k =
     (case pc of
        Main_Task task_idx \<Rightarrow>
          if task_idx < msel_num_tasks (k_os k) then
            if task_idx \<ge> length (msel_task_list (k_os k)) then None
            else
              let task = msel_task_list (k_os k) ! task_idx;
                  nxt = Main_Task (task_idx + 1)
              in if msel_task_is_waiting task then
                   (case tcb_wait_op task of
                      MSEL_TASK_WAIT_POL \<Rightarrow> do {
                        (s, k) \<leftarrow> SystemCallHandler bd (MSEL_SVC_RESTART task_idx (MSEL_SVC_POL (tcb_pol_retptr task))) k;
                        Some (nxt, k) }
                    | MSEL_TASK_WAIT_TIME \<Rightarrow> Some (nxt, k\<lparr>k_os := upd_task task_idx msel_task_resume (k_os k)\<rparr>)
                    | _ \<Rightarrow> Some (nxt, k))
                 else Some (nxt, k)
          else Some (Main_Worker, k)
      | Main_Worker \<Rightarrow> do { (s, k) \<leftarrow> SystemCallHandler bd MSEL_SVC_WORKER k; Some (Main_Yield, k) }
      | Main_Yield \<Rightarrow> do { (s, k) \<leftarrow> SystemCallHandler bd MSEL_SVC_YIELD k; Some (Main_Task 1, k) })"

section \<open>Start of the system\<close>

definition arch_platform_init :: "('h, 'u) kernel \<Rightarrow> ('h, 'u) kernel" where
  "arch_platform_init k = k"

definition msel_init_led :: "gpio \<Rightarrow> gpio" where
  "msel_init_led g = arch_init_led g"

definition msel_init :: "('h, 'u) board \<Rightarrow> ('h, 'u) kernel \<Rightarrow> ('h, 'u) kernel option" where
  "msel_init bd k = do {
     let k = k\<lparr>k_mmu := (k_mmu k)\<lparr>spr := SPR_SR_IEE_SET 0 (spr (k_mmu k))\<rparr>\<rparr>;
     let k = k\<lparr>k_os := (k_os k)\<lparr>msel_systicks := 0\<rparr>\<rparr>;
     let k = arch_platform_init k;
     let k = k\<lparr>k_uart := msel_init_uart (bd_soc bd) (k_uart k)\<rparr>;
     s \<leftarrow> arch_init_isr (spr (k_mmu k));
     let k = k\<lparr>k_mmu := (k_mmu k)\<lparr>spr := s\<rparr>\<rparr>;
     let k = k\<lparr>k_ffs := msel_init_ffs_queues (k_ffs k)\<rparr>;
     let k = k\<lparr>k_os := (k_os k)\<lparr>os_gpio := msel_init_led (os_gpio (k_os k))\<rparr>\<rparr>;
     let k = k\<lparr>k_os := msel_init_taskmem (img_layout (bd_image bd)) (k_os k)\<rparr>;
     st \<leftarrow> msel_init_task (img_layout (bd_image bd)) (bd_main bd) (k_os k);
     let k = k\<lparr>k_os := msel_init_pol st\<rparr>;
     Some (k\<lparr>k_mmu := (k_mmu k)\<lparr>spr := SPR_SR_IEE_SET 1 (spr (k_mmu k))\<rparr>\<rparr>) }"

definition msel_start :: "('h, 'u) kernel \<Rightarrow> ('h, 'u) kernel" where
  "msel_start k = k\<lparr>k_os := msel_task_launch_main (k_os k)\<rparr>"

section \<open>Mutexes\<close>

text \<open>A mutex is the address of the entry of the task that holds it, or 0. A null argument is \<open>None\<close>.\<close>

type_synonym msel_mutex = u32

definition msel_mutex_initialize :: "msel_mutex \<Rightarrow> msel_mutex" where
  "msel_mutex_initialize mut = 0"

definition arch_mutex_lock :: "msel_mutex option \<Rightarrow> u32 \<Rightarrow> msel_status \<times> msel_mutex option" where
  "arch_mutex_lock mut who = (MSEL_ENOTIMPL, mut)"

definition msel_mutex_lock :: "msel_mutex option \<Rightarrow> u32 \<Rightarrow> msel_status \<times> msel_mutex option" where
  "msel_mutex_lock mut who = arch_mutex_lock mut who"

definition msel_mutex_is_owned :: "msel_mutex option \<Rightarrow> u32 \<Rightarrow> bool" where
  "msel_mutex_is_owned mut who \<longleftrightarrow> (case mut of None \<Rightarrow> False | Some m \<Rightarrow> m = who)"

definition msel_mutex_unlock :: "msel_mutex option \<Rightarrow> u32 \<Rightarrow> msel_status \<times> msel_mutex option" where
  "msel_mutex_unlock mut who =
     (if mut = None \<or> who = 0 then (MSEL_EINVAL, mut)
      else if \<not> msel_mutex_is_owned mut who then (MSEL_EBADF, mut)
      else (MSEL_OK, Some 0))"

end
