(* ===== verification/Kernel_Run.thy ===== *)
theory Kernel_Run
  imports Kernel
begin

unbundle bit_operations_syntax

text \<open>
  Runs of the whole kernel. \<open>kernel_step\<close> is one entry to the kernel or one change made by a task or
  the outside; \<open>os_move\<close> lists what any of them can do to the task list. The properties of the theory
  hold along every run.
\<close>

section \<open>Moves of the task state\<close>

inductive os_move :: "os \<Rightarrow> os \<Rightarrow> bool" where
  frame: "msel_task_list st' = msel_task_list st \<Longrightarrow> msel_num_tasks st' = msel_num_tasks st \<Longrightarrow>
    msel_active_task_num st' = msel_active_task_num st \<Longrightarrow> os_move st st'"
| save: "(\<And>x. tcb_valid (f x) = tcb_valid x \<and> tcb_killed (f x) = tcb_killed x \<and> tcb_wait_op (f x) = tcb_wait_op x) \<Longrightarrow>
    os_move st (upd_task (msel_active_task_num st) f st)"
| kill: "k \<noteq> 0 \<Longrightarrow> msel_task_force_kill k reason st = Some st' \<Longrightarrow> os_move st st'"
| yield: "msel_task_schedule st = Some (r, st') \<Longrightarrow> os_move st st'"
| wait: "msel_active_task_num st \<noteq> 0 \<Longrightarrow> (\<And>x. tcb_valid (f x) = tcb_valid x \<and> tcb_killed (f x) = tcb_killed x) \<Longrightarrow>
    msel_task_schedule (upd_task (msel_active_task_num st) f st) = Some (r, st') \<Longrightarrow> os_move st st'"
| wake: "tcb_wait_op (msel_task_list st ! k) = MSEL_TASK_WAIT_TIME \<Longrightarrow> os_move st (upd_task k msel_task_resume st)"
| restart: "k < length (msel_task_list st) \<Longrightarrow> msel_task_is_waiting (msel_task_list st ! k) \<Longrightarrow>
    tcb_wait_op (msel_task_list st ! k) = MSEL_TASK_WAIT_POL \<Longrightarrow>
    os_move st (upd_task k msel_task_resume (st\<lparr>msel_active_task_num := k\<rparr>))"

definition os_create :: "os \<Rightarrow> os \<Rightarrow> bool" where
  "os_create st st' \<longleftrightarrow> (\<exists>lay entry arg n r tid. msel_task_create lay entry arg n st = Some (r, tid, st'))"

text \<open>The main task is alive and the processor is with a task that can run.\<close>

definition os_runs :: "os \<Rightarrow> bool" where
  "os_runs st \<longleftrightarrow> os_ok st \<and> msel_active_task_num st < 5 \<and> msel_task_is_valid (msel_active_task st)"

definition uart_sleeper :: "nat \<Rightarrow> os \<Rightarrow> bool" where
  "uart_sleeper t st \<longleftrightarrow> t < 5 \<and> tcb_valid (msel_task_list st ! t) \<and> tcb_wait_op (msel_task_list st ! t) = MSEL_TASK_WAIT_UART"

lemma next_task_Some: "next_task tasks n cur = Some c \<Longrightarrow> c < length tasks \<and> msel_task_is_valid (tasks ! c)"
proof (rule next_task.raw_induct [of "\<lambda>tasks n cur c. c < length tasks \<and> msel_task_is_valid (tasks ! c)"])
  show "c < length tasks \<and> msel_task_is_valid (tasks ! c)"
    if "\<And>tasks n cur c. f tasks n cur = Some c \<Longrightarrow> c < length tasks \<and> msel_task_is_valid (tasks ! c)"
      "(let cur = (cur + 1) mod n in if cur \<ge> length tasks then None
        else if msel_task_is_valid (tasks ! cur) then Some cur else f tasks n cur) = Some c" for f tasks n cur c
    using that by (auto simp: Let_def not_le split: if_splits)
qed

lemma schedule_cases:
  assumes "msel_task_schedule st = Some (r, st')" "0 < msel_num_tasks st"
  shows "msel_num_tasks st \<le> length (msel_task_list st)" "msel_task_list st' = reaped (msel_num_tasks st) (msel_task_list st)"
    "msel_num_tasks st' = msel_num_tasks st" "msel_active_task_num st' < length (msel_task_list st')" "msel_task_is_valid (msel_active_task st')"
proof -
  show n: "msel_num_tasks st \<le> length (msel_task_list st)"
    using assms by (auto simp: msel_task_schedule_def reap_tasks_def split: bind_splits if_splits)
  obtain c where c: "reap_tasks st = Some (st\<lparr>msel_task_list := reaped (msel_num_tasks st) (msel_task_list st), os_console := c\<rparr>)"
    using reap_tasks_fold [OF n] n by (auto simp: reap_tasks_def)
  from assms c show "msel_task_list st' = reaped (msel_num_tasks st) (msel_task_list st)" "msel_num_tasks st' = msel_num_tasks st"
    "msel_active_task_num st' < length (msel_task_list st')" "msel_task_is_valid (msel_active_task st')"
    by (auto simp: msel_task_schedule_def msel_set_status_leds_def msel_task_setup_mm_def arch_task_setup_mm_def Let_def msel_active_task_def
        simp del: reaped_simps(2) split: bind_splits if_splits dest!: next_task_Some)
qed

lemma schedule_runs:
  assumes "os_ok st" "msel_task_schedule st = Some (r, st')"
  shows "os_runs st'"
  using schedule_ok [OF assms] schedule_cases [OF assms(2)] assms(1) by (simp add: os_runs_def os_ok_def)

lemma schedule_sleeper:
  assumes "os_ok st" "msel_task_schedule st = Some (r, st')" "uart_sleeper t st" "tcb_valid (msel_task_list st' ! t)"
  shows "uart_sleeper t st'"
  using schedule_cases(2) [OF assms(2)] assms(1,3,4)
  by (auto simp: os_ok_def uart_sleeper_def zero_tcb_def split: if_splits)

lemma os_move_runs:
  assumes "os_move st st'" "os_runs st"
  shows "os_runs st'"
  using assms
proof (induction rule: os_move.induct)
  case (kill k reason st st')
  then obtain r where "msel_task_schedule (upd_task k (\<lambda>t. t\<lparr>tcb_killed := True, tcb_reason := reason\<rparr>) st) = Some (r, st')"
    by (auto simp: msel_task_force_kill_def split: if_splits bind_splits)
  then show ?case using kill by (intro schedule_runs [OF upd_ok]) (auto simp: os_runs_def)
next
  case (wait st f r st')
  then show ?case by (intro schedule_runs [OF upd_ok, of st "msel_active_task_num st" f r]) (auto simp: os_runs_def)
next
  case (save f st)
  then show ?case
    by (cases "msel_active_task_num st = 0")
      (auto simp: os_runs_def os_ok_def msel_active_task_def msel_task_is_valid_def msel_task_is_killed_def msel_task_is_waiting_def)
next
  case (wake st k)
  then show ?case using os_step_ok [OF os_step.resume [of st k]]
    by (cases "k = msel_active_task_num st")
      (auto simp: os_runs_def msel_active_task_def msel_task_is_valid_def msel_task_is_killed_def msel_task_is_waiting_def msel_task_resume_def os_ok_def)
next
  case (restart k st)
  then show ?case using os_step_ok [OF os_step.resume [of st k]]
    by (auto simp: os_runs_def os_ok_def msel_active_task_def msel_task_is_valid_def msel_task_is_killed_def msel_task_is_waiting_def msel_task_resume_def)
next
  case (yield st r st')
  then show ?case by (intro schedule_runs) (auto simp: os_runs_def)
qed (auto simp: os_runs_def os_ok_def msel_active_task_def)

lemma os_move_sleeper:
  assumes "os_move st st'" "os_runs st" "uart_sleeper t st" "tcb_valid (msel_task_list st' ! t)"
  shows "uart_sleeper t st'"
  using assms
proof (induction rule: os_move.induct)
  case (kill k reason st st')
  let ?st = "upd_task k (\<lambda>t. t\<lparr>tcb_killed := True, tcb_reason := reason\<rparr>) st"
  obtain r where "msel_task_schedule ?st = Some (r, st')"
    using kill by (auto simp: msel_task_force_kill_def split: if_splits bind_splits)
  moreover have "os_ok ?st" "uart_sleeper t ?st" using kill by (cases "k = t"; auto simp: os_runs_def uart_sleeper_def os_ok_def)+
  ultimately show ?case using schedule_sleeper kill.prems(3) by blast
next
  case (wait st f r st')
  have "msel_active_task_num st \<noteq> t"
    using wait.prems by (auto simp: os_runs_def uart_sleeper_def msel_active_task_def msel_task_is_valid_def msel_task_is_waiting_def)
  then have "os_ok (upd_task (msel_active_task_num st) f st)" "uart_sleeper t (upd_task (msel_active_task_num st) f st)"
    using wait by (auto simp: os_runs_def uart_sleeper_def upd_ok)
  then show ?case using schedule_sleeper wait.hyps(3) wait.prems(3) by blast
next
  case (yield st r st')
  then show ?case using schedule_sleeper by (auto simp: os_runs_def)
next
  case (wake st k)
  then show ?case by (cases "k = t") (auto simp: uart_sleeper_def)
next
  case (restart k st)
  then show ?case by (cases "k = t") (auto simp: uart_sleeper_def)
qed (auto simp: uart_sleeper_def os_runs_def os_ok_def nth_list_update)

lemma os_move_gone:
  assumes "os_move st st'" "os_runs st" "t < 5" "\<not> tcb_valid (msel_task_list st ! t)"
  shows "\<not> tcb_valid (msel_task_list st' ! t)"
proof -
  have ok: "os_ok st" "length (msel_task_list st) = 5" using assms(2) by (simp_all add: os_runs_def os_ok_def)
  have sched: "\<not> tcb_valid (msel_task_list st2 ! t)"
    if "os_ok st1" "msel_task_schedule st1 = Some (r, st2)" "\<not> tcb_valid (msel_task_list st1 ! t)" for st1 r st2
    using schedule_cases(2) [OF that(2)] that(1,3) assms(3) by (auto simp: os_ok_def zero_tcb_def)
  have upd: "\<not> tcb_valid (msel_task_list (upd_task k f st1) ! t)"
    if "\<not> tcb_valid (msel_task_list st1 ! t)" "\<And>x. tcb_valid (f x) = tcb_valid x" "length (msel_task_list st1) = 5" for k f st1
    using that assms(3) by (cases "k = t") simp_all
  from assms(1) show ?thesis
  proof (cases rule: os_move.cases)
    case (kill k reason)
    let ?st = "upd_task k (\<lambda>t. t\<lparr>tcb_killed := True, tcb_reason := reason\<rparr>) st"
    obtain r where r: "msel_task_schedule ?st = Some (r, st')"
      using kill by (auto simp: msel_task_force_kill_def split: if_splits bind_splits)
    show ?thesis by (rule sched [OF upd_ok [OF ok(1) kill(1)] r upd]) (simp_all add: assms(4) ok(2))
  next
    case (wait f r)
    show ?thesis by (rule sched [OF upd_ok [OF ok(1) wait(1)] wait(3) upd]) (simp_all add: assms(4) ok(2) wait(2))
  next
    case (yield r)
    then show ?thesis using sched [OF ok(1)] assms(4) by blast
  next
    case (save f)
    show ?thesis unfolding save(1) by (rule upd) (simp_all add: assms(4) ok(2) save(2))
  next
    case (wake k)
    show ?thesis unfolding wake(1) by (rule upd) (simp_all add: assms(4) ok(2) msel_task_resume_def)
  next
    case (restart k)
    show ?thesis unfolding restart(1) by (rule upd) (simp_all add: assms(4) ok(2) msel_task_resume_def)
  qed (use assms(4) in simp)
qed

lemma create_runs:
  assumes "os_create st st'" "os_runs st"
  shows "os_runs st'"
proof -
  obtain lay entry arg n r tid where c: "msel_task_create lay entry arg n st = Some (r, tid, st')" using assms(1) by (auto simp: os_create_def)
  have "free_slot (msel_task_list st) \<noteq> msel_active_task_num st"
    using assms(2) free_slot(3) [of "msel_task_list st"] by (auto simp: os_runs_def os_ok_def msel_active_task_def msel_task_is_valid_def)
  then show ?thesis using create_frame [OF c] assms(2) os_step_ok [OF os_step.create [OF c]]
    by (auto simp: os_runs_def msel_active_task_def)
qed

lemma create_sleeper:
  assumes "os_create st st'" "os_ok st" "uart_sleeper t st"
  shows "uart_sleeper t st'"
proof -
  obtain lay entry arg n r tid where c: "msel_task_create lay entry arg n st = Some (r, tid, st')" using assms(1) by (auto simp: os_create_def)
  have "free_slot (msel_task_list st) \<noteq> t" using assms(2,3) free_slot(3) [of "msel_task_list st"] by (auto simp: os_ok_def uart_sleeper_def)
  then show ?thesis using create_frame [OF c] assms(3) by (auto simp: uart_sleeper_def)
qed

section \<open>What a system call does to the task state\<close>

text \<open>The breakpoint instruction is ignored or raises the trap exception.\<close>

definition trap_ok :: "('h, 'u) board \<Rightarrow> bool" where
  "trap_ok bd \<longleftrightarrow> (\<forall>st st'. bd_trap bd st = Some st' \<longrightarrow> st' = st \<or> TrapException st = Some st')"

lemma fault_moves: "fault_handler what st = Some st' \<Longrightarrow> os_move st st'"
  by (auto simp: fault_handler_def split: if_splits intro: os_move.kill)

lemma uart_retry_sleeps: "uart_retry c m t u = Some (fin, u') \<Longrightarrow> fin \<or> t \<noteq> 0"
proof -
  assume "uart_retry c m t u = Some (fin, u')"
  moreover have "uart_retry c m t u = Some y \<Longrightarrow> fst y \<or> t \<noteq> 0" for y
  proof (rule uart_retry.raw_induct [of "\<lambda>c m t u y. fst y \<or> t \<noteq> 0"])
    show "fst y \<or> t \<noteq> 0" if "\<And>c m t u y. f c m t u = Some y \<Longrightarrow> fst y \<or> t \<noteq> 0"
      "(let u = uart_flush_queue c m u
        in if uq_offset (uart_queue u t) < uq_len (uart_queue u t) then if t = MSEL_TASK_MAIN then f c m t u else Some (False, u)
           else Some (True, u)) = Some y"
      for f and c :: "('u, 'z) uart_hw_scheme" and m t and u :: "'u uart" and y
      using that(1) [of c m t "uart_flush_queue c m u" y] that(2) by (auto simp: Let_def split: if_splits)
  qed
  ultimately show ?thesis by fastforce
qed

lemma uart_write_moves:
  assumes "msel_uart_write c buf len st u = Some (r, st', u')"
  shows "os_move\<^sup>*\<^sup>* st st'"
proof (cases "buf = 0 \<or> len = 0")
  case False
  let ?t = "msel_active_task_num st" and ?f = "\<lambda>task. task\<lparr>tcb_wait_op := MSEL_TASK_WAIT_UART\<rparr>"
  obtain u0 fin u1 where r: "uart_retry c (os_mem st) ?t u0 = Some (fin, u1)"
    "if fin then st' = st else \<exists>r. msel_task_schedule (upd_task ?t ?f st) = Some (r, st')"
    using assms False by (auto simp: msel_uart_write_def Let_def split: bind_splits if_splits)
  show ?thesis
  proof (cases fin)
    case False
    then show ?thesis using r uart_retry_sleeps [OF r(1)] by (auto intro!: os_move.wait [of st ?f])
  qed (use r in simp)
qed (use assms in \<open>auto simp: msel_uart_write_def\<close>)

lemma pol_moves:
  assumes "msel_proof_of_life ret st ps = Some (r, st', ps')"
  shows "os_move\<^sup>*\<^sup>* st st'"
proof -
  let ?f = "\<lambda>t. t\<lparr>tcb_wait_op := MSEL_TASK_WAIT_POL, tcb_pol_retptr := ret\<rparr>"
  have "os_move st st' \<or> (msel_active_task_num st \<noteq> 0
      \<and> (\<exists>g r. msel_task_schedule (upd_task (msel_active_task_num st) ?f (st\<lparr>os_gpio := g\<rparr>)) = Some (r, st')))"
    using assms unfolding msel_proof_of_life_def Let_def
    by (auto simp del: upt_rec_numeral split: if_splits bind_splits intro!: os_move.frame)
  moreover have "os_move st (st\<lparr>os_gpio := g\<rparr>)" for g by (rule os_move.frame) simp_all
  moreover have "os_move (st\<lparr>os_gpio := g\<rparr>) st'"
    if "msel_active_task_num st \<noteq> 0" "msel_task_schedule (upd_task (msel_active_task_num st) ?f (st\<lparr>os_gpio := g\<rparr>)) = Some (r, st')" for g r
    using that os_move.wait [of "st\<lparr>os_gpio := g\<rparr>" ?f] by simp
  ultimately show ?thesis by (meson rtranclp.rtrancl_into_rtrancl r_into_rtranclp)
qed

lemma svc_moves:
  assumes "trap_ok bd" "msel_svc_handler bd s k = Some (r, s', k')" "\<not> is_restart s \<or> msel_active_task_num (k_os k) \<noteq> 0"
  shows "os_move\<^sup>*\<^sup>* (k_os k) (k_os k')"
proof (cases s)
  case MSEL_SVC_DEBUG
  then show ?thesis using assms fault_moves by (fastforce simp: trap_ok_def TrapException_def split: bind_splits)
next
  case (MSEL_SVC_UART_WRITE a n)
  then show ?thesis using assms(2) by (auto split: bind_splits dest: uart_write_moves)
next
  case (MSEL_SVC_POL a)
  then show ?thesis using assms(2) by (auto split: bind_splits dest: pol_moves)
next
  case (MSEL_SVC_RESTART t c)
  then show ?thesis using assms(2,3) by (auto simp: is_restart_def split: bind_splits)
qed (use assms(2) in \<open>auto simp: msel_trng_read_def arch_trng_read_def Let_def split: bind_splits if_splits prod.splits
      intro!: r_into_rtranclp intro: os_move.intros\<close>)

section \<open>Runs\<close>

text \<open>The struct a task passes to send holds a packet of the size of the source.\<close>

definition svc_ok :: "svc \<Rightarrow> bool" where
  "svc_ok s \<longleftrightarrow> (case s of MSEL_SVC_FFS_SESSION_SEND p \<Rightarrow> packet_ok p | _ \<Rightarrow> True)"

text \<open>In \<open>world\<close> the tasks change memory, the hardware its registers and pins, and the host the memory of
  the channel.\<close>

inductive kernel_step :: "('h, 'u) board \<Rightarrow> main_pc \<times> ('h, 'u) kernel \<Rightarrow> main_pc \<times> ('h, 'u) kernel \<Rightarrow> bool" for bd where
  main: "msel_active_task_num (k_os k) = 0 \<Longrightarrow> msel_main bd pc k = Some (pc', k') \<Longrightarrow> kernel_step bd (pc, k) (pc', k')"
| svc: "msel_active_task_num (k_os k) \<noteq> 0 \<Longrightarrow> svc_ok s \<Longrightarrow> SystemCallHandler bd s k = Some (s', k') \<Longrightarrow> kernel_step bd (pc, k) (pc, k')"
| tick: "TickTimerHandler k = Some k' \<Longrightarrow> kernel_step bd (pc, k) (pc, k')"
| external: "length (ffs_recv_data (k_ffs k)) = FFS_HDR_SIZE + FFS_DATA_SIZE \<Longrightarrow> ExternalInterrupt bd k = Some k' \<Longrightarrow> kernel_step bd (pc, k) (pc, k')"
| dtlb: "DTLBMiss (bd_image bd) (k_os k) (k_mmu k) = Some mm \<Longrightarrow> kernel_step bd (pc, k) (pc, k\<lparr>k_mmu := mm\<rparr>)"
| itlb: "ITLBMiss (k_os k) (k_mmu k) = Some mm \<Longrightarrow> kernel_step bd (pc, k) (pc, k\<lparr>k_mmu := mm\<rparr>)"
| fault: "fault_handler what (k_os k) = Some st \<Longrightarrow> kernel_step bd (pc, k) (pc, k\<lparr>k_os := st\<rparr>)"
| enter: "or1k_save_context (img_layout (bd_image bd)) sp regs (k_os k) = Some (go, st) \<Longrightarrow> kernel_step bd (pc, k) (pc, k\<lparr>k_os := st\<rparr>)"
| leave: "kernel_step bd (pc, k) (pc, k\<lparr>k_os := msel_task_update_ctrs_resume (k_os k)\<rparr>)"
| world: "kernel_step bd (pc, k) (pc, k\<lparr>k_os := (k_os k)\<lparr>os_mem := m, os_gpio := g\<rparr>,
    k_mmu := (k_mmu k)\<lparr>spr := s\<rparr>, k_uart := (k_uart k)\<lparr>u_dev := d\<rparr>, k_ffs := (k_ffs k)\<lparr>ffs_recv_data := raw, ffs_send_ack := a\<rparr>\<rparr>)"

lemma tasks_cong: "wq f' = wq f \<Longrightarrow> ffs_tasks f' = ffs_tasks f"
  by (simp add: ffs_tasks_def wq_1_def)

lemma tasks_host: "ffs_tasks (host_state raw f) = ffs_tasks f"
  by (rule tasks_cong) (simp add: host_state_def)

lemma dispatch_moves:
  assumes "ffs_tasks f" "dispatch_packet lay get_task st f = Some (status, st', f')"
  shows "os_move\<^sup>*\<^sup>* st st' \<or> os_create st st'"
proof -
  have "os_move\<^sup>*\<^sup>* st st' \<or> os_create st st'" if "start_session lay get_task st f = Some (status, st', f')"
    using that by (auto simp: start_session_def os_create_def Let_def split: if_splits prod.splits bind_splits)
  moreover have "os_move\<^sup>*\<^sup>* st st'" if "kill_session st f = Some (status, st', f')"
  proof (cases "kill_sid (s0 f) > 0 \<and> kill_sid (s0 f) \<le> 5 \<and> q_active (wq_1 f (kill_sid (s0 f)))")
    case True
    then have "q_task_id (wq_1 f (kill_sid (s0 f))) \<noteq> 0" using assms(1) by (auto simp: ffs_tasks_def sid_ok_def)
    moreover have "msel_task_force_kill (q_task_id (wq_1 f (kill_sid (s0 f)))) ''Force quit by Android'' st = Some st'"
      using that True by (auto simp: kill_session_def end_session_def Let_def split: bind_splits)
    ultimately show ?thesis by (intro r_into_rtranclp os_move.kill)
  qed (use that in \<open>auto simp: kill_session_def Let_def\<close>)
  ultimately show ?thesis using assms(2) by (auto simp: dispatch_packet_def Let_def split: if_splits prod.splits)
qed

lemma external_moves:
  assumes "ffs_tasks (k_ffs k)" "ExternalInterrupt bd k = Some k'"
  shows "os_move\<^sup>*\<^sup>* (k_os k) (k_os k') \<or> os_create (k_os k) (k_os k')"
proof -
  define M where "M st \<longleftrightarrow> os_move\<^sup>*\<^sup>* (k_os k) st \<or> os_create (k_os k) st" for st
  have "M st" if "FauxFileSystemWrite lay get_task (k_os k) (k_ffs k) = Some (st, f)" for lay get_task st f
    using that host_write_eq [of lay get_task "k_os k" "ffs_recv_data (k_ffs k)" "k_ffs k"] assms(1) dispatch_moves tasks_host
    unfolding M_def by (fastforce simp: Let_def split: bind_splits)
  moreover have "M (k_os k)" by (simp add: M_def)
  ultimately show ?thesis using assms(2) unfolding M_def [symmetric] by (auto simp: ExternalInterrupt_def Let_def split: bind_splits if_splits prod.splits)
qed

lemma syscall_moves:
  assumes "trap_ok bd" "SystemCallHandler bd s k = Some (s', k')" "\<not> is_restart s \<or> msel_active_task_num (k_os k) \<noteq> 0"
  shows "os_move\<^sup>*\<^sup>* (k_os k) (k_os k')"
proof -
  obtain r k1 where k1: "msel_svc_handler bd s k = Some (r, s', k1)" "\<exists>x. k' = k1\<lparr>k_os := (k_os k1)\<lparr>os_regs := x\<rparr>\<rparr>"
    using assms(2) by (auto simp: SystemCallHandler_def Let_def split: bind_splits)
  then have "os_move (k_os k1) (k_os k')" by (auto intro: os_move.frame)
  then show ?thesis using svc_moves [OF assms(1) k1(1) assms(3)] by (rule rtranclp.rtrancl_into_rtrancl [rotated])
qed

section \<open>Invariant of the kernel\<close>

definition kernel_ok :: "('h, 'u) kernel \<Rightarrow> bool" where
  "kernel_ok k \<longleftrightarrow> os_runs (k_os k) \<and> ffs_ok (k_ffs k) \<and> ffs_tasks (k_ffs k)"

lemma moves_run: "os_move\<^sup>*\<^sup>* st st' \<Longrightarrow> os_runs st \<Longrightarrow> os_runs st'"
  by (induction rule: rtranclp_induct) (auto intro: os_move_runs)

lemma dispatch_tasks:
  assumes "ffs_ok f" "ffs_tasks f" "os_ok st" "dispatch_packet lay get_task st f = Some (status, st', f')"
  shows "ffs_tasks f'"
proof -
  have "ffs_tasks f'" if "kill_session st f = Some (status, st', f')"
  proof (cases "kill_sid (s0 f) > 0 \<and> kill_sid (s0 f) \<le> 5 \<and> q_active (wq_1 f (kill_sid (s0 f)))")
    case True
    then have e: "sid_ok (kill_sid (s0 f))" "end_session (kill_sid (s0 f)) st f = Some (st', f')"
      using that by (auto simp: sid_ok_def kill_session_def Let_def split: bind_splits)
    show ?thesis using end_session_wq [OF assms(1) e] assms(2) by (auto simp: ffs_tasks_def zero_queue_def)
  qed (use that assms(2) in \<open>auto simp: kill_session_def Let_def\<close>)
  then show ?thesis using assms start_tasks [OF assms(1-3)] route_tasks [OF assms(1,2)]
    by (auto simp: dispatch_packet_def Let_def split: if_splits prod.splits)
qed

lemma ffs_write_ok:
  assumes "ffs_ok f" "ffs_tasks f" "os_ok st" "length (ffs_recv_data f) = FFS_HDR_SIZE + FFS_DATA_SIZE"
    "FauxFileSystemWrite lay get_task st f = Some (st', f')"
  shows "ffs_ok f'" "ffs_tasks f'"
proof -
  let ?raw = "ffs_recv_data f"
  obtain ob where s: "ffs_step lay get_task (Host_Write ?raw) (st, f) = Some (ob, st', f')" using assms(5) by (simp add: Let_def)
  show "ffs_ok f'" using step_effect [OF assms(1) _ s] assms(4) by (simp add: effect_def)
  obtain status h where h: "dispatch_packet lay get_task st (host_state ?raw f) = Some (status, st', h)" "wq f' = wq h"
    using assms(5) host_write_eq [of lay get_task st ?raw f] by (auto simp: Let_def split: bind_splits)
  show "ffs_tasks f'" using dispatch_tasks [OF host_state(1) [OF assms(1)] _ assms(3) h(1)] assms(2) tasks_cong [OF h(2)]
    by (simp add: tasks_host)
qed

lemma ffs_ack_ok:
  assumes "ffs_ok f" "ffs_tasks f"
  shows "ffs_ok (FauxFileSystemReadAck f)" "ffs_tasks (FauxFileSystemReadAck f)"
proof -
  have s: "ffs_step or1k_layout undefined (Host_Ack (ffs_send_ack f)) (st, f)
      = Some (no_obs\<lparr>obs_shown := shown f (FauxFileSystemReadAck f)\<rparr>, st, FauxFileSystemReadAck f)" for st
    by (simp add: Let_def)
  show "ffs_ok (FauxFileSystemReadAck f)" using step_effect [OF assms(1) _ s] by (simp add: effect_def)
  have "wq (FauxFileSystemReadAck f) = wq f" by (simp add: FauxFileSystemReadAck_def Let_def)
  then show "ffs_tasks (FauxFileSystemReadAck f)" using assms(2) by (simp add: ffs_tasks_def wq_1_def)
qed

lemma restart_moves:
  assumes "trap_ok bd" "SystemCallHandler bd (MSEL_SVC_RESTART t (MSEL_SVC_POL a)) k = Some (s', k')" "msel_active_task_num (k_os k) = 0"
    "msel_task_is_waiting (msel_task_list (k_os k) ! t)" "tcb_wait_op (msel_task_list (k_os k) ! t) = MSEL_TASK_WAIT_POL"
  shows "os_move\<^sup>*\<^sup>* (k_os k) (k_os k')"
proof -
  let ?st = "upd_task t msel_task_resume ((k_os k)\<lparr>msel_active_task_num := t\<rparr>)"
  obtain r s k1 where t: "t < length (msel_task_list (k_os k))" and k1: "msel_svc_handler bd (MSEL_SVC_POL a) (k\<lparr>k_os := ?st\<rparr>) = Some (r, s, k1)"
    and k': "\<exists>x. k' = k1\<lparr>k_os := (k_os k1)\<lparr>os_regs := x\<rparr>\<rparr>"
    using assms(2,3) by (auto simp: SystemCallHandler_def Let_def is_restart_def split: bind_splits if_splits)
  have "os_move (k_os k) ?st" by (rule os_move.restart [OF t assms(4,5)])
  moreover have "os_move\<^sup>*\<^sup>* ?st (k_os k1)" using svc_moves [OF assms(1) k1] by (simp add: is_restart_def)
  moreover have "os_move (k_os k1) (k_os k')" using k' by (auto intro: os_move.frame)
  ultimately show ?thesis by (meson converse_rtranclp_into_rtranclp rtranclp.rtrancl_into_rtrancl)
qed

lemma main_moves:
  assumes "trap_ok bd" "msel_active_task_num (k_os k) = 0" "msel_main bd pc k = Some (pc', k')"
  shows "os_move\<^sup>*\<^sup>* (k_os k) (k_os k')"
proof (cases pc)
  case (Main_Task t)
  let ?task = "msel_task_list (k_os k) ! t"
  have "os_move\<^sup>*\<^sup>* (k_os k) (k_os k')" if "SystemCallHandler bd (MSEL_SVC_RESTART t (MSEL_SVC_POL (tcb_pol_retptr ?task))) k = Some (s', k')"
    "msel_task_is_waiting ?task" "tcb_wait_op ?task = MSEL_TASK_WAIT_POL" for s'
    using restart_moves [OF assms(1) that(1) assms(2) that(2,3)] .
  then show ?thesis using assms(3) Main_Task
    by (auto simp: msel_main_def Let_def split: if_splits bind_splits msel_task_wait_op.splits intro: r_into_rtranclp [where r = os_move, OF os_move.wake])
next
  case Main_Worker
  then show ?thesis using assms syscall_moves [OF assms(1), of MSEL_SVC_WORKER k]
    by (auto simp: msel_main_def is_restart_def split: bind_splits)
next
  case Main_Yield
  then show ?thesis using assms syscall_moves [OF assms(1), of MSEL_SVC_YIELD k]
    by (auto simp: msel_main_def is_restart_def split: bind_splits)
qed

lemma tick_moves: "TickTimerHandler k = Some k' \<Longrightarrow> os_move\<^sup>*\<^sup>* (k_os k) (k_os k')"
proof -
  assume "TickTimerHandler k = Some k'"
  then obtain g r where "msel_task_schedule ((k_os k)\<lparr>msel_systicks := msel_systicks (k_os k) + 1, os_gpio := g\<rparr>) = Some (r, k_os k')"
    by (auto simp: TickTimerHandler_def msel_systick_handler_def msel_set_status_leds_def Let_def split: bind_splits if_splits)
  then have "os_move ((k_os k)\<lparr>msel_systicks := msel_systicks (k_os k) + 1, os_gpio := g\<rparr>) (k_os k')" by (rule os_move.yield)
  moreover have "os_move (k_os k) ((k_os k)\<lparr>msel_systicks := msel_systicks (k_os k) + 1, os_gpio := g\<rparr>)" by (rule os_move.frame) simp_all
  ultimately show ?thesis by (meson converse_rtranclp_into_rtranclp r_into_rtranclp)
qed

lemma enter_moves:
  assumes "or1k_save_context lay sp regs st = Some (go, st')"
  shows "os_move\<^sup>*\<^sup>* st st'"
proof -
  let ?f = "\<lambda>t. t\<lparr>tcb_stack := sp - 0x108\<rparr>"
  have "os_move st st' \<or> (\<exists>x. st' = (upd_task (msel_active_task_num st) ?f st)\<lparr>os_regs := x\<rparr>)"
    using assms by (auto simp: or1k_save_context_def Let_def split: if_splits bind_splits intro: os_move.kill)
  moreover have "os_move st (upd_task (msel_active_task_num st) ?f st)" by (rule os_move.save) simp
  moreover have "os_move (upd_task (msel_active_task_num st) ?f st) ((upd_task (msel_active_task_num st) ?f st)\<lparr>os_regs := x\<rparr>)" for x
    by (rule os_move.frame) simp_all
  ultimately show ?thesis by (meson converse_rtranclp_into_rtranclp r_into_rtranclp)
qed

lemma kernel_step_moves:
  assumes "kernel_step bd (pc, k) (pc', k')" "trap_ok bd" "ffs_tasks (k_ffs k)"
  shows "os_move\<^sup>*\<^sup>* (k_os k) (k_os k') \<or> os_create (k_os k) (k_os k')"
  using assms(1)
proof (cases rule: kernel_step.cases)
  case leave
  have "os_move (k_os k) (upd_task (msel_active_task_num (k_os k)) (\<lambda>t. t\<lparr>tcb_runs := tcb_runs t + 1\<rparr>) (k_os k))"
    by (rule os_move.save) simp
  then show ?thesis using leave by (auto simp: msel_task_update_ctrs_resume_def)
next
  case (world m g s d raw a)
  then show ?thesis by (auto intro!: r_into_rtranclp os_move.frame)
qed (use assms(2,3) in \<open>auto dest: main_moves syscall_moves tick_moves external_moves fault_moves enter_moves\<close>)

lemma send_recv_ok:
  assumes "ffs_ok f" "ffs_tasks f"
  shows "packet_ok p \<Longrightarrow> msel_ffs_session_send st p f = (r, p', f') \<Longrightarrow> ffs_ok f' \<and> ffs_tasks f'"
    "msel_ffs_session_recv st p f = (r, p', f') \<Longrightarrow> ffs_ok f' \<and> ffs_tasks f'"
proof -
  assume p: "packet_ok p" and s: "msel_ffs_session_send st p f = (r, p', f')"
  obtain ob where ob: "ffs_step or1k_layout undefined (Task_Send p) (st, f) = Some (ob, st, f')" "wq f' = wq f"
    using s task_step_returns(1) [of or1k_layout undefined p st f] by (auto simp: Let_def)
  show "ffs_ok f' \<and> ffs_tasks f'" using step_effect [OF assms(1) _ ob(1)] p tasks_cong [OF ob(2)] assms(2) by (simp add: effect_def)
next
  assume s: "msel_ffs_session_recv st p f = (r, p', f')"
  obtain ob where ob: "ffs_step or1k_layout undefined (Task_Recv p) (st, f) = Some (ob, st, f')"
    "\<forall>s. sid_ok s \<longrightarrow> q_active (wq_1 f' s) = q_active (wq_1 f s) \<and> q_task_id (wq_1 f' s) = q_task_id (wq_1 f s)"
    using s task_step_returns(2) [OF assms(1), of or1k_layout undefined p st] by (auto simp: Let_def)
  show "ffs_ok f' \<and> ffs_tasks f'" using step_effect [OF assms(1) _ ob(1)] ob(2) assms(2) by (auto simp: effect_def ffs_tasks_def)
qed

lemma svc_ffs:
  assumes "msel_svc_handler bd s k = Some (r, s', k')" "svc_ok s" "kernel_ok k" "\<not> is_restart s \<or> msel_active_task_num (k_os k) \<noteq> 0"
  shows "ffs_ok (k_ffs k') \<and> ffs_tasks (k_ffs k')"
proof (cases s)
  case (MSEL_SVC_FFS_SESSION_SEND p)
  then show ?thesis using assms send_recv_ok(1) [of "k_ffs k" p "k_os k"] by (auto simp: kernel_ok_def svc_ok_def split: prod.splits)
next
  case (MSEL_SVC_FFS_SESSION_RECV p)
  then show ?thesis using assms send_recv_ok(2) [of "k_ffs k" "k_os k" p] by (auto simp: kernel_ok_def split: prod.splits)
qed (use assms in \<open>auto simp: kernel_ok_def is_restart_def split: bind_splits if_splits prod.splits\<close>)

lemma main_ffs:
  assumes "msel_main bd pc k = Some (pc', k')" "msel_active_task_num (k_os k) = 0"
  shows "k_ffs k' = k_ffs k"
  using assms by (auto simp: msel_main_def SystemCallHandler_def Let_def is_restart_def
      split: main_pc.splits if_splits bind_splits msel_task_wait_op.splits)

lemma external_ffs:
  assumes "ExternalInterrupt bd k = Some k'" "kernel_ok k" "length (ffs_recv_data (k_ffs k)) = FFS_HDR_SIZE + FFS_DATA_SIZE"
  shows "ffs_ok (k_ffs k') \<and> ffs_tasks (k_ffs k')"
proof -
  obtain p d where pd: "pic_read (bd_soc bd) (u_dev (k_uart k)) = (p, d)" by fastforce
  have ok: "ffs_ok (k_ffs k)" "ffs_tasks (k_ffs k)" "os_ok (k_os k)" using assms(2) by (simp_all add: kernel_ok_def os_runs_def)
  show ?thesis
  proof (cases "p AND push_bit 16 1 \<noteq> 0")
    case True
    then obtain st f where w: "FauxFileSystemWrite (img_layout (bd_image bd)) (bd_get_task bd) (k_os k) (k_ffs k) = Some (st, f)"
      using assms(1) pd by (auto simp: ExternalInterrupt_def split: bind_splits)
    then have "k_ffs k' = f \<or> k_ffs k' = FauxFileSystemReadAck f"
      using assms(1) pd True by (auto simp: ExternalInterrupt_def Let_def split: if_splits prod.splits)
    then show ?thesis using ffs_write_ok [OF ok assms(3) w] ffs_ack_ok by auto
  next
    case False
    then have "k_ffs k' = k_ffs k \<or> k_ffs k' = FauxFileSystemReadAck (k_ffs k)"
      using assms(1) pd by (auto simp: ExternalInterrupt_def Let_def split: if_splits prod.splits)
    then show ?thesis using ok ffs_ack_ok by auto
  qed
qed

lemma kernel_step_ffs:
  assumes "kernel_step bd (pc, k) (pc', k')" "kernel_ok k"
  shows "ffs_ok (k_ffs k') \<and> ffs_tasks (k_ffs k')"
  using assms(1)
proof (cases rule: kernel_step.cases)
  case main
  then show ?thesis using assms(2) main_ffs [of bd pc k pc' k'] by (simp add: kernel_ok_def)
next
  case (svc s s')
  then show ?thesis using svc_ffs [OF _ _ assms(2)] by (fastforce simp: SystemCallHandler_def Let_def split: bind_splits)
next
  case external
  then show ?thesis using external_ffs assms(2) by blast
next
  case (world m g s d raw a)
  then show ?thesis using ok_cong [of "k_ffs k" "k_ffs k'"] tasks_cong [of "k_ffs k'" "k_ffs k"] assms(2) by (simp add: kernel_ok_def)
qed (use assms(2) in \<open>auto simp: kernel_ok_def TickTimerHandler_def Let_def split: bind_splits\<close>)

lemma kernel_step_ok:
  assumes "kernel_step bd (pc, k) (pc', k')" "trap_ok bd" "kernel_ok k"
  shows "kernel_ok k'"
  using moves_run [of "k_os k" "k_os k'"] create_runs [of "k_os k" "k_os k'"] kernel_step_moves [OF assms(1,2)] kernel_step_ffs [OF assms(1,3)] assms(3)
  by (auto simp: kernel_ok_def)

lemma moves_sleeper:
  assumes "os_move\<^sup>*\<^sup>* st st'" "os_runs st" "uart_sleeper t st" "tcb_valid (msel_task_list st' ! t)"
  shows "uart_sleeper t st'"
proof -
  have t: "t < 5" using assms(3) by (simp add: uart_sleeper_def)
  have "os_runs st' \<and> (tcb_valid (msel_task_list st' ! t) \<longrightarrow> uart_sleeper t st')"
    using assms(1-3)
  proof (induction rule: rtranclp_induct)
    case (step y z)
    then show ?case using os_move_runs [of y z] os_move_gone [of y z t] os_move_sleeper [of y z t] t by blast
  qed simp
  then show ?thesis using assms(4) by blast
qed

section \<open>Start of the system\<close>

text \<open>The hardware has a tick timer, the image a main task, and the static variables their initial values.\<close>

definition reset_ok :: "('h, 'u) board \<Rightarrow> ('h, 'u) kernel \<Rightarrow> bool" where
  "reset_ok bd k \<longleftrightarrow> bd_main bd \<noteq> 0 \<and> spr (k_mmu k) SPR_UPR AND push_bit 10 1 \<noteq> 0
     \<and> num_sessions (k_ffs k) = 0 \<and> length (cb_data (s0_rq (k_ffs k))) = MAX_QUEUE_SIZE \<and> rfile_nonce (k_ffs k) \<noteq> 0
     \<and> length (ffs_send_data (k_ffs k)) = FFS_HDR_SIZE + FFS_DATA_SIZE"

lemma init_task_runs:
  assumes "entry \<noteq> 0"
  shows "\<exists>st'. msel_init_task lay entry st = Some st' \<and> os_runs st'"
proof -
  let ?st = "st\<lparr>msel_task_list := replicate 5 zero_tcb\<rparr>"
  have f: "free_slot (msel_task_list ?st) = 0" by (simp add: free_slot_def zero_tcb_def numeral_eq_Suc)
  obtain st' where c: "msel_task_create lay entry None 0 ?st = Some (MSEL_OK, Some 0, st')" "msel_num_tasks st' = msel_num_tasks st + 1"
    "msel_task_is_valid (msel_task_list st' ! 0)" using create_plain [of ?st entry lay] assms unfolding f by auto
  have "length (msel_task_list st') = 5" using create_frame [OF c(1)] by simp
  then show ?thesis using c by (auto simp: msel_init_task_def arch_init_task_def os_runs_def os_ok_def msel_active_task_def Let_def)
qed

lemma init_pol_runs: "os_runs (msel_init_pol st) = os_runs st" "os_runs (msel_task_launch_main st) = (os_ok st)"
  by (auto simp: msel_init_pol_def os_runs_def os_ok_def msel_active_task_def msel_task_launch_main_def msel_task_setup_mm_def
      arch_task_setup_mm_def arch_task_launch_main_def)

lemma init_tasks: "ffs_tasks (msel_init_ffs_queues f)"
proof -
  have w: "wq (msel_init_ffs_queues f) = replicate 5 zero_queue"
    by (simp add: msel_init_ffs_queues_def Let_def msel_ffs_rfile_clear_def arch_ffs_rfile_clear_def)
  have "\<not> q_active (wq_1 (msel_init_ffs_queues f) s)" if "sid_ok s" for s
    using sid_ok_less [OF that] by (simp add: wq_1_def w zero_queue_def)
  then show ?thesis by (auto simp: ffs_tasks_def)
qed

lemma init_isr_returns: "s SPR_UPR AND push_bit 10 1 \<noteq> 0 \<Longrightarrow> \<exists>s'. arch_init_isr (SPR_SR_IEE_SET 0 s) = Some s'"
  by (simp add: arch_init_isr_def arch_init_tick_timer_def SPR_SR_IEE_SET_def spr_read_def spr_write_def Let_def
    SPR_UPR_def SPR_EVBAR_def SPR_SR_def SPR_REG_def)

lemma init_ok:
  assumes "reset_ok bd k"
  shows "\<exists>k'. msel_init bd k = Some k' \<and> kernel_ok (msel_start k')"
proof -
  obtain s where s: "arch_init_isr (SPR_SR_IEE_SET 0 (spr (k_mmu k))) = Some s" using init_isr_returns assms by (auto simp: reset_ok_def)
  define st where "st = msel_init_taskmem (img_layout (bd_image bd)) ((k_os k)\<lparr>msel_systicks := 0, os_gpio := msel_init_led (os_gpio (k_os k))\<rparr>)"
  obtain st' where st': "msel_init_task (img_layout (bd_image bd)) (bd_main bd) st = Some st'" "os_runs st'"
    using init_task_runs [of "bd_main bd" "img_layout (bd_image bd)" st] assms by (auto simp: reset_ok_def)
  have "ffs_ok (msel_init_ffs_queues (k_ffs k))" using assms by (intro init_ffs_ok) (simp_all add: reset_ok_def)
  moreover have "os_runs (msel_task_launch_main (msel_init_pol st'))"
    using st'(2) init_pol_runs(1) [of st'] unfolding init_pol_runs(2) by (simp add: os_runs_def)
  ultimately show ?thesis using s st'(1) init_tasks
    by (simp add: msel_init_def msel_start_def kernel_ok_def arch_platform_init_def st_def Let_def)
qed

section \<open>Properties\<close>

text \<open>
  C2. The kernel is well-formed for ever. After the start of the system, whatever the tasks call,
  wherever they fault, whenever the timer ticks and whatever the host sends, at every moment the
  main task is alive and can run, the active task is one of the five and can run, the session
  buffers are well-formed, and no session belongs to the main task. Start-up itself always returns
  on hardware with a tick timer.
\<close>

theorem kernel_well_formed:
  assumes "reset_ok bd k0" "trap_ok bd"
  shows "\<exists>k. msel_init bd k0 = Some k
    \<and> (\<forall>pc' k'. (kernel_step bd)\<^sup>*\<^sup>* (Main_Task 1, msel_start k) (pc', k') \<longrightarrow> kernel_ok k')"
proof -
  obtain k where k: "msel_init bd k0 = Some k" "kernel_ok (msel_start k)" using init_ok [OF assms(1)] by blast
  have "kernel_ok (snd s)" if "(kernel_step bd)\<^sup>*\<^sup>* (Main_Task 1, msel_start k) s" for s
    using that
  proof (induction rule: rtranclp_induct)
    case (step y z)
    then show ?case using kernel_step_ok [of bd "fst y" "snd y" "fst z" "snd z"] assms(2) by simp
  qed (simp add: k(2))
  then show ?thesis using k(1) by fastforce
qed

text \<open>
  C35. A task that sleeps on the serial port never wakes. Along every run of the kernel in which the
  task is not removed, it stays asleep and is never given the processor: nothing resumes it, neither
  the main task nor the driver when its bytes have been sent.
\<close>

theorem uart_sleeper_never_wakes:
  assumes "trap_ok bd" "kernel_ok k" "uart_sleeper t (k_os k)"
    "(\<lambda>s s'. kernel_step bd s s' \<and> tcb_valid (msel_task_list (k_os (snd s')) ! t))\<^sup>*\<^sup>* (pc, k) (pc', k')"
  shows "uart_sleeper t (k_os k') \<and> msel_active_task_num (k_os k') \<noteq> t"
proof -
  let ?step = "\<lambda>s s'. kernel_step bd s s' \<and> tcb_valid (msel_task_list (k_os (snd s')) ! t)"
  have "kernel_ok (snd s) \<and> uart_sleeper t (k_os (snd s))" if "?step\<^sup>*\<^sup>* (pc, k) s" for s
    using that
  proof (induction rule: rtranclp_induct)
    case (step y z)
    let ?y = "snd y" and ?z = "snd z"
    have s: "kernel_step bd (fst y, ?y) (fst z, ?z)" "tcb_valid (msel_task_list (k_os ?z) ! t)" using step.hyps(2) by simp_all
    have ok: "kernel_ok ?z" using kernel_step_ok [OF s(1) assms(1)] step.IH by blast
    have r: "os_runs (k_os ?y)" "ffs_tasks (k_ffs ?y)" using step.IH by (simp_all add: kernel_ok_def)
    then show ?case using kernel_step_moves [OF s(1) assms(1) r(2)] moves_sleeper [OF _ r(1) _ s(2)] create_sleeper [of "k_os ?y" "k_os ?z" t]
      step.IH ok by (auto simp: os_runs_def)
  qed (use assms in simp)
  from this [OF assms(4)] have "uart_sleeper t (k_os k')" "os_runs (k_os k')" by (simp_all add: kernel_ok_def)
  then show ?thesis
    by (auto simp: uart_sleeper_def os_runs_def msel_active_task_def msel_task_is_valid_def msel_task_is_waiting_def)
qed

text \<open>
  C36. The status of a proof of life call that had to wait is lost. When the main task restarts the
  call of a sleeping task and the button has changed, the call succeeds, its answer is stored and
  the task gets the processor back, but the status goes to the saved registers of the main task: the
  caller still reads the one of its first, suspended, call.
\<close>

theorem pol_status_lost:
  assumes "pol_ready t (k_os k)" "msel_active_task_num (k_os k) = 0" "a \<noteq> 0"
    "starting_systicks (k_pol k) = s" "s \<noteq> 0" "button_val (k_pol k) = (if bit b 5 then 32 else 0)"
    "pol_decides s b (msel_systicks (k_os k), gpio_pins (os_gpio (k_os k)))"
    "tcb_stack (msel_task_list (k_os k) ! t) = sp" "sp \<noteq> tcb_stack (msel_task_list (k_os k) ! 0)"
    "reg_r11 (os_regs (k_os k) sp) = MSEL_ESUSP"
  shows "\<exists>s' k'. SystemCallHandler bd (MSEL_SVC_RESTART t (MSEL_SVC_POL a)) k = Some (s', k') \<and> msel_active_task_num (k_os k') = t
    \<and> reg_r11 (os_regs (k_os k') (tcb_stack (msel_task_list (k_os k') ! 0))) = MSEL_OK
    \<and> reg_r11 (os_regs (k_os k') (tcb_stack (msel_task_list (k_os k') ! t))) = MSEL_ESUSP"
proof -
  let ?st = "upd_task t msel_task_resume ((k_os k)\<lparr>msel_active_task_num := t\<rparr>)"
  have t: "t \<noteq> 0" "t < 5" "length (msel_task_list (k_os k)) = 5" using assms(1) by (simp_all add: pol_ready_def os_ok_def)
  have "pol_ready t ?st" using assms(1) t by (auto simp: pol_ready_def os_ok_def nth_list_update msel_task_resume_def)
  then obtain m g where v: "msel_proof_of_life a ?st (k_pol k) = Some (MSEL_OK, ?st\<lparr>os_gpio := g, os_mem := m\<rparr>, \<lparr>starting_systicks = 0, button_val = 0\<rparr>)"
    using pol_visit [of t ?st a "k_pol k" s b] assms(3-7) by (auto simp: upd_task_def)
  then show ?thesis using assms t
    by (simp add: SystemCallHandler_def is_restart_def Let_def) (simp add: upd_task_def msel_task_resume_def)
qed

text \<open>
  C37. The end of a task writes to address 0. The kernel removes the entry of the task before it
  stores the status of the call through it, so the status goes to the saved registers at the null
  pointer.
\<close>

theorem exit_writes_null:
  assumes "os_runs (k_os k)" "msel_num_tasks (k_os k) \<le> 5" "msel_active_task_num (k_os k) = t" "t \<noteq> 0" "t < msel_num_tasks (k_os k)"
  shows "\<exists>k'. SystemCallHandler bd MSEL_SVC_EXIT k = Some (MSEL_SVC_EXIT, k') \<and> tcb_stack (msel_task_list (k_os k') ! t) = 0
    \<and> os_regs (k_os k') = (os_regs (k_os k))(0 := (os_regs (k_os k) 0)\<lparr>reg_r11 := MSEL_OK\<rparr>)"
proof -
  let ?st = "upd_task t (\<lambda>x. x\<lparr>tcb_killed := True, tcb_reason := ''exited''\<rparr>) (k_os k)"
  have l: "length (msel_task_list (k_os k)) = 5" "msel_task_is_valid (msel_task_list (k_os k) ! 0)" "0 < msel_num_tasks (k_os k)"
    using assms(1) by (simp_all add: os_runs_def os_ok_def)
  obtain c d g where s: "msel_task_schedule ?st = Some (MSEL_OK, ?st\<lparr>msel_task_list := reaped (msel_num_tasks (k_os k)) (msel_task_list ?st), os_console := c,
      msel_active_task_num := d, os_gpio := g\<rparr>)"
    using schedule_returns [of ?st 0] l assms(2,4) by auto
  have z: "reaped (msel_num_tasks (k_os k)) (msel_task_list ?st) ! t = zero_tcb" using l assms(2-5) by simp
  have f: "msel_task_force_kill t ''exited'' (k_os k) = Some (?st\<lparr>msel_task_list := reaped (msel_num_tasks (k_os k)) (msel_task_list ?st), os_console := c,
      msel_active_task_num := d, os_gpio := g\<rparr>)" using s l assms(2-5) by (simp add: msel_task_force_kill_def del: reaped_simps)
  show ?thesis using assms(3,4) z
    by (simp add: SystemCallHandler_def f Let_def zero_tcb_def del: reaped_simps)
qed

text \<open>
  C38. The memory protection does not survive a change of task. Nothing clears the translation
  buffer when the next task is chosen: after the main task has touched a page of RAM, be it the
  kernel's own data or another task's heap, and a tick has handed the processor to a task, that
  task can write the page although it is not its own.
\<close>

theorem tlb_outlives_task:
  assumes "DTLBMiss (bd_image bd) (k_os k) (k_mmu k) = Some mm" "msel_active_task_num (k_os k) = 0"
    "spr (k_mmu k) (SPR_EEAR 0) = va" "0x200000 \<le> va" "va < 0x220000"
    "TickTimerHandler (k\<lparr>k_mmu := mm\<rparr>) = Some k'" "msel_active_task_num (k_os k') = t" "t \<noteq> 0" "\<not> own_memory t va"
  shows "kernel_step bd (pc, k) (pc, k\<lparr>k_mmu := mm\<rparr>) \<and> kernel_step bd (pc, k\<lparr>k_mmu := mm\<rparr>) (pc, k')
    \<and> dtlb_grants TLBTR_UWE (spr (k_mmu k')) va"
proof (intro conjI)
  show "kernel_step bd (pc, k) (pc, k\<lparr>k_mmu := mm\<rparr>)" by (rule kernel_step.dtlb [OF assms(1)])
  show "kernel_step bd (pc, k\<lparr>k_mmu := mm\<rparr>) (pc, k')" by (rule kernel_step.tick [OF assms(6)])
  have "spr (k_mmu k') = arch_systick_handler (spr mm)" using assms(6) by (auto simp: TickTimerHandler_def Let_def split: bind_splits)
  then show "dtlb_grants TLBTR_UWE (spr (k_mmu k')) va" using main_miss_grants [OF assms(1-5)] by (simp add: tick_keeps_tlb)
qed

section \<open>Examples\<close>

definition sim_soc :: "slow_port soc_hw" where
  "sim_soc = \<lparr>uart_inb = uart_inb sim_uart, uart_outb = uart_outb sim_uart, pic_read = \<lambda>d. (0, d), pic_write = \<lambda>v d. d, trng_byte = \<lambda>d. (7, d)\<rparr>"

definition sim_board :: "(nand, slow_port) board" where
  "sim_board = \<lparr>bd_image = demo_image, bd_main = 0x100200, bd_get_task = \<lambda>d. (Some [], 4, 0), bd_flash = sim_hw, bd_stk = [],
     bd_soc = sim_soc, bd_trap = Some\<rparr>"

definition sim_kernel :: "os \<Rightarrow> (nand, slow_port) kernel" where
  "sim_kernel st = \<lparr>k_os = st, k_ffs = reset_ffs, k_flash = blank_part, k_uart = sim_uart_state, k_pol = \<lparr>starting_systicks = 7, button_val = 0\<rparr>,
     k_mmu = (demo_mmu 0x214000)\<lparr>spr := (\<lambda>r. 0x214000)(SPR_UPR := 0x400)\<rparr>\<rparr>"

lemma sim_board_ok: "trap_ok sim_board" "reset_ok sim_board (sim_kernel st)"
  by (simp_all add: trap_ok_def sim_board_def reset_ok_def sim_kernel_def demo_mmu_def reset_ffs_def)

theorem kernel_well_formed_witness:
  "\<exists>k. msel_init sim_board (sim_kernel demo_os) = Some k \<and> kernel_ok (msel_start k)"
  using kernel_well_formed [OF sim_board_ok(2,1), of demo_os] by blast

definition sleeping_os :: "msel_task_wait_op \<Rightarrow> os" where
  "sleeping_os w = demo_os\<lparr>msel_active_task_num := 0, msel_task_list := (msel_task_list demo_os)[1 := zero_tcb\<lparr>tcb_valid := True, tcb_wait_op := w, tcb_stack := 0x204100\<rparr>]\<rparr>"

lemma sleeping_os: "os_runs (sleeping_os w)"
  by (simp add: sleeping_os_def demo_os_def zero_tcb_def os_runs_def os_ok_def msel_active_task_def msel_task_is_valid_def msel_task_is_killed_def msel_task_is_waiting_def)

theorem uart_sleeper_never_wakes_witness:
  "\<exists>k'. kernel_step sim_board (Main_Yield, (sim_kernel (sleeping_os MSEL_TASK_WAIT_UART))\<lparr>k_ffs := msel_init_ffs_queues reset_ffs\<rparr>) (Main_Yield, k')
     \<and> uart_sleeper 1 (k_os k')"
proof -
  let ?k = "(sim_kernel (sleeping_os MSEL_TASK_WAIT_UART))\<lparr>k_ffs := msel_init_ffs_queues reset_ffs\<rparr> :: (nand, slow_port) kernel"
  let ?k' = "?k\<lparr>k_os := msel_task_update_ctrs_resume (k_os ?k)\<rparr>"
  have o: "k_os ?k = sleeping_os MSEL_TASK_WAIT_UART" by (simp add: sim_kernel_def)
  have ok: "kernel_ok ?k" using sleeping_os reset_init_ok init_tasks by (simp add: kernel_ok_def sim_kernel_def)
  have s: "uart_sleeper 1 (k_os ?k)" unfolding o by (simp add: uart_sleeper_def sleeping_os_def demo_os_def zero_tcb_def)
  have st: "kernel_step sim_board (Main_Yield, ?k) (Main_Yield, ?k')" by (rule kernel_step.leave)
  have v: "tcb_valid (msel_task_list (k_os ?k') ! 1)"
    by (simp add: o sim_kernel_def msel_task_update_ctrs_resume_def sleeping_os_def demo_os_def zero_tcb_def)
  have "(\<lambda>s s'. kernel_step sim_board s s' \<and> tcb_valid (msel_task_list (k_os (snd s')) ! 1))\<^sup>*\<^sup>* (Main_Yield, ?k) (Main_Yield, ?k')"
    using st v by (intro r_into_rtranclp) simp
  from uart_sleeper_never_wakes [OF sim_board_ok(1) ok s this] show ?thesis using st by blast
qed

lemma all_less_5: "(\<forall>i < (5 :: nat). P i) \<longleftrightarrow> P 0 \<and> P 1 \<and> P 2 \<and> P 3 \<and> P 4"
  by (auto simp: less_Suc_eq numeral_eq_Suc)

theorem pol_status_lost_witness:
  "\<exists>s' k'. SystemCallHandler sim_board (MSEL_SVC_RESTART 1 (MSEL_SVC_POL 0x204800))
       (sim_kernel ((sleeping_os MSEL_TASK_WAIT_POL)\<lparr>msel_systicks := 9, os_gpio := (os_gpio demo_os)\<lparr>gpio_pins := 32\<rparr>,
          os_regs := \<lambda>a. \<lparr>reg_sr = 0, reg_pc = 0, reg_r3 = 0, reg_r4 = 0, reg_r11 = MSEL_ESUSP\<rparr>\<rparr>)) = Some (s', k')
     \<and> reg_r11 (os_regs (k_os k') (tcb_stack (msel_task_list (k_os k') ! 1))) = MSEL_ESUSP"
proof -
  let ?st = "(sleeping_os MSEL_TASK_WAIT_POL)\<lparr>msel_systicks := 9, os_gpio := (os_gpio demo_os)\<lparr>gpio_pins := 32\<rparr>,
          os_regs := \<lambda>a. \<lparr>reg_sr = 0, reg_pc = 0, reg_r3 = 0, reg_r4 = 0, reg_r11 = MSEL_ESUSP\<rparr>\<rparr>"
  have "pol_ready 1 ?st" unfolding pol_ready_def all_less_5
    by (simp add: os_ok_def sleeping_os_def demo_os_def zero_tcb_def msel_task_is_valid_def msel_task_is_killed_def msel_task_is_waiting_def)
  moreover have "tcb_stack (msel_task_list ?st ! 1) = 0x204100" "tcb_stack (msel_task_list ?st ! 0) = 0" "msel_active_task_num ?st = 0"
    by (simp_all add: sleeping_os_def demo_os_def zero_tcb_def)
  moreover have "pol_decides 7 0 (9, 32)" by (simp add: pol_decides_def)
  ultimately show ?thesis
    using pol_status_lost [where t = 1 and k = "sim_kernel ?st" and a = "0x204800" and s = 7 and b = 0 and sp = "0x204100" and bd = sim_board]
    by (auto simp: sim_kernel_def)
qed

theorem exit_writes_null_witness:
  "\<exists>k'. SystemCallHandler sim_board MSEL_SVC_EXIT (sim_kernel demo_os) = Some (MSEL_SVC_EXIT, k') \<and> reg_r11 (os_regs (k_os k') 0) = MSEL_OK"
proof -
  have "os_runs demo_os" by (simp add: demo_os_def zero_tcb_def os_runs_def os_ok_def msel_active_task_def msel_task_is_valid_def msel_task_is_killed_def msel_task_is_waiting_def)
  moreover have "msel_num_tasks demo_os = 2" "msel_active_task_num demo_os = 1" by (simp_all add: demo_os_def)
  ultimately show ?thesis using exit_writes_null [of "sim_kernel demo_os" 1 sim_board] by (auto simp: sim_kernel_def)
qed

lemma tick_example: "\<exists>st'. msel_systick_handler (demo_os\<lparr>msel_active_task_num := 0\<rparr>) = Some st' \<and> msel_active_task_num st' = 1"
proof -
  let ?st = "demo_os\<lparr>msel_active_task_num := 0, msel_systicks := msel_systicks demo_os + 1\<rparr>"
  obtain g where g: "msel_set_status_leds ?st = Some (?st\<lparr>os_gpio := g\<rparr>)" by (simp add: msel_set_status_leds_def demo_os_def)
  have d: "task_dist 2 0 1 = 1" by (simp add: task_dist_def)
  have v: "msel_num_tasks (?st\<lparr>os_gpio := g\<rparr>) = 2" "length (msel_task_list (?st\<lparr>os_gpio := g\<rparr>)) = 5"
    "msel_task_is_valid (msel_task_list (?st\<lparr>os_gpio := g\<rparr>) ! 1)" "msel_active_task_num (?st\<lparr>os_gpio := g\<rparr>) = 0"
    by (simp_all add: demo_os_def zero_tcb_def msel_task_is_valid_def msel_task_is_killed_def msel_task_is_waiting_def)
  obtain st' where "msel_task_schedule (?st\<lparr>os_gpio := g\<rparr>) = Some (MSEL_OK, st')" "msel_active_task_num st' = 1"
    using schedule_returns [of "?st\<lparr>os_gpio := g\<rparr>" 1] v d by auto
  then show ?thesis using g by (simp add: msel_systick_handler_def Let_def)
qed

theorem tlb_outlives_task_witness:
  "\<exists>k'. msel_active_task_num (k_os k') = 1 \<and> \<not> own_memory 1 0x214000 \<and> dtlb_grants TLBTR_UWE (spr (k_mmu k')) 0x214000
     \<and> (kernel_step sim_board)\<^sup>*\<^sup>* (Main_Yield, sim_kernel (demo_os\<lparr>msel_active_task_num := 0\<rparr>)) (Main_Yield, k')"
proof -
  let ?st = "demo_os\<lparr>msel_active_task_num := 0\<rparr>" and ?k = "sim_kernel (demo_os\<lparr>msel_active_task_num := 0\<rparr>)"
  have e: "spr (k_mmu ?k) (SPR_EEAR 0) = 0x214000" by (simp add: sim_kernel_def demo_mmu_def SPR_EEAR_def SPR_UPR_def SPR_REG_def)
  obtain mm where mm: "DTLBMiss (bd_image sim_board) (k_os ?k) (k_mmu ?k) = Some mm"
    by (simp add: DTLBMiss_def Let_def spr_read_def e) (simp add: sim_kernel_def demo_mmu_def)
  have n: "\<not> own_memory 1 0x214000" by (simp add: own_memory_def taskmem_stack_bottom_def taskmem_heap_end_def or1k_layout_def)
  obtain st' where st': "msel_systick_handler ?st = Some st'" "msel_active_task_num st' = 1" using tick_example by blast
  obtain k' where k': "TickTimerHandler (?k\<lparr>k_mmu := mm\<rparr>) = Some k'" "msel_active_task_num (k_os k') = 1"
    using st' by (simp add: TickTimerHandler_def sim_kernel_def Let_def)
  from tlb_outlives_task [OF mm _ e _ _ k' _ n, of Main_Yield] have "kernel_step sim_board (Main_Yield, ?k) (Main_Yield, ?k\<lparr>k_mmu := mm\<rparr>)"
    "kernel_step sim_board (Main_Yield, ?k\<lparr>k_mmu := mm\<rparr>) (Main_Yield, k')" "dtlb_grants TLBTR_UWE (spr (k_mmu k')) 0x214000"
    by (simp_all add: sim_kernel_def)
  then show ?thesis using n k'(2) by (meson converse_rtranclp_into_rtranclp r_into_rtranclp)
qed

end
