(* ===== verification/Spec2Isabelle.thy ===== *)
theory Spec2Isabelle
  imports Malloc_Trace Aes_Gcm Proto Kernel_Run
begin

text \<open>
  Verification of mselOS, the operating system of the ORP secure element.
\<close>

end
